(* ===== verification/Prelude.thy ===== *)
theory Prelude
  imports Main "HOL-Library.Word"
begin

text \<open>
  What every component of the development shares: the ways a C function can fail to
  return (\<open>fault\<close>), the results of the memory-level operations (\<open>'a res\<close>, a sum with
  the fault on the left), their sequencing, writes into C arrays, and the machine
  integers of the program with their little-endian bytes.
\<close>

unbundle bit_operations_syntax

section \<open>Faults and results\<close>

text \<open>
  \<open>OutOfBounds\<close>, \<open>NullDeref\<close>, \<open>UseAfterFree\<close>, \<open>InvalidFree\<close>, \<open>Uninitialised\<close>,
  \<open>IntOverflow\<close> and \<open>DivByZero\<close> are the undefined behaviours of C the program can run into;
  \<open>NoReturn\<close> is a walk over a cyclic structure, which never ends;
  \<open>Exit n\<close> is a call of \<open>exit(n)\<close> (so \<open>ERR_EXIT\<close> of \<^verbatim>\<open>common.h\<close> is \<open>Exit 1\<close> and
  \<open>unix_error\<close> of \<^verbatim>\<open>csapp.cpp\<close> is \<open>Exit 0\<close>); \<open>Killed\<close> is a signal whose default action ends
  the process; \<open>Thread_exit\<close> ends the calling thread.
\<close>

datatype fault =
    OutOfBounds
  | NullDeref
  | UseAfterFree
  | InvalidFree
  | Uninitialised
  | IntOverflow
  | DivByZero
  | NoReturn
  | Exit int
  | Killed
  | Thread_exit

type_synonym 'a res = "fault + 'a"

text \<open>Sequencing of two statements that may fault.\<close>

definition bnd :: "'a res \<Rightarrow> ('a \<Rightarrow> 'b res) \<Rightarrow> 'b res" where
  "bnd m f = (case m of Inl e \<Rightarrow> Inl e | Inr x \<Rightarrow> f x)"

lemma bnd_simps [simp]:
  "bnd (Inl e) f = Inl e"
  "bnd (Inr x) f = f x"
  by (simp_all add: bnd_def)

lemma bnd_eq_Inr [simp]: "bnd m f = Inr y \<longleftrightarrow> (\<exists>x. m = Inr x \<and> f x = Inr y)"
  by (cases m) auto

lemma bnd_eq_Inl: "bnd m f = Inl e \<longleftrightarrow> m = Inl e \<or> (\<exists>x. m = Inr x \<and> f x = Inl e)"
  by (cases m) auto

lemma bnd_cong [fundef_cong]:
  "m = m' \<Longrightarrow> (\<And>x. m' = Inr x \<Longrightarrow> f x = f' x) \<Longrightarrow> bnd m f = bnd m' f'"
  by (cases m') auto

text \<open>Reading through a pointer that may dangle: the heap cell is gone after \<open>free\<close>.\<close>

definition deref :: "('a \<Rightarrow> 'b option) \<Rightarrow> 'a \<Rightarrow> 'b res" where
  "deref h p = (case h p of None \<Rightarrow> Inl UseAfterFree | Some x \<Rightarrow> Inr x)"

lemma deref_simps [simp]:
  "h p = None \<Longrightarrow> deref h p = Inl UseAfterFree"
  "h p = Some x \<Longrightarrow> deref h p = Inr x"
  by (simp_all add: deref_def)

lemma deref_eq_Inr [simp]: "deref h p = Inr x \<longleftrightarrow> h p = Some x"
  by (auto simp: deref_def split: option.splits)

section \<open>Arrays\<close>

text \<open>An access of a C array is a list access with the bounds written out.\<close>

definition peek_at :: "'a list \<Rightarrow> nat \<Rightarrow> 'a res" where
  "peek_at a i = (if i < length a then Inr (a ! i) else Inl OutOfBounds)"

definition poke_at :: "'a list \<Rightarrow> nat \<Rightarrow> 'a \<Rightarrow> 'a list res" where
  "poke_at a i x = (if i < length a then Inr (a[i := x]) else Inl OutOfBounds)"

text \<open>Storing a block of cells from index \<open>i\<close> on (what \<open>memcpy\<close> and a kernel do).\<close>

definition blit :: "'a list \<Rightarrow> nat \<Rightarrow> 'a list \<Rightarrow> 'a list res" where
  "blit a i xs = (if i + length xs \<le> length a
     then Inr (take i a @ xs @ drop (i + length xs) a) else Inl OutOfBounds)"

lemma peek_at_simps [simp]:
  "i < length a \<Longrightarrow> peek_at a i = Inr (a ! i)"
  "length a \<le> i \<Longrightarrow> peek_at a i = Inl OutOfBounds"
  by (simp_all add: peek_at_def)

lemma poke_at_simps [simp]:
  "i < length a \<Longrightarrow> poke_at a i x = Inr (a[i := x])"
  "length a \<le> i \<Longrightarrow> poke_at a i x = Inl OutOfBounds"
  by (simp_all add: poke_at_def)

lemma poke_at_length: "poke_at a i x = Inr b \<Longrightarrow> length b = length a"
  by (auto simp: poke_at_def split: if_splits)

lemma blit_length: "blit a i xs = Inr b \<Longrightarrow> length b = length a"
  by (auto simp: blit_def split: if_splits)

section \<open>Machine integers\<close>

type_synonym u32 = "32 word"
type_synonym bytes = "8 word list"

text \<open>The conversion of a \<open>long\<close> to an \<open>int\<close>: the low 32 bits read as two's complement.\<close>

definition to_int32 :: "int \<Rightarrow> int" where
  "to_int32 n = sint (word_of_int n :: u32)"

lemma to_int32_id: "- (2 ^ 31) \<le> n \<Longrightarrow> n < 2 ^ 31 \<Longrightarrow> to_int32 n = n"
  by (simp add: to_int32_def sint_sbintrunc' signed_take_bit_int_eq_self)

text \<open>An \<open>unsigned\<close> as the four bytes it occupies on a little-endian machine.\<close>

definition u32_bytes :: "u32 \<Rightarrow> bytes" where
  "u32_bytes w = [ucast w, ucast (drop_bit 8 w), ucast (drop_bit 16 w), ucast (drop_bit 24 w)]"

fun read_u32 :: "bytes \<Rightarrow> u32 res" where
  "read_u32 (a # b # c # d # _) =
     Inr (ucast a OR push_bit 8 (ucast b) OR push_bit 16 (ucast c) OR push_bit 24 (ucast d))"
| "read_u32 _ = Inl OutOfBounds"

lemma length_u32_bytes [simp]: "length (u32_bytes w) = 4"
  by (simp add: u32_bytes_def)

lemma read_u32_bytes [simp]: "read_u32 (u32_bytes w) = Inr w"
proof -
  have "(ucast (ucast w :: 8 word) OR push_bit 8 (ucast (ucast (drop_bit 8 w) :: 8 word))
     OR push_bit 16 (ucast (ucast (drop_bit 16 w) :: 8 word))
     OR push_bit 24 (ucast (ucast (drop_bit 24 w) :: 8 word)) :: u32) = w" (is "?l = w")
  proof (rule bit_word_eqI)
    fix n assume n: "n < LENGTH(32)"
    consider "n < 8" | "8 \<le> n" "n < 16" | "16 \<le> n" "n < 24" | "24 \<le> n"
      by linarith
    then show "bit ?l n \<longleftrightarrow> bit w n"
      by cases (use n in \<open>auto simp: bit_simps\<close>)
  qed
  then show ?thesis by (simp add: u32_bytes_def)
qed

lemma u32_bytes_inject [simp]: "u32_bytes v = u32_bytes w \<longleftrightarrow> v = w"
proof
  assume "u32_bytes v = u32_bytes w"
  then have "read_u32 (u32_bytes v) = read_u32 (u32_bytes w)" by simp
  then show "v = w" by simp
qed simp

lemma read_u32_append [simp]: "read_u32 (u32_bytes w @ bs) = Inr w"
  using read_u32_bytes [of w] by (simp add: u32_bytes_def)

end
