(* ===== verification/Kernel.thy ===== *)
theory Kernel
  imports Prelude
begin

text \<open>
  The operating system the server runs on, as a parameter: a \<open>kernel\<close> answers a call from
  the history of the calls before it and their answers, so that every behaviour of the network,
  the file system and the clock is some kernel. The state \<open>kstate\<close> holds this history
  (\<open>trace\<close>), \<open>errno\<close> and the time last read; the states of the server extend it. Programs are
  functions on states that may not return (\<open>None\<close>), may end the process or reach undefined
  behaviour (\<open>Stop\<close>), or return (\<open>Go\<close>). \<open>wp\<close> is their total-correctness weakest precondition:
  \<open>wp m Q s\<close> says that \<open>m\<close> returns from \<open>s\<close>, without a fault, in a state that satisfies \<open>Q\<close>.
\<close>

section \<open>System calls\<close>

datatype errno = EINTR | EAGAIN | EINPROGRESS | ETIMEDOUT | EPIPE | EOTHER int

text \<open>The structures a call fills in, with the fields the program reads.\<close>

record statbuf =
  st_mode :: u32
  st_size :: int
  st_nlink :: int
  st_uid :: int
  st_gid :: int
  st_mtime :: int

record tm =
  tm_year :: nat   \<comment> \<open>the full year\<close>
  tm_mon :: nat    \<comment> \<open>0 to 11\<close>
  tm_mday :: nat
  tm_hour :: nat
  tm_min :: nat

text \<open>The user data of an epoll event: the union of a pointer into \<open>sessinfo\<close> and a descriptor.\<close>

datatype epoll_data = Data_ptr nat | Data_fd int

text \<open>\<open>epoll_ctl\<close>: the operation, with the user data and whether the interest is in writing.\<close>

datatype epoll_op = Epoll_add epoll_data bool | Epoll_mod epoll_data bool | Epoll_del

text \<open>The calls, those of a path and those of a descriptor alone grouped.\<close>

datatype path_call =
    Open | Stat | Lstat | Mkdir | Rmdir | Unlink | Chdir | Getpwnam | Getspnam | Gethostbyname

datatype fd_call =
    Close | Fstat | Unlock | Setsockopt | Getsockopt | Listen | Getsockname | Accept | Getfl
  | Readdir | Closedir | Setown

datatype (plugins only: code size) syscall =
    SysRead int nat
  | SysPeek int nat                 \<comment> \<open>\<open>recv\<close> with \<open>MSG_PEEK\<close>\<close>
  | SysWrite int string
  | SysPath path_call string
  | SysFd fd_call int
  | SysOpenat int string bool       \<comment> \<open>for writing, created when missing\<close>
  | SysLock int bool                \<comment> \<open>\<open>fcntl(F_SETLKW)\<close>, exclusive\<close>
  | SysLseek int int
  | SysFtruncate int int
  | SysSendfile int int nat
  | SysReadlink string nat
  | SysOpendir "string option"
  | SysRename string string
  | SysChmod string u32
  | SysUmask u32
  | SysGetcwd nat
  | SysGetpwuid u32
  | SysCrypt string string
  | SysGettimeofday
  | SysLocaltime int
  | SysSocket
  | SysBind int u32 nat
  | SysGethostname
  | SysConnect int u32 nat
  | SysSelect bool int u32          \<comment> \<open>for writing, the descriptor, the seconds\<close>
  | SysSetNonblock int bool
  | SysEpollCreate
  | SysEpollCtl epoll_op int int
  | SysEpollWait int nat int
  | SysThread
  | SysGetuid
  | SysSendmsg int int              \<comment> \<open>one byte on a local socket, with a descriptor\<close>
  | SysRecvmsg int
  | SysUnix string "int list" "string list"   \<comment> \<open>any other call, by its name\<close>

text \<open>
  An answer: the result of the call, \<open>errno\<close> when this is negative, and what the call
  stores for its caller. A pointer result is \<open>NULL\<close> when \<open>rv\<close> is negative.
\<close>

record sysret =
  rv :: int
  eno :: errno
  dat :: string            \<comment> \<open>bytes read, a name, an encrypted password\<close>
  dat2 :: string           \<comment> \<open>the home directory of a \<open>passwd\<close>\<close>
  num :: u32               \<comment> \<open>a user id, an address\<close>
  port :: nat
  stb :: statbuf
  tv_sec :: int
  tv_usec :: int
  loctime :: tm
  evs :: "(bool \<times> bool \<times> bool \<times> epoll_data) list"  \<comment> \<open>EPOLLIN, EPOLLOUT, EPOLLHUP\<close>
  passed :: "int option"   \<comment> \<open>the descriptor in the control message of a \<open>recvmsg\<close>\<close>

type_synonym history = "(syscall \<times> sysret) list"
type_synonym kernel = "history \<Rightarrow> syscall \<Rightarrow> sysret"

text \<open>A plain answer, for building concrete kernels.\<close>

definition answer :: "int \<Rightarrow> sysret" where
  "answer n = \<lparr>rv = n, eno = EOTHER 0, dat = [], dat2 = [], num = 0, port = 0,
     stb = \<lparr>st_mode = 0, st_size = 0, st_nlink = 0, st_uid = 0, st_gid = 0, st_mtime = 0\<rparr>,
     tv_sec = 0, tv_usec = 0,
     loctime = \<lparr>tm_year = 1970, tm_mon = 0, tm_mday = 1, tm_hour = 0, tm_min = 0\<rparr>, evs = [], passed = None\<rparr>"

lemma answer_simps [simp]:
  "rv (answer n) = n" "dat (answer n) = []" "evs (answer n) = []" "eno (answer n) = EOTHER 0"
  by (simp_all add: answer_def)

record kstate =
  trace :: history
  errno :: errno
  curr_time :: "int \<times> int"   \<comment> \<open>\<open>s_curr_time\<close>\<close>

section \<open>Programs\<close>

datatype ('a, 's) outcome = Stop fault 's | Go 'a 's

type_synonym ('a, 's) prog = "'s \<Rightarrow> ('a, 's) outcome option"

definition ret :: "'a \<Rightarrow> ('a, 's) prog" where
  "ret x s = Some (Go x s)"

definition stop :: "fault \<Rightarrow> ('a, 's) prog" where
  "stop e s = Some (Stop e s)"

definition bind :: "('a, 's) prog \<Rightarrow> ('a \<Rightarrow> ('b, 's) prog) \<Rightarrow> ('b, 's) prog" where
  "bind m f s = (case m s of
     None \<Rightarrow> None
   | Some (Stop e s') \<Rightarrow> Some (Stop e s')
   | Some (Go x s') \<Rightarrow> f x s')"

text \<open>Two statements in sequence.\<close>

definition seq :: "('a, 's) prog \<Rightarrow> ('b, 's) prog \<Rightarrow> ('b, 's) prog" where
  "seq m n = bind m (\<lambda>_. n)"

definition lift :: "'a res \<Rightarrow> ('a, 's) prog" where
  "lift r = (case r of Inl e \<Rightarrow> stop e | Inr x \<Rightarrow> ret x)"

definition gets :: "('s \<Rightarrow> 'a) \<Rightarrow> ('a, 's) prog" where
  "gets f s = Some (Go (f s) s)"

definition modify :: "('s \<Rightarrow> 's) \<Rightarrow> (unit, 's) prog" where
  "modify f s = Some (Go () (f s))"

text \<open>A statement under a condition.\<close>

definition onlyif :: "bool \<Rightarrow> (unit, 's) prog \<Rightarrow> (unit, 's) prog" where
  "onlyif b m = (if b then m else ret ())"

lemma bind_None [simp]: "m s = None \<Longrightarrow> bind m f s = None"
  and bind_Stop [simp]: "m s = Some (Stop e s') \<Longrightarrow> bind m f s = Some (Stop e s')"
  and bind_Go [simp]: "m s = Some (Go x s') \<Longrightarrow> bind m f s = f x s'"
  by (simp_all add: bind_def)

lemma bind_ret [simp]: "bind (ret x) f = f x"
  by (simp add: bind_def ret_def fun_eq_iff)

lemma bind_cases:
  assumes "bind m f s = Some r"
  obtains e s' where "m s = Some (Stop e s')" "r = Stop e s'"
    | x s' where "m s = Some (Go x s')" "f x s' = Some r"
  using assms by (auto simp: bind_def split: option.splits outcome.splits)

lemma bind_Go_cases:
  assumes "bind m f s = Some (Go y t)"
  obtains x s' where "m s = Some (Go x s')" "f x s' = Some (Go y t)"
  using assms by (auto simp: bind_def split: option.splits outcome.splits)

lemma lift_simps [simp]: "lift (Inl e) = stop e" "lift (Inr x) = ret x"
  by (simp_all add: lift_def)

text \<open>What lets a loop be defined as the least fixed point of a body that uses \<open>bind\<close>.\<close>

lemma bind_mono [partial_function_mono]:
  fixes M :: "('f \<Rightarrow> 'r option) \<Rightarrow> ('a, 's) prog"
  assumes m: "\<And>s. mono_option (\<lambda>f. M f s)" and n: "\<And>x s. mono_option (\<lambda>f. N f x s)"
  shows "mono_option (\<lambda>f. bind (M f) (N f) s)"
proof (rule monotoneI)
  fix f g :: "'f \<Rightarrow> 'r option" assume fg: "fun_ord option_ord f g"
  have "option_ord (M f s) (M g s)" using monotoneD [OF m [of s]] fg by blast
  then consider "M f s = None" | "M f s = M g s" by (auto simp: flat_ord_def)
  moreover have "option_ord (N f x s') (N g x s')" for x s' using monotoneD [OF n [of x s']] fg by blast
  ultimately show "option_ord (bind (M f) (N f) s) (bind (M g) (N g) s)"
    by cases (auto simp: flat_ord_def bind_def split: option.splits outcome.splits)
qed

lemma seq_mono [partial_function_mono]:
  assumes m: "\<And>s. mono_option (\<lambda>f. M f s)" and n: "\<And>s. mono_option (\<lambda>f. N f s)"
  shows "mono_option (\<lambda>f. seq (M f) (N f) s)"
  unfolding seq_def using bind_mono [of M "\<lambda>f _. N f" s] m n by blast

text \<open>Branches inside the body of a loop, applied to the state.\<close>

lemma if_app_mono [partial_function_mono]:
  assumes "mono_option (\<lambda>f. M f s)" "mono_option (\<lambda>f. N f s)"
  shows "mono_option (\<lambda>f. (if b then M f else N f) s)"
  using assms by (cases b) simp_all

lemma case_prod_app_mono [partial_function_mono]:
  assumes "\<And>a b. mono_option (\<lambda>f. M f a b s)"
  shows "mono_option (\<lambda>f. (case p of (a, b) \<Rightarrow> M f a b) s)"
  using assms by (cases p) simp

lemma case_option_app_mono [partial_function_mono]:
  assumes "mono_option (\<lambda>f. M f s)" "\<And>x. mono_option (\<lambda>f. N f x s)"
  shows "mono_option (\<lambda>f. (case p of None \<Rightarrow> M f | Some x \<Rightarrow> N f x) s)"
  using assms by (cases p) simp_all

lemma onlyif_mono [partial_function_mono]:
  assumes "mono_option (\<lambda>f. M f s)"
  shows "mono_option (\<lambda>f. onlyif b (M f) s)"
  using assms by (cases b) (auto simp: onlyif_def ret_def flat_ord_def intro: monotoneI)

lemma Let_app_mono [partial_function_mono]:
  assumes "mono_option (\<lambda>f. M f x s)"
  shows "mono_option (\<lambda>f. (let y = x in M f y) s)"
  using assms by simp

section \<open>Weakest preconditions\<close>

named_theorems wp_intro \<open>rules that compute a weakest precondition\<close>

definition wp :: "('a, 's) prog \<Rightarrow> ('a \<Rightarrow> 's \<Rightarrow> bool) \<Rightarrow> 's \<Rightarrow> bool" where
  "wp m Q s = (case m s of Some (Go x s') \<Rightarrow> Q x s' | _ \<Rightarrow> False)"

lemma wp_ex: "wp m Q s \<longleftrightarrow> (\<exists>x s'. m s = Some (Go x s') \<and> Q x s')"
  by (auto simp: wp_def split: option.splits outcome.splits)

lemma wp_ret [simp]: "wp (ret x) Q s = Q x s"
  by (simp add: wp_def ret_def)

lemma wp_stop [simp]: "wp (stop e) Q s = False"
  by (simp add: wp_def stop_def)

lemma wp_bind [simp]: "wp (bind m f) Q s = wp m (\<lambda>x. wp (f x) Q) s"
  by (simp add: wp_def bind_def split: option.splits outcome.splits)

lemma wp_seq [simp]: "wp (seq m n) Q s = wp m (\<lambda>_. wp n Q) s"
  by (simp add: seq_def)

lemma wp_gets [simp]: "wp (gets f) Q s = Q (f s) s"
  by (simp add: wp_def gets_def)

lemma wp_modify [simp]: "wp (modify h) Q s = Q () (h s)"
  by (simp add: wp_def modify_def)

lemma wp_lift [simp]: "wp (lift r) Q s = (case r of Inl e \<Rightarrow> False | Inr x \<Rightarrow> Q x s)"
  by (cases r) simp_all

lemma wp_onlyif [simp]: "wp (onlyif b m) Q s = (if b then wp m Q s else Q () s)"
  by (simp add: onlyif_def)

lemma wp_if: "wp (if b then m else n) Q s = (if b then wp m Q s else wp n Q s)"
  by simp

lemma wp_mono: "wp m P s \<Longrightarrow> (\<And>x s'. P x s' \<Longrightarrow> Q x s') \<Longrightarrow> wp m Q s"
  by (auto simp: wp_ex)

text \<open>A program that ends the process, and one that never returns.\<close>

definition ends :: "('a, 's) prog \<Rightarrow> fault \<Rightarrow> 's \<Rightarrow> bool" where
  "ends m e s \<longleftrightarrow> (\<exists>s'. m s = Some (Stop e s'))"

lemma ends_stop [simp]: "ends (stop e) e' s \<longleftrightarrow> e = e'"
  by (simp add: ends_def stop_def)

lemma ends_ret [simp]: "\<not> ends (ret x) e s"
  by (simp add: ends_def ret_def)

lemma ends_gets [simp]: "\<not> ends (gets f) e s"
  by (simp add: ends_def gets_def)

lemma ends_modify [simp]: "\<not> ends (modify f) e s"
  by (simp add: ends_def modify_def)

lemma ends_bind:
  "ends (bind m f) e s \<longleftrightarrow> ends m e s \<or> (\<exists>x s'. m s = Some (Go x s') \<and> ends (f x) e s')"
  by (auto simp: ends_def bind_def split: option.splits outcome.splits)

lemma ends_after: "wp m (\<lambda>x s'. ends (f x) e s') s \<Longrightarrow> ends (bind m f) e s"
  by (auto simp: ends_bind wp_ex)

text \<open>A program that never returns.\<close>

definition hangs :: "('a, 's) prog \<Rightarrow> 's \<Rightarrow> bool" where
  "hangs m s \<longleftrightarrow> m s = None"

lemma hangs_bind: "wp m (\<lambda>x. hangs (f x)) s \<Longrightarrow> hangs (bind m f) s"
  by (auto simp: wp_ex hangs_def)

lemma hangs_seq: "wp m (\<lambda>_. hangs n) s \<Longrightarrow> hangs (seq m n) s"
  by (simp add: seq_def hangs_bind)

lemma hangs_bind_now: "hangs m s \<Longrightarrow> hangs (bind m f) s"
  by (simp add: hangs_def)

lemma ends_seq: "wp m (\<lambda>_. ends n e) s \<Longrightarrow> ends (seq m n) e s"
  by (simp add: seq_def ends_after)

section \<open>Calls\<close>

definition sys :: "kernel \<Rightarrow> syscall \<Rightarrow> (sysret, 'z kstate_scheme) prog" where
  "sys K c s = (let r = K (trace s) c in
     Some (Go r (s\<lparr>trace := trace s @ [(c, r)], errno := (if rv r < 0 then eno r else errno s)\<rparr>)))"

text \<open>The state after a call.\<close>

definition after :: "kernel \<Rightarrow> syscall \<Rightarrow> 'z kstate_scheme \<Rightarrow> 'z kstate_scheme" where
  "after K c s = (let r = K (trace s) c in
     s\<lparr>trace := trace s @ [(c, r)], errno := (if rv r < 0 then eno r else errno s)\<rparr>)"

lemma sys_run: "sys K c s = Some (Go (K (trace s) c) (after K c s))"
  by (simp add: sys_def after_def Let_def)

lemma wp_sys [simp]: "wp (sys K c) Q s = Q (K (trace s) c) (after K c s)"
  by (simp add: wp_def sys_run)

lemma after_simps [simp]:
  "trace (after K c s) = trace s @ [(c, K (trace s) c)]"
  "errno (after K c s) = (if rv (K (trace s) c) < 0 then eno (K (trace s) c) else errno s)"
  "curr_time (after K c s) = curr_time s"
  "kstate.more (after K c s) = kstate.more s"
  by (simp_all add: after_def Let_def)

text \<open>The state after some calls \<open>h\<close> that left \<open>errno\<close> at \<open>e\<close>.\<close>

definition grow :: "history \<Rightarrow> errno \<Rightarrow> 'z kstate_scheme \<Rightarrow> 'z kstate_scheme" where
  "grow h e s = s\<lparr>trace := trace s @ h, errno := e\<rparr>"

lemma grow_simps [simp]:
  "trace (grow h e s) = trace s @ h"
  "errno (grow h e s) = e"
  "curr_time (grow h e s) = curr_time s"
  "kstate.more (grow h e s) = kstate.more s"
  by (simp_all add: grow_def)

lemma grow_grow [simp]: "grow h' e' (grow h e s) = grow (h @ h') e' s"
  by (simp add: grow_def)

lemma after_grow: "after K c s = grow [(c, K (trace s) c)] (errno (after K c s)) s"
  by (simp add: after_def grow_def Let_def)

text \<open>A call of which only the result matters.\<close>

definition call :: "kernel \<Rightarrow> syscall \<Rightarrow> (int, 'z kstate_scheme) prog" where
  "call K c = bind (sys K c) (\<lambda>r. ret (rv r))"

lemma wp_call [simp]: "wp (call K c) Q s = Q (rv (K (trace s) c)) (after K c s)"
  by (simp add: call_def)

lemma call_run: "call K c s = Some (Go (rv (K (trace s) c)) (after K c s))"
  by (simp add: call_def sys_run ret_def)

text \<open>
  \<open>write\<close> reports at most what it was given; on a connection the peer has closed, it raises
  \<open>SIGPIPE\<close>, which the program leaves at its default action. \<open>read\<close> and \<open>recv\<close> deliver at most
  what was asked for.
\<close>

definition write_fd :: "kernel \<Rightarrow> int \<Rightarrow> string \<Rightarrow> (int, 'z kstate_scheme) prog" where
  "write_fd K fd d = bind (sys K (SysWrite fd d)) (\<lambda>r.
     if rv r < 0 then (if eno r = EPIPE then stop Killed else ret (- 1))
     else ret (min (rv r) (int (length d))))"

definition received :: "nat \<Rightarrow> sysret \<Rightarrow> int \<times> string" where
  "received n r = (if rv r < 0 then (- 1, []) else (int (length (take n (dat r))), take n (dat r)))"

definition read_fd :: "kernel \<Rightarrow> int \<Rightarrow> nat \<Rightarrow> (int \<times> string, 'z kstate_scheme) prog" where
  "read_fd K fd n = bind (sys K (SysRead fd n)) (\<lambda>r. ret (received n r))"

definition peek_fd :: "kernel \<Rightarrow> int \<Rightarrow> nat \<Rightarrow> (int \<times> string, 'z kstate_scheme) prog" where
  "peek_fd K fd n = bind (sys K (SysPeek fd n)) (\<lambda>r. ret (received n r))"

text \<open>The bytes a history has put on a descriptor and taken from it.\<close>

fun sent_by :: "int \<Rightarrow> syscall \<times> sysret \<Rightarrow> string" where
  "sent_by fd (SysWrite fd' d, r) = (if fd' = fd then take (nat (rv r)) d else [])"
| "sent_by fd _ = []"

fun taken_by :: "int \<Rightarrow> syscall \<times> sysret \<Rightarrow> string" where
  "taken_by fd (SysRead fd' n, r) = (if fd' = fd \<and> 0 \<le> rv r then take n (dat r) else [])"
| "taken_by fd _ = []"

definition sent :: "int \<Rightarrow> history \<Rightarrow> string" where
  "sent fd h = concat (map (sent_by fd) h)"

definition taken :: "int \<Rightarrow> history \<Rightarrow> string" where
  "taken fd h = concat (map (taken_by fd) h)"

lemma sent_simps [simp]:
  "sent fd [] = []"
  "sent fd (h @ h') = sent fd h @ sent fd h'"
  "sent fd (e # h) = sent_by fd e @ sent fd h"
  by (simp_all add: sent_def)

lemma taken_simps [simp]:
  "taken fd [] = []"
  "taken fd (h @ h') = taken fd h @ taken fd h'"
  "taken fd (e # h) = taken_by fd e @ taken fd h"
  by (simp_all add: taken_def)

end
