(* ===== verification/CString.thy ===== *)
theory CString
  imports Prelude
begin

text \<open>
  \<^verbatim>\<open>str.cpp\<close> and the functions of \<^verbatim>\<open>string.h\<close> it calls. A C array of \<open>char\<close> is a list
  of characters of fixed length; a scan that runs off its end, or a store behind it, is
  \<open>OutOfBounds\<close>. \<open>cstr\<close> reads the string a buffer holds, and every routine comes with the
  string its result holds.
\<close>

section \<open>Strings in buffers\<close>

definition nul :: char where "nul = CHR 0x00"
definition cr :: char where "cr = CHR 0x0D"
definition lf :: char where "lf = CHR 0x0A"

definition cstr :: "string \<Rightarrow> string" where
  "cstr b = takeWhile (\<lambda>c. c \<noteq> nul) b"

definition terminated :: "string \<Rightarrow> bool" where
  "terminated b \<longleftrightarrow> nul \<in> set b"

text \<open>An array of \<open>n\<close> characters initialised with zeroes.\<close>

definition zeros :: "nat \<Rightarrow> string" where
  "zeros n = replicate n nul"

fun strlen :: "string \<Rightarrow> nat res" where
  "strlen [] = Inl OutOfBounds"
| "strlen (c # cs) = (if c = nul then Inr 0 else bnd (strlen cs) (\<lambda>n. Inr (Suc n)))"

fun strchr :: "string \<Rightarrow> char \<Rightarrow> nat option res" where
  "strchr [] c = Inl OutOfBounds"
| "strchr (x # xs) c =
     (if x = c then Inr (Some 0)
      else if x = nul then Inr None
      else bnd (strchr xs c) (\<lambda>r. Inr (map_option Suc r)))"

text \<open>The value of \<open>strcmp(a,b) == 0\<close> on two strings.\<close>

definition streq :: "string \<Rightarrow> string \<Rightarrow> bool" where
  "streq a b \<longleftrightarrow> cstr a = cstr b"

definition strcpy :: "string \<Rightarrow> string \<Rightarrow> string res" where
  "strcpy dst src = bnd (strlen src) (\<lambda>n. blit dst 0 (take n src @ [nul]))"

definition strncpy :: "string \<Rightarrow> string \<Rightarrow> nat \<Rightarrow> string res" where
  "strncpy dst src n =
     (let s = take n (cstr src) in blit dst 0 (s @ replicate (n - length s) nul))"

lemma cstr_simps [simp]:
  "cstr [] = []"
  "cstr (c # cs) = (if c = nul then [] else c # cstr cs)"
  by (simp_all add: cstr_def)

lemma cstr_append_nul [simp]: "nul \<notin> set s \<Longrightarrow> cstr (s @ nul # t) = s"
  by (induction s) auto

lemma nul_notin_cstr [simp]: "nul \<notin> set (cstr b)"
  by (induction b) auto

lemma cstr_id [simp]: "nul \<notin> set s \<Longrightarrow> cstr s = s"
  by (induction s) auto

lemma length_cstr_le: "length (cstr b) \<le> length b"
  by (induction b) auto

lemma terminated_split:
  assumes "terminated b"
  obtains t where "b = cstr b @ nul # t"
proof -
  from assms have "\<exists>t. b = cstr b @ nul # t"
    by (induction b) (auto simp: terminated_def)
  then show ?thesis using that by blast
qed

lemma terminated_length: "terminated b \<Longrightarrow> length (cstr b) < length b"
  by (induction b) (auto simp: terminated_def)

lemma terminated_append_nul [simp, intro]: "terminated (s @ nul # t)"
  by (simp add: terminated_def)

lemma strlen_terminated: "terminated b \<Longrightarrow> strlen b = Inr (length (cstr b))"
  by (induction b) (auto simp: terminated_def)

lemma strlen_unterminated: "\<not> terminated b \<Longrightarrow> strlen b = Inl OutOfBounds"
  by (induction b) (auto simp: terminated_def)

lemma strchr_terminated:
  "terminated b \<Longrightarrow> c \<noteq> nul \<Longrightarrow>
   strchr b c = Inr (if c \<in> set (cstr b) then Some (length (takeWhile (\<lambda>x. x \<noteq> c) (cstr b))) else None)"
  by (induction b) (auto simp: terminated_def)

lemma strcpy_fits:
  assumes "terminated src" and "length (cstr src) < length dst"
  shows "strcpy dst src = Inr (cstr src @ nul # drop (Suc (length (cstr src))) dst)"
proof -
  from assms(1) have "take (length (cstr src)) src = cstr src"
    by (metis append_eq_conv_conj terminated_split)
  with assms show ?thesis
    by (simp add: strcpy_def strlen_terminated blit_def)
qed

lemma strcpy_overflow:
  "terminated src \<Longrightarrow> length dst \<le> length (cstr src) \<Longrightarrow> strcpy dst src = Inl OutOfBounds"
  using terminated_length [of src]
  by (simp add: strcpy_def strlen_terminated blit_def min_def)

section \<open>The routines of str.cpp\<close>

text \<open>
  The loop \<open>for(int i=strlen(str)-1;i>=0;i--)\<close>: \<open>trim_from i\<close> runs the iterations from
  index \<open>i - 1\<close> down to \<open>0\<close>.
\<close>

fun trim_from :: "nat \<Rightarrow> string \<Rightarrow> string" where
  "trim_from 0 s = s"
| "trim_from (Suc i) s = trim_from i (if s ! i = cr \<or> s ! i = lf then s[i := nul] else s)"

definition str_trim_crlf :: "string \<Rightarrow> string res" where
  "str_trim_crlf str = bnd (strlen str) (\<lambda>n. Inr (trim_from n str))"

text \<open>
  \<open>str_split(str,a,b,c)\<close> returns the two output buffers. The terminator of the left part
  is stored at index \<open>p-str+1\<close>, as the source has it.
\<close>

definition str_split :: "string \<Rightarrow> string \<Rightarrow> string \<Rightarrow> char \<Rightarrow> (string \<times> string) res" where
  "str_split str a b c =
     bnd (strchr str c) (\<lambda>p.
     case p of
       None \<Rightarrow> bnd (strcpy a str) (\<lambda>a1. Inr (a1, b))
     | Some n \<Rightarrow>
         bnd (strncpy a str n) (\<lambda>a1.
         bnd (poke_at a1 (n + 1) nul) (\<lambda>a2.
         bnd (strcpy b (drop (n + 1) str)) (\<lambda>b1.
         Inr (a2, b1)))))"

fun str_all_space :: "string \<Rightarrow> bool res" where
  "str_all_space [] = Inl OutOfBounds"
| "str_all_space (c # cs) =
     (if c = nul then Inr True else if c \<noteq> CHR '' '' then Inr False else str_all_space cs)"

text \<open>\<open>toupper\<close> of the C locale.\<close>

definition toupper :: "char \<Rightarrow> char" where
  "toupper c = (if 97 \<le> (of_char c :: nat) \<and> (of_char c :: nat) \<le> 122
     then char_of ((of_char c :: nat) - 32) else c)"

fun str_upper :: "string \<Rightarrow> string res" where
  "str_upper [] = Inl OutOfBounds"
| "str_upper (c # cs) =
     (if c = nul then Inr (c # cs) else bnd (str_upper cs) (\<lambda>r. Inr (toupper c # r)))"

definition isdigit :: "char \<Rightarrow> bool" where
  "isdigit c \<longleftrightarrow> 48 \<le> (of_char c :: nat) \<and> (of_char c :: nat) \<le> 57"

definition digit_val :: "char \<Rightarrow> nat" where
  "digit_val c = of_char c - 48"

text \<open>\<open>long long\<close> is 64 bits wide; a signed overflow is \<open>IntOverflow\<close>.\<close>

fun longlong_from :: "int \<Rightarrow> string \<Rightarrow> int res" where
  "longlong_from r [] = Inl OutOfBounds"
| "longlong_from r (c # cs) =
     (if c = nul then Inr r
      else if \<not> isdigit c then Inr 0
      else if 2 ^ 63 \<le> r * 10 + int (digit_val c) then Inl IntOverflow
      else longlong_from (r * 10 + int (digit_val c)) cs)"

definition str_to_longlong :: "string \<Rightarrow> int res" where
  "str_to_longlong str = longlong_from 0 str"

definition is_octal :: "char \<Rightarrow> bool" where
  "is_octal c \<longleftrightarrow> 48 \<le> (of_char c :: nat) \<and> (of_char c :: nat) \<le> 55"

fun octal_from :: "u32 \<Rightarrow> string \<Rightarrow> u32 res" where
  "octal_from r [] = Inl OutOfBounds"
| "octal_from r (c # cs) =
     (if c = nul then Inr r
      else if \<not> is_octal c then Inr r
      else octal_from (push_bit 3 r + of_nat (digit_val c)) cs)"

definition str_octal_to_uint :: "string \<Rightarrow> u32 res" where
  "str_octal_to_uint str = octal_from 0 str"


section \<open>Printing numbers\<close>

text \<open>The digits that \<open>printf\<close> writes for \<open>%u\<close> and \<open>%lld\<close> (base ten) and \<open>%o\<close> (base eight).\<close>

fun show_base :: "nat \<Rightarrow> nat \<Rightarrow> string" where
  "show_base b n = (if n < b \<or> b < 2 then [char_of (48 + n)]
     else show_base b (n div b) @ [char_of (48 + n mod b)])"

declare show_base.simps [simp del]

definition dec_nat :: "nat \<Rightarrow> string" where "dec_nat n = show_base 10 n"
definition oct_nat :: "nat \<Rightarrow> string" where "oct_nat n = show_base 8 n"

definition dec_int :: "int \<Rightarrow> string" where
  "dec_int i = (if i < 0 then CHR ''-'' # dec_nat (nat (- i)) else dec_nat (nat i))"

definition base_val :: "nat \<Rightarrow> nat \<Rightarrow> string \<Rightarrow> nat" where
  "base_val b r s = foldl (\<lambda>r c. r * b + digit_val c) r s"

lemma base_val_simps [simp]:
  "base_val b r [] = r"
  "base_val b r (c # s) = base_val b (r * b + digit_val c) s"
  "base_val b r (s @ [c]) = base_val b r s * b + digit_val c"
  by (simp_all add: base_val_def)

lemma digit_char [simp]:
  assumes "d < 10"
  shows "digit_val (char_of (48 + d)) = d" and "isdigit (char_of (48 + d))"
    and "d < 8 \<Longrightarrow> is_octal (char_of (48 + d))"
  using assms by (auto simp: digit_val_def isdigit_def is_octal_def)

lemma isdigit_not_nul: "isdigit c \<Longrightarrow> c \<noteq> nul"
  by (auto simp: isdigit_def nul_def)

lemma is_octal_not_nul: "is_octal c \<Longrightarrow> c \<noteq> nul"
  by (auto simp: is_octal_def nul_def)

lemma show_base_val: "2 \<le> b \<Longrightarrow> b \<le> 10 \<Longrightarrow> base_val b 0 (show_base b n) = n"
proof (induction b n rule: show_base.induct)
  case (1 b n)
  show ?case
  proof (cases "n < b")
    case True
    with 1 show ?thesis by (subst show_base.simps) simp
  next
    case False
    have "n mod b < b" using "1.prems" by simp
    then have "n mod b < 10" using "1.prems" by linarith
    moreover have "base_val b 0 (show_base b (n div b)) = n div b" using 1 False by simp
    ultimately show ?thesis using 1 False by (subst show_base.simps) simp
  qed
qed

lemma show_base_digits:
  "2 \<le> b \<Longrightarrow> b \<le> 10 \<Longrightarrow> c \<in> set (show_base b n) \<Longrightarrow> \<exists>d < b. c = char_of (48 + d)"
proof (induction b n rule: show_base.induct)
  case (1 b n)
  show ?case
  proof (cases "n < b")
    case True
    with 1 show ?thesis by (subst (asm) show_base.simps) auto
  next
    case False
    from 1 False consider "c \<in> set (show_base b (n div b))" | "c = char_of (48 + n mod b)"
      by (subst (asm) (2) show_base.simps) auto
    then show ?thesis
    proof cases
      case 1
      with "1.IH" "1.prems" False show ?thesis by simp
    next
      case 2
      moreover have "n mod b < b" using "1.prems" by simp
      ultimately show ?thesis by blast
    qed
  qed
qed

lemma dec_nat_isdigit: "c \<in> set (dec_nat n) \<Longrightarrow> isdigit c"
  using show_base_digits [of 10 c n] by (auto simp: dec_nat_def)

lemma oct_nat_is_octal: "c \<in> set (oct_nat n) \<Longrightarrow> is_octal c"
  using show_base_digits [of 8 c n] by (auto simp: oct_nat_def)

lemma base_val_mono: "r \<le> r' \<Longrightarrow> base_val b r s \<le> base_val b r' s"
  by (induction s arbitrary: r r') (auto simp: add_mono mult_le_mono1)

lemma base_val_ge: "0 < b \<Longrightarrow> r \<le> base_val b r s"
proof (induction s arbitrary: r)
  case (Cons c s)
  have "r \<le> r * b + digit_val c" using Cons.prems by (simp add: trans_le_add1)
  with Cons show ?case by (metis base_val_simps(2) order_trans)
qed simp

section \<open>What the routines compute\<close>

lemma trim_from_eq:
  "n \<le> length s \<Longrightarrow>
   trim_from n s = map (\<lambda>c. if c = cr \<or> c = lf then nul else c) (take n s) @ drop n s"
proof (induction n arbitrary: s)
  case (Suc n)
  let ?s = "if s ! n = cr \<or> s ! n = lf then s[n := nul] else s"
  let ?f = "\<lambda>c. if c = cr \<or> c = lf then nul else c"
  from Suc.prems have n: "n < length s" by simp
  have "trim_from (Suc n) s = map ?f (take n ?s) @ drop n ?s"
    using Suc.IH [of ?s] Suc.prems by simp
  also have "take n ?s = take n s" by simp
  also have "drop n ?s = ?f (s ! n) # drop (Suc n) s"
    using n by (simp add: Cons_nth_drop_Suc [symmetric])
  finally show ?case using n by (simp add: take_Suc_conv_app_nth)
qed simp

lemma cstr_map_trim:
  "nul \<notin> set s \<Longrightarrow>
   cstr (map (\<lambda>c. if c = cr \<or> c = lf then nul else c) s @ nul # t)
     = takeWhile (\<lambda>c. c \<noteq> cr \<and> c \<noteq> lf) s"
  by (induction s) auto

lemma str_trim_crlf_spec:
  assumes "terminated str"
  obtains out where "str_trim_crlf str = Inr out" and "length out = length str"
    and "terminated out" and "cstr out = takeWhile (\<lambda>c. c \<noteq> cr \<and> c \<noteq> lf) (cstr str)"
proof -
  obtain t where t: "str = cstr str @ nul # t" using assms by (rule terminated_split)
  define s where "s = cstr str"
  have str: "str = s @ nul # t" using t by (simp add: s_def)
  have s: "nul \<notin> set s" by (simp add: s_def)
  let ?out = "map (\<lambda>c. if c = cr \<or> c = lf then nul else c) s @ nul # t"
  have "str_trim_crlf str = Inr (trim_from (length s) str)"
    using assms by (simp add: str_trim_crlf_def strlen_terminated s_def)
  also have "trim_from (length s) str = ?out" by (simp add: trim_from_eq str)
  finally have "str_trim_crlf str = Inr ?out" .
  moreover have "length ?out = length str" by (simp add: str)
  moreover have "cstr ?out = takeWhile (\<lambda>c. c \<noteq> cr \<and> c \<noteq> lf) (cstr str)"
    using s by (simp add: cstr_map_trim s_def)
  ultimately show ?thesis using that by blast
qed

lemma nul_iff: "c = nul \<longleftrightarrow> (of_char c :: nat) = 0"
proof -
  have "(of_char nul :: nat) = 0" by (simp add: nul_def)
  then show ?thesis by (metis of_char_eq_iff)
qed

lemma of_char_toupper:
  "(of_char (toupper c) :: nat) = (if 97 \<le> (of_char c :: nat) \<and> (of_char c :: nat) \<le> 122
     then of_char c - 32 else of_char c)"
  by (auto simp: toupper_def)

lemma toupper_not_nul [simp]: "toupper c = nul \<longleftrightarrow> c = nul"
  by (auto simp: nul_iff of_char_toupper)

lemma toupper_idem [simp]: "toupper (toupper c) = toupper c"
proof -
  have "(of_char (toupper (toupper c)) :: nat) = of_char (toupper c)"
    by (auto simp: of_char_toupper)
  then show ?thesis by simp
qed


lemma str_upper_spec:
  "terminated s \<Longrightarrow> \<exists>r. str_upper s = Inr r \<and> length r = length s \<and> terminated r
     \<and> cstr r = map toupper (cstr s)"
  by (induction s) (auto simp: terminated_def)

lemma str_all_space_spec:
  "terminated s \<Longrightarrow> str_all_space s = Inr (\<forall>c \<in> set (cstr s). c = CHR '' '')"
  by (induction s) (auto simp: terminated_def nul_def)

text \<open>The two parts of a line around the first separator.\<close>

definition before_sep :: "char \<Rightarrow> string \<Rightarrow> string" where
  "before_sep c s = takeWhile (\<lambda>x. x \<noteq> c) s"

definition after_sep :: "char \<Rightarrow> string \<Rightarrow> string" where
  "after_sep c s = tl (dropWhile (\<lambda>x. x \<noteq> c) s)"

lemma sep_split: "c \<in> set s \<Longrightarrow> s = before_sep c s @ c # after_sep c s"
  unfolding before_sep_def after_sep_def
  by (metis (mono_tags, lifting) hd_dropWhile list.collapse set_takeWhileD
      takeWhile_dropWhile_id append_Nil2)

lemma nul_notin_sep [simp]:
  "nul \<notin> set s \<Longrightarrow> nul \<notin> set (before_sep c s)"
  "nul \<notin> set s \<Longrightarrow> c \<in> set s \<Longrightarrow> nul \<notin> set (after_sep c s)"
proof -
  show "nul \<notin> set s \<Longrightarrow> nul \<notin> set (before_sep c s)"
    by (auto simp: before_sep_def dest: set_takeWhileD)
  show "nul \<notin> set (after_sep c s)" if "nul \<notin> set s" "c \<in> set s"
  proof -
    have "set (after_sep c s) \<subseteq> set s"
      using sep_split [OF that(2)] by (metis Un_iff list.set_intros(2) set_append subsetI)
    with that(1) show ?thesis by blast
  qed
qed

text \<open>
  The exact behaviour of \<open>str_split\<close> on a line with the separator: the left part is
  followed by the byte that was in the output buffer before, and the terminator comes
  after it.
\<close>

lemma str_split_some:
  assumes "terminated str" "c \<noteq> nul" "c \<in> set (cstr str)"
    and n: "n = length (before_sep c (cstr str))"
    and a: "n + 1 < length a" and b: "length (after_sep c (cstr str)) < length b"
  shows "str_split str a b c = Inr ((before_sep c (cstr str) @ drop n a)[n + 1 := nul],
     after_sep c (cstr str) @ nul # drop (Suc (length (after_sep c (cstr str)))) b)"
proof -
  obtain t where t: "str = cstr str @ nul # t" using assms(1) by (rule terminated_split)
  let ?l = "before_sep c (cstr str)" and ?r = "after_sep c (cstr str)"
  have sp: "cstr str = ?l @ c # ?r" using assms(3) by (rule sep_split)
  have p: "strchr str c = Inr (Some n)"
    using assms(1-3) n by (simp add: strchr_terminated before_sep_def)
  have tk: "take n (cstr str) = ?l" by (subst sp) (simp add: n)
  have len: "length (cstr str) \<ge> n" by (subst sp) (simp add: n)
  have a1: "strncpy a str n = Inr (?l @ drop n a)"
    using a n len tk by (simp add: strncpy_def blit_def Let_def)
  have d: "drop (n + 1) str = ?r @ nul # t"
    using t sp n by (metis (no_types, lifting) Suc_eq_plus1 append.assoc append_Cons
        append_eq_conv_conj drop_Suc_Cons drop_drop add.commute drop_append length_Cons
        append_Nil list.size(3) plus_1_eq_Suc)
  have r: "nul \<notin> set ?r" using assms(3) by simp
  have b1: "strcpy b (drop (n + 1) str) = Inr (?r @ nul # drop (Suc (length ?r)) b)"
    unfolding d using strcpy_fits [of "?r @ nul # t" b] r b by simp
  show ?thesis using p a1 b1 a n by (simp add: str_split_def del: Suc_eq_plus1 add_Suc_right)
qed

lemma str_split_none:
  assumes "terminated str" "c \<noteq> nul" "c \<notin> set (cstr str)" "length (cstr str) < length a"
  shows "str_split str a b c = Inr (cstr str @ nul # drop (Suc (length (cstr str))) a, b)"
  using assms by (simp add: str_split_def strchr_terminated strcpy_fits)

lemma str_split_overflow:
  assumes "terminated str" "c \<noteq> nul" "c \<in> set (cstr str)"
    and "length a \<le> length (before_sep c (cstr str)) + 1"
  shows "str_split str a b c = Inl OutOfBounds"
proof -
  let ?n = "length (before_sep c (cstr str))"
  have p: "strchr str c = Inr (Some ?n)"
    using assms(1-3) by (simp add: strchr_terminated before_sep_def)
  have "strncpy a str ?n = Inl OutOfBounds \<or> (\<exists>a1. strncpy a str ?n = Inr a1 \<and> length a1 = length a)"
    by (cases "strncpy a str ?n") (auto simp: strncpy_def blit_def Let_def split: if_splits)
  then show ?thesis using p assms(4) by (auto simp: str_split_def)
qed

lemma cstr_zeros [simp]: "cstr (zeros n) = []"
  by (cases n) (simp_all add: zeros_def)

lemma length_zeros [simp]: "length (zeros n) = n"
  by (simp add: zeros_def)

lemma drop_zeros [simp]: "drop k (zeros n) = zeros (n - k)"
  by (simp add: zeros_def)

lemma cstr_append_zeros [simp]: "nul \<notin> set s \<Longrightarrow> cstr (s @ zeros n) = s"
  by (cases n) (simp_all add: zeros_def)

lemma zeros_update [simp]: "(zeros n)[i := nul] = zeros n"
  by (metis list_update_id list_update_beyond not_le_imp_less nth_replicate zeros_def length_zeros)

lemma longlong_from_digits:
  assumes "\<forall>c \<in> set s. isdigit c" "base_val 10 r s < 2 ^ 63"
  shows "longlong_from (int r) (s @ nul # t) = Inr (int (base_val 10 r s))"
  using assms
proof (induction s arbitrary: r)
  case (Cons c s)
  let ?r = "r * 10 + digit_val c"
  have "?r \<le> base_val 10 ?r s" by (rule base_val_ge) simp
  with Cons.prems have lt: "?r < 2 ^ 63" by simp
  have "int r * 10 + int (digit_val c) = int ?r" by simp
  with lt have "\<not> 2 ^ 63 \<le> int r * 10 + int (digit_val c)"
    by (metis not_le of_nat_less_iff of_nat_numeral of_nat_power)
  with Cons.IH [of ?r] Cons.prems show ?case by (auto simp: isdigit_not_nul)
qed simp

lemma longlong_from_nondigit:
  assumes "\<forall>c \<in> set s. isdigit c" "base_val 10 r s < 2 ^ 63" "\<not> isdigit x" "x \<noteq> nul"
  shows "longlong_from (int r) (s @ x # t) = Inr 0"
  using assms
proof (induction s arbitrary: r)
  case (Cons c s)
  let ?r = "r * 10 + digit_val c"
  have "?r \<le> base_val 10 ?r s" by (rule base_val_ge) simp
  with Cons.prems have lt: "?r < 2 ^ 63" by simp
  have "int r * 10 + int (digit_val c) = int ?r" by simp
  with lt have "\<not> 2 ^ 63 \<le> int r * 10 + int (digit_val c)"
    by (metis not_le of_nat_less_iff of_nat_numeral of_nat_power)
  with Cons.IH [of ?r] Cons.prems show ?case by (auto simp: isdigit_not_nul)
qed simp

lemma longlong_from_overflow:
  assumes "\<forall>c \<in> set s. isdigit c" "2 ^ 63 \<le> base_val 10 r s" "r < 2 ^ 63"
  shows "longlong_from (int r) (s @ t) = Inl IntOverflow"
  using assms
proof (induction s arbitrary: r)
  case (Cons c s)
  let ?r = "r * 10 + digit_val c"
  have c: "c \<noteq> nul" "isdigit c" using Cons.prems(1) by (auto simp: isdigit_not_nul)
  then have step: "longlong_from (int r) ((c # s) @ t)
      = (if 2 ^ 63 \<le> int ?r then Inl IntOverflow else longlong_from (int ?r) (s @ t))" by simp
  show ?case
  proof (cases "?r < 2 ^ 63")
    case True
    have "longlong_from (int ?r) (s @ t) = Inl IntOverflow"
      by (rule Cons.IH) (use Cons.prems True in simp_all)
    then show ?thesis using step by metis
  next
    case False
    then have "2 ^ 63 \<le> int ?r" by (metis not_le of_nat_less_iff of_nat_numeral of_nat_power)
    then show ?thesis using step by metis
  qed
qed simp

lemma octal_from_digits:
  assumes "\<forall>c \<in> set s. is_octal c" "x = nul \<or> \<not> is_octal x"
  shows "octal_from (of_nat r) (s @ x # t) = Inr (of_nat (base_val 8 r s))"
  using assms(1)
proof (induction s arbitrary: r)
  case Nil
  then show ?case using assms(2) by auto
next
  case (Cons c s)
  have "push_bit 3 (of_nat r) + of_nat (digit_val c) = (of_nat (r * 8 + digit_val c) :: u32)"
    by (simp add: push_bit_eq_mult algebra_simps)
  then have "octal_from (of_nat r) ((c # s) @ x # t) = octal_from (of_nat (r * 8 + digit_val c)) (s @ x # t)"
    using Cons.prems by (simp add: is_octal_not_nul)
  with Cons.IH [of "r * 8 + digit_val c"] Cons.prems show ?case by simp
qed

section \<open>Splitting into fresh buffers\<close>

lemma str_split_fresh:
  assumes "terminated str" "cstr str = l @ c # r" "c \<noteq> nul" "c \<notin> set l"
    and "length l + 1 < m" "length r < n"
  shows "str_split str (zeros m) (zeros n) c
    = Inr (l @ zeros (m - length l), r @ nul # zeros (n - Suc (length r)))"
proof -
  have l: "before_sep c (cstr str) = l" and r: "after_sep c (cstr str) = r"
    using assms(2,4) by (auto simp: before_sep_def after_sep_def takeWhile_append dropWhile_append)
  have "(l @ zeros (m - length l))[Suc (length l) := nul] = l @ zeros (m - length l)"
    by (simp add: list_update_append)
  then show ?thesis
    using str_split_some [OF assms(1,3) _ refl, of "zeros m" "zeros n"] assms l r by simp
qed

lemma str_split_fresh_none:
  assumes "terminated str" "c \<noteq> nul" "c \<notin> set (cstr str)" "length (cstr str) < m"
  shows "str_split str (zeros m) b c = Inr (cstr str @ nul # zeros (m - Suc (length (cstr str))), b)"
  using str_split_none [OF assms(1-3), of "zeros m" b] assms(4) by simp

section \<open>Printed numbers\<close>

lemma show_base_length: "2 \<le> b \<Longrightarrow> n < b ^ Suc k \<Longrightarrow> length (show_base b n) \<le> Suc k"
proof (induction k arbitrary: n)
  case 0
  then show ?case by (subst show_base.simps) simp
next
  case (Suc k)
  have "n div b < b ^ Suc k"
    using Suc.prems by (simp add: less_mult_imp_div_less mult.commute)
  with Suc.IH Suc.prems(1) have "length (show_base b (n div b)) \<le> Suc k" by blast
  then show ?case by (subst show_base.simps) simp
qed

lemma show_base_hd:
  "2 \<le> b \<Longrightarrow> b \<le> 10 \<Longrightarrow> 0 < n \<Longrightarrow> \<exists>d s. show_base b n = char_of (48 + d :: nat) # s \<and> 0 < d \<and> d < 10"
proof (induction b n rule: show_base.induct)
  case (1 b n)
  show ?case
  proof (cases "n < b")
    case True
    with "1.prems" have "n < 10" by linarith
    with True "1.prems" show ?thesis by (subst show_base.simps) (auto intro!: exI [of _ n])
  next
    case False
    with "1.prems" have "0 < n div b" by (simp add: div_greater_zero_iff)
    with 1 False obtain d s where "show_base b (n div b) = char_of (48 + d :: nat) # s" "0 < d" "d < 10"
      by auto
    then show ?thesis using "1.prems" False by (subst show_base.simps) (auto intro!: exI [of _ d])
  qed
qed

lemma isdigit_distinct:
  assumes "isdigit c"
  shows "c \<noteq> CHR ''=''" "c \<noteq> CHR ''-''" "c \<noteq> CHR ''+''" "c \<noteq> CHR '' ''" "c \<noteq> CHR ''#''"
    "c \<noteq> CHR '',''" "c \<noteq> CHR ''.''" "c \<noteq> lf" "c \<noteq> cr" "c \<noteq> nul"
  using assms by (auto simp: isdigit_def lf_def cr_def nul_def)

lemma split_no_space:
  "takeWhile (\<lambda>c. c \<noteq> cr \<and> c \<noteq> lf) (s @ cr # lf # t) = takeWhile (\<lambda>c. c \<noteq> cr \<and> c \<noteq> lf) s"
  by (induction s) auto

lemma dec_nat_value: "n < 2 ^ 63 \<Longrightarrow> str_to_longlong (dec_nat n @ nul # t) = Inr (int n)"
  using longlong_from_digits [of "dec_nat n" 0 t] dec_nat_isdigit show_base_val [of 10 n]
  by (simp add: str_to_longlong_def dec_nat_def)

section \<open>Properties\<close>

text \<open>A request line \<open>cmd arg CRLF\<close> is trimmed and cut at its first space into the two
  words, the argument keeping its own spaces, whenever the buffers are clear and hold the
  words, the first with one place to spare.\<close>

theorem split_request:
  assumes "terminated buf" "cstr buf = cmd @ CHR '' '' # arg @ [cr, lf]"
    and "CHR '' '' \<notin> set cmd" "{cr, lf} \<inter> set (cmd @ arg) = {}"
    and "length cmd + 1 < m" "length arg < n"
  shows "bnd (str_trim_crlf buf) (\<lambda>b. str_split b (zeros m) (zeros n) (CHR '' ''))
     = Inr (cmd @ zeros (m - length cmd), arg @ nul # zeros (n - Suc (length arg)))"
proof -
  obtain b where b: "str_trim_crlf buf = Inr b" "terminated b"
    "cstr b = takeWhile (\<lambda>c. c \<noteq> cr \<and> c \<noteq> lf) (cstr buf)"
    using assms(1) by (rule str_trim_crlf_spec)
  have "takeWhile (\<lambda>c. c \<noteq> cr \<and> c \<noteq> lf) (cmd @ CHR '' '' # arg) = cmd @ CHR '' '' # arg"
    using assms(4) by (intro takeWhile_eq_all_conv [THEN iffD2]) (auto simp: cr_def lf_def)
  then have "cstr b = cmd @ CHR '' '' # arg"
    using b(3) split_no_space [of "cmd @ CHR '' '' # arg" "[]"] assms(2) by simp
  then show ?thesis
    using str_split_fresh [OF b(2) _ _ assms(3,5,6)] b(1) by (simp add: nul_def)
qed

theorem split_request_witness:
  "bnd (str_trim_crlf (''RETR my file.txt'' @ [cr, lf, nul])) (\<lambda>b. str_split b (zeros 16) (zeros 64) (CHR '' ''))
     = Inr (''RETR'' @ zeros 12, ''my file.txt'' @ nul # zeros 52)"
  using split_request [of "''RETR my file.txt'' @ [cr, lf, nul]" "''RETR''" "''my file.txt''" 16 64]
  by (simp add: terminated_def cr_def lf_def nul_def)

text \<open>The terminator of the left part is one place too far. The left buffer ends up with
  the wanted word followed by whatever byte it held before at that place, so the cut is right
  only when the byte was the terminator already.\<close>

theorem split_keeps_stale_byte:
  assumes "terminated str" "c \<noteq> nul" "c \<in> set (cstr str)"
    and "left = before_sep c (cstr str)"
    and "length left + 1 < length a" "length (after_sep c (cstr str)) < length b"
  shows "\<exists>a' b'. str_split str a b c = Inr (a', b') \<and> cstr b' = after_sep c (cstr str)
     \<and> cstr a' = left @ (if a ! length left = nul then [] else [a ! length left])"
proof -
  let ?n = "length left" and ?r = "after_sep c (cstr str)"
  let ?a = "(left @ drop ?n a)[?n + 1 := nul]"
  have "drop ?n a = a ! ?n # a ! Suc ?n # drop (Suc (Suc ?n)) a"
    using assms(5) by (simp add: Cons_nth_drop_Suc)
  then have a: "?a = left @ a ! ?n # nul # drop (Suc (Suc ?n)) a"
    by (simp add: list_update_append)
  have n: "nul \<notin> set left" using assms(4) by simp
  then have "cstr ?a = left @ (if a ! ?n = nul then [] else [a ! ?n])"
    unfolding a using cstr_append_nul [of "left @ [a ! ?n]"] by (cases "a ! ?n = nul") auto
  moreover have "cstr (?r @ nul # drop (Suc (length ?r)) b) = ?r" using assms(3) by simp
  ultimately show ?thesis
    using str_split_some [OF assms(1-3) arg_cong [OF assms(4), of length] assms(5,6)] assms(4) by simp
qed

theorem split_keeps_stale_byte_witness:
  "\<exists>a' b'. str_split (''CWD /tmp'' @ [nul]) (''XXXXXXXX'' @ [nul]) (zeros 8) (CHR '' '') = Inr (a', b')
     \<and> cstr b' = ''/tmp'' \<and> cstr a' = ''CWDX''"
  using split_keeps_stale_byte [of "''CWD /tmp'' @ [nul]" "CHR '' ''" "''CWD''" "''XXXXXXXX'' @ [nul]" "zeros 8"]
  by (simp add: terminated_def before_sep_def after_sep_def nul_def)

text \<open>A decimal number below \<open>2^63\<close> is parsed back exactly (the argument of \<open>REST\<close>); the
  digits of a larger number overflow, and a character that is not a digit makes the value 0.\<close>

theorem longlong_roundtrip:
  assumes "junk = [] \<or> \<not> isdigit (hd junk) \<and> hd junk \<noteq> nul"
  shows "str_to_longlong (dec_nat n @ junk @ nul # t) =
     (if 2 ^ 63 \<le> n then Inl IntOverflow else Inr (if junk = [] then int n else 0))"
proof (cases "2 ^ 63 \<le> n")
  case True
  then show ?thesis using longlong_from_overflow [of "dec_nat n" 0] dec_nat_isdigit show_base_val [of 10 n]
    by (simp add: str_to_longlong_def dec_nat_def)
next
  case False
  then show ?thesis using assms dec_nat_value [of n t] dec_nat_isdigit show_base_val [of 10 n]
      longlong_from_nondigit [of "dec_nat n" 0 "hd junk" "tl junk @ nul # t"]
    by (cases junk) (auto simp: str_to_longlong_def dec_nat_def)
qed

theorem longlong_roundtrip_witness:
  "str_to_longlong (dec_nat 1000 @ [] @ nul # []) = Inr 1000
   \<and> str_to_longlong (dec_nat 12 @ ''k'' @ nul # []) = Inr 0
   \<and> str_to_longlong (dec_nat (2 ^ 63) @ [] @ nul # []) = Inl IntOverflow"
proof -
  have "\<not> isdigit (CHR ''k'')" "CHR ''k'' \<noteq> nul" by (simp_all add: nul_def isdigit_def)
  then show ?thesis
    using longlong_roundtrip [of "[]" 1000 "[]"] longlong_roundtrip [of "''k''" 12 "[]"]
      longlong_roundtrip [of "[]" "2 ^ 63" "[]"] by simp
qed

end
