(* ===== verification/SysUtil.thy ===== *)
theory SysUtil
  imports Kernel CString
begin

text \<open>
  \<^verbatim>\<open>sysutil.cpp\<close>: reading and writing whole buffers and lines over descriptors that deliver
  them in pieces, waiting with a time limit, locks, the clock, sockets, and the texts of a
  listing. The loops are least fixed points, so that a loop that never ends is \<open>None\<close>. A
  buffer is passed in and handed back; \<open>off\<close> is where the pointer into it stands.
\<close>

section \<open>Whole buffers\<close>

partial_function (option) readn_loop ::
  "kernel \<Rightarrow> int \<Rightarrow> nat \<Rightarrow> nat \<Rightarrow> nat \<Rightarrow> string \<Rightarrow> (int \<times> string, 'z kstate_scheme) prog" where
  "readn_loop K fd cnt rest off buf s =
     (if rest = 0 then ret (int cnt, buf) s
      else bind (read_fd K fd rest) (\<lambda>(nread, d).
        if nread < 0 then bind (gets errno) (\<lambda>e.
          if e = EINTR then readn_loop K fd cnt rest off buf else ret (- 1, buf))
        else if nread = 0 then ret (int (cnt - rest), buf)
        else bind (lift (blit buf off d)) (\<lambda>buf.
          readn_loop K fd cnt (rest - nat nread) (off + nat nread) buf)) s)"

definition readn :: "kernel \<Rightarrow> int \<Rightarrow> string \<Rightarrow> nat \<Rightarrow> nat \<Rightarrow> (int \<times> string, 'z kstate_scheme) prog" where
  "readn K fd buf off cnt = readn_loop K fd cnt cnt off buf"

partial_function (option) writen_loop ::
  "kernel \<Rightarrow> int \<Rightarrow> nat \<Rightarrow> string \<Rightarrow> (int, 'z kstate_scheme) prog" where
  "writen_loop K fd cnt wbuf s =
     (if wbuf = [] then ret (int cnt) s
      else bind (write_fd K fd wbuf) (\<lambda>nwrite.
        if nwrite < 0 then bind (gets errno) (\<lambda>e.
          if e = EINTR then writen_loop K fd cnt wbuf else ret (- 1))
        else if nwrite = 0 then writen_loop K fd cnt wbuf
        else writen_loop K fd cnt (drop (nat nwrite) wbuf)) s)"

definition writen :: "kernel \<Rightarrow> int \<Rightarrow> string \<Rightarrow> (int, 'z kstate_scheme) prog" where
  "writen K fd buf = writen_loop K fd (length buf) buf"

section \<open>Lines\<close>

partial_function (option) recv_peek ::
  "kernel \<Rightarrow> int \<Rightarrow> string \<Rightarrow> nat \<Rightarrow> nat \<Rightarrow> (int \<times> string, 'z kstate_scheme) prog" where
  "recv_peek K fd buf off len s =
     bind (peek_fd K fd len) (\<lambda>(n, d).
     bind (gets errno) (\<lambda>e.
     if n = - 1 \<and> e = EINTR then recv_peek K fd buf off len
     else bind (lift (blit buf off d)) (\<lambda>buf. ret (n, buf)))) s"

partial_function (option) readline_loop ::
  "kernel \<Rightarrow> int \<Rightarrow> nat \<Rightarrow> nat \<Rightarrow> nat \<Rightarrow> string \<Rightarrow> (int \<times> string, 'z kstate_scheme) prog" where
  "readline_loop K fd rest tot off buf s =
     bind (recv_peek K fd buf off rest) (\<lambda>(n, buf).
     if n \<le> 0 then ret (n, buf)
     else bind (lift (strchr (drop off buf) lf)) (\<lambda>p.
       case p of
         Some i \<Rightarrow>
           bind (readn K fd buf off (i + 1)) (\<lambda>(n, buf).
           if n \<noteq> int (i + 1) then stop (Exit 1) else ret (int tot + n, buf))
       | None \<Rightarrow>
           if int rest < n then stop (Exit 1)
           else bind (readn K fd buf off (nat n)) (\<lambda>(m, buf).
             if m \<noteq> n then stop (Exit 1)
             else readline_loop K fd (rest - nat n) (tot + nat n) (off + nat n) buf))) s"

definition readline :: "kernel \<Rightarrow> int \<Rightarrow> string \<Rightarrow> nat \<Rightarrow> (int \<times> string, 'z kstate_scheme) prog" where
  "readline K fd buf len = readline_loop K fd len 0 0 buf"

section \<open>Waiting\<close>

definition set_errno :: "errno \<Rightarrow> (unit, 'z kstate_scheme) prog" where
  "set_errno e = modify (\<lambda>s. s\<lparr>errno := e\<rparr>)"

text \<open>The loop \<open>do { ret=select(..); } while(ret<0&&errno==EINTR)\<close>; \<open>w\<close> waits for writing.\<close>

partial_function (option) select_loop ::
  "kernel \<Rightarrow> bool \<Rightarrow> int \<Rightarrow> u32 \<Rightarrow> (int, 'z kstate_scheme) prog" where
  "select_loop K w fd waitsec s =
     bind (call K (SysSelect w fd waitsec)) (\<lambda>r.
     bind (gets errno) (\<lambda>e.
     if r < 0 \<and> e = EINTR then select_loop K w fd waitsec else ret r)) s"

definition wait_ready :: "kernel \<Rightarrow> bool \<Rightarrow> int \<Rightarrow> u32 \<Rightarrow> (int, 'z kstate_scheme) prog" where
  "wait_ready K w fd waitsec =
     (if 0 < waitsec then
        bind (select_loop K w fd waitsec) (\<lambda>r.
        if r < 0 then stop (Exit 1)
        else if r = 0 then seq (set_errno ETIMEDOUT) (ret (- 1))
        else if r = 1 then ret 0
        else ret r)
      else ret 0)"

definition read_timeout :: "kernel \<Rightarrow> int \<Rightarrow> u32 \<Rightarrow> (int, 'z kstate_scheme) prog" where
  "read_timeout K fd waitsec = wait_ready K False fd waitsec"

definition write_timeout :: "kernel \<Rightarrow> int \<Rightarrow> u32 \<Rightarrow> (int, 'z kstate_scheme) prog" where
  "write_timeout K fd waitsec = wait_ready K True fd waitsec"

definition accept_timeout :: "kernel \<Rightarrow> int \<Rightarrow> u32 \<Rightarrow> (int, 'z kstate_scheme) prog" where
  "accept_timeout K fd waitsec =
     bind (if 0 < waitsec then select_loop K False fd waitsec else ret 1) (\<lambda>r.
     if r < 0 then ret (- 1)
     else if r = 0 then seq (set_errno ETIMEDOUT) (ret (- 1))
     else call K (SysFd Accept fd))"

definition set_nonblock :: "kernel \<Rightarrow> int \<Rightarrow> bool \<Rightarrow> (unit, 'z kstate_scheme) prog" where
  "set_nonblock K fd b =
     bind (call K (SysFd Getfl fd)) (\<lambda>flag.
     if flag = - 1 then stop (Exit 1)
     else bind (call K (SysSetNonblock fd b)) (\<lambda>r.
       if r = - 1 then stop (Exit 1) else ret ()))"

definition activate_nonblock :: "kernel \<Rightarrow> int \<Rightarrow> (unit, 'z kstate_scheme) prog" where
  "activate_nonblock K fd = set_nonblock K fd True"

definition deactivate_nonblock :: "kernel \<Rightarrow> int \<Rightarrow> (unit, 'z kstate_scheme) prog" where
  "deactivate_nonblock K fd = set_nonblock K fd False"

text \<open>The value \<open>err\<close> of the option \<open>SO_ERROR\<close> is 0 when the connection was made.\<close>

definition connect_timeout :: "kernel \<Rightarrow> int \<Rightarrow> u32 \<Rightarrow> nat \<Rightarrow> u32 \<Rightarrow> (int, 'z kstate_scheme) prog" where
  "connect_timeout K fd ip prt waitsec =
     seq (onlyif (0 < waitsec) (activate_nonblock K fd)) (
     bind (call K (SysConnect fd ip prt)) (\<lambda>r.
     bind (gets errno) (\<lambda>e.
     let finish = (\<lambda>r. seq (onlyif (0 < waitsec) (deactivate_nonblock K fd)) (ret r)) in
     if r < 0 \<and> e = EINPROGRESS then
       bind (select_loop K True fd waitsec) (\<lambda>r.
       if r = 0 then seq (set_errno ETIMEDOUT) (finish (- 1))
       else if r < 0 then ret (- 1)
       else if r = 1 then
         bind (sys K (SysFd Getsockopt fd)) (\<lambda>o1.
         if rv o1 = - 1 then ret (- 1)
         else if num o1 = 0 then finish 0
         else seq (set_errno (EOTHER (uint (num o1)))) (finish (- 1)))
       else finish r)
     else finish r)))"

section \<open>Locks and the clock\<close>

partial_function (option) lock_internal ::
  "kernel \<Rightarrow> int \<Rightarrow> bool \<Rightarrow> (int, 'z kstate_scheme) prog" where
  "lock_internal K fd excl s =
     bind (call K (SysLock fd excl)) (\<lambda>r.
     bind (gets errno) (\<lambda>e.
     if r < 0 \<and> e = EINTR then lock_internal K fd excl else ret r)) s"

definition lock_file_read :: "kernel \<Rightarrow> int \<Rightarrow> (int, 'z kstate_scheme) prog" where
  "lock_file_read K fd = lock_internal K fd False"

definition lock_file_write :: "kernel \<Rightarrow> int \<Rightarrow> (int, 'z kstate_scheme) prog" where
  "lock_file_write K fd = lock_internal K fd True"

definition unlock_file :: "kernel \<Rightarrow> int \<Rightarrow> (int, 'z kstate_scheme) prog" where
  "unlock_file K fd = call K (SysFd Unlock fd)"

definition get_time_sec :: "kernel \<Rightarrow> (int, 'z kstate_scheme) prog" where
  "get_time_sec K =
     bind (sys K SysGettimeofday) (\<lambda>r.
     if rv r < 0 then stop (Exit 1)
     else seq (modify (\<lambda>s. s\<lparr>curr_time := (tv_sec r, tv_usec r)\<rparr>)) (ret (tv_sec r)))"

definition get_time_usec :: "(int, 'z kstate_scheme) prog" where
  "get_time_usec = gets (\<lambda>s. snd (curr_time s))"

definition getTimeStamp :: "kernel \<Rightarrow> (int \<times> int, 'z kstate_scheme) prog" where
  "getTimeStamp K = bind (get_time_sec K) (\<lambda>sec. bind get_time_usec (\<lambda>usec. ret (sec, usec)))"

section \<open>Sockets\<close>

text \<open>An address in network order: its first byte in memory is its first number.\<close>

definition inet_ntoa :: "u32 \<Rightarrow> string" where
  "inet_ntoa ip = (case map (dec_nat \<circ> unat) (u32_bytes ip) of
     [a, b, c, d] \<Rightarrow> a @ ''.'' @ b @ ''.'' @ c @ ''.'' @ d | _ \<Rightarrow> [])"

definition fail_exit :: "kernel \<Rightarrow> syscall \<Rightarrow> (int, 'z kstate_scheme) prog" where
  "fail_exit K c = bind (call K c) (\<lambda>r. if r < 0 then stop (Exit 1) else ret r)"

definition tcp_server :: "kernel \<Rightarrow> string option \<Rightarrow> nat \<Rightarrow> (int, 'z kstate_scheme) prog" where
  "tcp_server K host prt =
     bind (fail_exit K SysSocket) (\<lambda>listenfd.
     bind (case host of
             Some h \<Rightarrow> bind (sys K (SysPath Gethostbyname h)) (\<lambda>ht.
               if rv ht < 0 then stop (Exit 1) else ret (num ht))
           | None \<Rightarrow> ret 0) (\<lambda>addr.
     seq (fail_exit K (SysFd Setsockopt listenfd)) (
     seq (fail_exit K (SysBind listenfd addr prt)) (
     seq (fail_exit K (SysFd Listen listenfd)) (
     ret listenfd)))))"

text \<open>\<open>getlocalip(ip)\<close> hands back the buffer; \<open>host\<close> is the terminated name of the machine.\<close>

definition getlocalip :: "kernel \<Rightarrow> string \<Rightarrow> (int \<times> string, 'z kstate_scheme) prog" where
  "getlocalip K ip =
     bind (sys K SysGethostname) (\<lambda>r.
     if rv r < 0 then ret (- 1, ip)
     else bind (sys K (SysPath Gethostbyname (cstr (take 99 (dat r))))) (\<lambda>ht.
       if rv ht < 0 then ret (- 1, ip)
       else bind (lift (strcpy ip (inet_ntoa (num ht) @ [nul]))) (\<lambda>ip. ret (0, ip))))"

text \<open>
  \<open>inet_addr\<close> on four decimal numbers with dots between them, each at most 255; any other text is
  \<open>INADDR_NONE\<close>. (The function also takes octal and hexadecimal numbers and fewer than four; the
  program calls it with what \<open>inet_ntoa\<close> wrote, or with the empty string.)
\<close>

fun quads :: "nat \<Rightarrow> string \<Rightarrow> nat list option" where
  "quads 0 t = (if t = [] then Some [] else None)"
| "quads (Suc k) t =
     (let a = takeWhile isdigit t; r = dropWhile isdigit t in
      if a = [] \<or> 255 < base_val 10 0 a then None
      else if k = 0 then map_option (Cons (base_val 10 0 a)) (quads k r)
      else (case r of
          c # r' \<Rightarrow> if c = CHR ''.'' then map_option (Cons (base_val 10 0 a)) (quads k r') else None
        | [] \<Rightarrow> None))"

definition inet_addr :: "string \<Rightarrow> u32" where
  "inet_addr t = (case quads 4 t of
     None \<Rightarrow> 0xFFFFFFFF
   | Some v \<Rightarrow> (case read_u32 (map of_nat v) of Inr a \<Rightarrow> a | Inl _ \<Rightarrow> 0xFFFFFFFF))"

definition tcp_client :: "kernel \<Rightarrow> nat \<Rightarrow> (int, 'z kstate_scheme) prog" where
  "tcp_client K prt =
     bind (fail_exit K SysSocket) (\<lambda>sock.
     if 0 < prt then
       seq (fail_exit K (SysFd Setsockopt sock)) (
       bind (getlocalip K (zeros 16)) (\<lambda>(_, ip).
       seq (fail_exit K (SysBind sock (inet_addr (cstr ip)) prt)) (
       ret sock)))
     else ret sock)"

definition activate_oobinline :: "kernel \<Rightarrow> int \<Rightarrow> (unit, 'z kstate_scheme) prog" where
  "activate_oobinline K fd =
     bind (call K (SysFd Setsockopt fd)) (\<lambda>r. if r = - 1 then stop (Exit 1) else ret ())"

definition activate_sigurg :: "kernel \<Rightarrow> int \<Rightarrow> (unit, 'z kstate_scheme) prog" where
  "activate_sigurg K fd =
     bind (call K (SysFd Setown fd)) (\<lambda>r. if r = - 1 then stop (Exit 1) else ret ())"

section \<open>Descriptors over a local socket\<close>

definition send_fd :: "kernel \<Rightarrow> int \<Rightarrow> int \<Rightarrow> (unit, 'z kstate_scheme) prog" where
  "send_fd K sock_fd fd =
     bind (call K (SysSendmsg sock_fd fd)) (\<lambda>r. if r \<noteq> 1 then stop (Exit 1) else ret ())"

definition recv_fd :: "kernel \<Rightarrow> int \<Rightarrow> (int, 'z kstate_scheme) prog" where
  "recv_fd K sock_fd =
     bind (sys K (SysRecvmsg sock_fd)) (\<lambda>r.
     if rv r \<noteq> 1 then stop (Exit 1)
     else case passed r of
       None \<Rightarrow> stop (Exit 1)
     | Some fd \<Rightarrow> if fd = - 1 then stop (Exit 1) else ret fd)"

section \<open>Texts of a listing\<close>

definition set_if :: "bool \<Rightarrow> nat \<Rightarrow> char \<Rightarrow> string \<Rightarrow> string" where
  "set_if b i c p = (if b then p[i := c] else p)"

definition type_char :: "u32 \<Rightarrow> char" where
  "type_char mode =
     (let t = mode AND 0xF000 in
      if t = 0x8000 then CHR ''-''
      else if t = 0x4000 then CHR ''d''
      else if t = 0xA000 then CHR ''l''
      else if t = 0x1000 then CHR ''p''
      else if t = 0xC000 then CHR ''s''
      else if t = 0x2000 then CHR ''c''
      else if t = 0x6000 then CHR ''b''
      else CHR ''?'')"

definition has_bit :: "u32 \<Rightarrow> u32 \<Rightarrow> bool" where
  "has_bit mode m \<longleftrightarrow> mode AND m \<noteq> 0"

text \<open>
  \<open>statbuf_get_perms\<close> takes the static array \<open>perms\<close> as the last call left it and hands it
  back.
\<close>

definition init_perms :: string where "init_perms = ''----------''"

definition statbuf_get_perms :: "u32 \<Rightarrow> string \<Rightarrow> string" where
  "statbuf_get_perms mode perms =
     (let p = perms[0 := type_char mode];
          p = set_if (has_bit mode 0x100) 1 (CHR ''r'') p;
          p = set_if (has_bit mode 0x80) 2 (CHR ''w'') p;
          p = set_if (has_bit mode 0x40) 3 (CHR ''x'') p;
          p = set_if (has_bit mode 0x20) 4 (CHR ''r'') p;
          p = set_if (has_bit mode 0x10) 5 (CHR ''w'') p;
          p = set_if (has_bit mode 0x8) 6 (CHR ''x'') p;
          p = set_if (has_bit mode 0x4) 7 (CHR ''r'') p;
          p = set_if (has_bit mode 0x2) 8 (CHR ''w'') p;
          p = set_if (has_bit mode 0x1) 9 (CHR ''x'') p;
          p = set_if (has_bit mode 0x800) 3 (if p ! 3 = CHR ''x'' then CHR ''s'' else CHR ''S'') p;
          p = set_if (has_bit mode 0x400) 6 (if p ! 6 = CHR ''x'' then CHR ''s'' else CHR ''S'') p;
          p = set_if (has_bit mode 0x200) 9 (if p ! 9 = CHR ''x'' then CHR ''t'' else CHR ''T'') p
      in p)"

text \<open>Padding of a number to a width, on the left and on the right.\<close>

definition pad_left :: "nat \<Rightarrow> string \<Rightarrow> string" where
  "pad_left n s = replicate (n - length s) (CHR '' '') @ s"

definition pad_right :: "nat \<Rightarrow> string \<Rightarrow> string" where
  "pad_right n s = s @ replicate (n - length s) (CHR '' '')"

definition pad_zero :: "nat \<Rightarrow> string \<Rightarrow> string" where
  "pad_zero n s = replicate (n - length s) (CHR ''0'') @ s"

definition month_abbr :: "nat \<Rightarrow> string" where
  "month_abbr m = (if m < 12
     then [''Jan'', ''Feb'', ''Mar'', ''Apr'', ''May'', ''Jun'', ''Jul'', ''Aug'', ''Sep'',
           ''Oct'', ''Nov'', ''Dec''] ! m
     else ''?'')"

text \<open>The two formats \<^verbatim>\<open>%b %e  %Y\<close> and \<^verbatim>\<open>%b %e %H:%M\<close> of \<open>strftime\<close> in the C locale.\<close>

definition strftime_year :: "tm \<Rightarrow> string" where
  "strftime_year t = month_abbr (tm_mon t) @ '' '' @ pad_left 2 (dec_nat (tm_mday t)) @ ''  ''
     @ dec_nat (tm_year t)"

definition strftime_clock :: "tm \<Rightarrow> string" where
  "strftime_clock t = month_abbr (tm_mon t) @ '' '' @ pad_left 2 (dec_nat (tm_mday t)) @ '' ''
     @ pad_zero 2 (dec_nat (tm_hour t)) @ '':'' @ pad_zero 2 (dec_nat (tm_min t))"

definition statbuf_get_date :: "kernel \<Rightarrow> statbuf \<Rightarrow> (string, 'z kstate_scheme) prog" where
  "statbuf_get_date K sbuf =
     bind (sys K SysGettimeofday) (\<lambda>tv.
     if rv tv < 0 then stop Uninitialised
     else
       let local_time = tv_sec tv;
           old = (local_time < st_mtime sbuf \<or> 60 * 60 * 24 * 182 < local_time - st_mtime sbuf) in
       bind (sys K (SysLocaltime local_time)) (\<lambda>p_tm.
       if rv p_tm < 0 then stop NullDeref
       else ret (take 63 (if old then strftime_year (loctime p_tm) else strftime_clock (loctime p_tm)))))"

text \<open>The name of an open file, \<open>NULL\<close> when the descriptor has none.\<close>

definition get_file_name :: "kernel \<Rightarrow> int \<Rightarrow> (string option, 'z kstate_scheme) prog" where
  "get_file_name K fd =
     (if fd \<le> 0 then ret None
      else bind (sys K (SysReadlink (''/proc/self/fd/'' @ dec_int fd) 1023)) (\<lambda>r.
        ret (if rv r \<noteq> - 1 then Some (cstr (take 1023 (dat r))) else None)))"

text \<open>\<open>getFN\<close> reads the name into an array of \<open>PATH_MAX\<close> characters, a \<open>0\<close> digit and zeros.\<close>

definition getFN :: "kernel \<Rightarrow> int \<Rightarrow> (string, 'z kstate_scheme) prog" where
  "getFN K fd =
     (if fd \<le> 0 then ret []
      else bind (sys K (SysReadlink (''/proc/self/fd/'' @ dec_int fd) 4095)) (\<lambda>r.
        if rv r = - 1 then ret []
        else bind (lift (blit (CHR ''0'' # zeros 4095) 0 (take 4095 (dat r)))) (\<lambda>path. ret (cstr path))))"

section \<open>What the loops do\<close>

text \<open>\<open>moved s h s'\<close>: the calls \<open>h\<close> were made since, and nothing else changed but \<open>errno\<close>.\<close>

definition moved :: "'z kstate_scheme \<Rightarrow> history \<Rightarrow> 'z kstate_scheme \<Rightarrow> bool" where
  "moved s h s' \<longleftrightarrow> s' = s\<lparr>trace := trace s @ h, errno := errno s'\<rparr>"

lemma moved_refl [simp]: "moved s [] s"
  by (simp add: moved_def)

lemma moved_after: "moved s [(c, K (trace s) c)] (after K c s)"
  by (simp add: moved_def after_def Let_def)

lemma moved_trans: "moved s h s' \<Longrightarrow> moved s' h' s'' \<Longrightarrow> moved s (h @ h') s''"
  unfolding moved_def
  by (cases s; cases s'; cases s'') simp

lemma moved_after_trans: "moved (after K c s) h s' \<Longrightarrow> moved s ((c, K (trace s) c) # h) s'"
  using moved_trans [OF moved_after] by force

lemma moved_trace: "moved s h s' \<Longrightarrow> trace s' = trace s @ h"
  unfolding moved_def by (cases s; cases s') simp

text \<open>Calls that only write to one descriptor.\<close>

definition writes_only :: "int \<Rightarrow> history \<Rightarrow> bool" where
  "writes_only fd h \<longleftrightarrow> (\<forall>(c, r) \<in> set h. \<exists>d. c = SysWrite fd d)"

lemma writes_only_simps [simp]:
  "writes_only fd []"
  "writes_only fd ((c, r) # h) \<longleftrightarrow> (\<exists>d. c = SysWrite fd d) \<and> writes_only fd h"
  "writes_only fd (h @ h') \<longleftrightarrow> writes_only fd h \<and> writes_only fd h'"
  by (auto simp: writes_only_def)

lemma writes_only_sent: "writes_only fd h \<Longrightarrow> fd' \<noteq> fd \<Longrightarrow> sent fd' h = []"
  by (induction h) (auto simp: writes_only_def)

lemma writes_only_taken: "writes_only fd h \<Longrightarrow> taken fd' h = []"
  by (induction h) (auto simp: writes_only_def)

text \<open>A kernel whose writes always take at least one byte.\<close>

definition writes_progress :: "kernel \<Rightarrow> bool" where
  "writes_progress K \<longleftrightarrow> (\<forall>h fd d. d \<noteq> [] \<longrightarrow> 0 < rv (K h (SysWrite fd d)))"

lemma write_fd_run:
  "write_fd K fd d s = (let r = K (trace s) (SysWrite fd d) in
     if rv r < 0 then (if eno r = EPIPE then stop Killed else ret (- 1)) (after K (SysWrite fd d) s)
     else ret (min (rv r) (int (length d))) (after K (SysWrite fd d) s))"
  by (simp add: write_fd_def sys_run Let_def)

lemma writen_loop_progress:
  assumes K: "writes_progress K"
  shows "\<exists>h s'. writen_loop K fd cnt d s = Some (Go (int cnt) s') \<and> moved s h s'
     \<and> writes_only fd h \<and> sent fd h = d"
proof (induction "length d" arbitrary: d s rule: less_induct)
  case less
  show ?case
  proof (cases "d = []")
    case True
    have "writen_loop K fd cnt d s = Some (Go (int cnt) s)"
      using True by (subst writen_loop.simps) (simp add: ret_def)
    then show ?thesis using True moved_refl writes_only_simps(1) sent_simps(1) by blast
  next
    case False
    let ?r = "K (trace s) (SysWrite fd d)" and ?s = "after K (SysWrite fd d) s"
    have r: "0 < rv ?r" using K False by (simp add: writes_progress_def)
    let ?n = "nat (min (rv ?r) (int (length d)))"
    have n: "0 < ?n" "?n \<le> length d" using r False by auto
    then have "length (drop ?n d) < length d" using False by simp
    from less [OF this, of ?s] obtain h s' where
      IH: "writen_loop K fd cnt (drop ?n d) ?s = Some (Go (int cnt) s')"
        "moved ?s h s'" "writes_only fd h" "sent fd h = drop ?n d" by blast
    have m: "\<not> min (rv ?r) (int (length d)) < 0" "min (rv ?r) (int (length d)) \<noteq> 0" "\<not> rv ?r < 0"
      using r False by (auto simp: min_def split: if_splits)
    have "writen_loop K fd cnt d s = writen_loop K fd cnt (drop ?n d) ?s"
      using False m by (subst writen_loop.simps)
        (simp only: bind_def write_fd_run Let_def ret_def if_False option.case outcome.case)
    moreover have "take (nat (rv ?r)) d @ drop ?n d = d"
      by (cases "rv ?r \<le> int (length d)") (simp_all add: min_def)
    moreover have "moved s ((SysWrite fd d, ?r) # h) s'" using IH(2) by (rule moved_after_trans)
    ultimately show ?thesis using IH by (metis sent_by.simps(1) sent_simps(3) writes_only_simps(2))
  qed
qed

lemma moved_grow: "moved s h s' \<longleftrightarrow> s' = grow h (errno s') s"
  by (simp add: moved_def grow_def)

lemma wp_writen [wp_intro]:
  assumes "writes_progress K"
    and "\<And>h e. writes_only fd h \<Longrightarrow> sent fd h = d \<Longrightarrow> Q (int (length d)) (grow h e s)"
  shows "wp (writen K fd d) Q s"
proof -
  obtain h s' where h: "writen_loop K fd (length d) d s = Some (Go (int (length d)) s')"
    "moved s h s'" "writes_only fd h" "sent fd h = d"
    using writen_loop_progress [OF assms(1)] by blast
  then have "Q (int (length d)) s'" using assms(2) [OF h(3,4), of "errno s'"] by (simp add: moved_grow)
  with h(1) show ?thesis by (simp add: wp_ex writen_def)
qed

text \<open>For any kernel: when \<open>writen\<close> returns, it has written all, or a prefix and says \<open>-1\<close>.\<close>

text \<open>Every call offers exactly what is left of \<open>d\<close>; the last one failed, and was not interrupted.\<close>

definition offers :: "int \<Rightarrow> string \<Rightarrow> history \<Rightarrow> bool" where
  "offers fd d h \<longleftrightarrow> (\<forall>g w a h'. h = g @ (SysWrite fd w, a) # h' \<longrightarrow> w \<noteq> [] \<and> d = sent fd g @ w)"

definition gave_up :: "int \<Rightarrow> history \<Rightarrow> bool" where
  "gave_up fd h \<longleftrightarrow> (\<exists>g w a. h = g @ [(SysWrite fd w, a)] \<and> rv a < 0 \<and> eno a \<noteq> EINTR)"

lemma offers_Nil [simp]: "offers fd d []"
  by (simp add: offers_def)

lemma offers_Cons:
  assumes "d \<noteq> []" "d = sent_by fd (SysWrite fd d, a) @ r" "offers fd r h"
  shows "offers fd d ((SysWrite fd d, a) # h)"
  unfolding offers_def
proof (intro allI impI)
  fix g w b h' assume eq: "(SysWrite fd d, a) # h = g @ (SysWrite fd w, b) # h'"
  show "w \<noteq> [] \<and> d = sent fd g @ w"
  proof (cases g)
    case (Cons e g')
    with eq assms(3) have "w \<noteq> [] \<and> r = sent fd g' @ w" by (auto simp: offers_def)
    with eq Cons assms(2) show ?thesis by (simp del: sent_by.simps)
  qed (use eq assms(1) in simp)
qed

lemma gave_up_Cons: "gave_up fd h \<Longrightarrow> gave_up fd (e # h)"
  unfolding gave_up_def by (metis append_Cons)

definition wrote :: "int \<Rightarrow> nat \<Rightarrow> string \<Rightarrow> int \<Rightarrow> history \<Rightarrow> bool" where
  "wrote fd cnt d n h \<longleftrightarrow> writes_only fd h \<and> offers fd d h
    \<and> (n = int cnt \<and> sent fd h = d \<or> n = - 1 \<and> gave_up fd h \<and> (\<exists>t. d = sent fd h @ t))"

lemma write_fd_Go:
  assumes "write_fd K fd d s = Some (Go n s1)"
  shows "s1 = after K (SysWrite fd d) s"
    and "n < 0 \<Longrightarrow> sent_by fd (SysWrite fd d, K (trace s) (SysWrite fd d)) = []"
    and "0 \<le> n \<Longrightarrow> sent_by fd (SysWrite fd d, K (trace s) (SysWrite fd d)) = take (nat n) d"
  using assms
  by (auto simp: write_fd_run Let_def ret_def stop_def min_def split: if_splits)

lemmas writen_loop_induct = writen_loop.raw_induct [rotated, consumes 1, case_names step]

lemma writen_loop_any:
  assumes "writen_loop K fd cnt d s = Some y"
  shows "\<forall>n s'. y = Go n s' \<longrightarrow> (\<exists>h. moved s h s' \<and> wrote fd cnt d n h)"
  using assms
proof (induction rule: writen_loop_induct)
  case (step loop K fd cnt d s y)
  show ?case
  proof (cases "d = []")
    case True
    with step.hyps show ?thesis by (auto simp: ret_def wrote_def intro: moved_refl exI [of _ "[]"])
  next
    case False
    with step.hyps have b: "bind (write_fd K fd d) (\<lambda>nwrite. if nwrite < 0 then bind (gets errno)
       (\<lambda>e. if e = EINTR then loop K fd cnt d else ret (- 1))
       else if nwrite = 0 then loop K fd cnt d else loop K fd cnt (drop (nat nwrite) d)) s = Some y" by simp
    show ?thesis
    proof (intro allI impI)
      fix n s' assume y: "y = Go n s'"
      from b [unfolded y] obtain m s1 where m: "write_fd K fd d s = Some (Go m s1)"
        and go: "(if m < 0 then bind (gets errno) (\<lambda>e. if e = EINTR then loop K fd cnt d else ret (- 1))
          else if m = 0 then loop K fd cnt d else loop K fd cnt (drop (nat m) d)) s1 = Some (Go n s')"
        by (rule bind_Go_cases)
      let ?e = "(SysWrite fd d, K (trace s) (SysWrite fd d))"
      have s1: "s1 = after K (SysWrite fd d) s" using m by (rule write_fd_Go)
      have one: "\<exists>h. moved s h s' \<and> wrote fd cnt d n h"
        if "moved s1 h s'" "wrote fd cnt r n h" "d = sent_by fd ?e @ r" for h r
      proof -
        have "moved s (?e # h) s'" using that(1) by (auto simp: s1 intro: moved_after_trans)
        moreover have "wrote fd cnt d n (?e # h)"
          using that(2,3) False
          by (auto simp: wrote_def offers_Cons gave_up_Cons simp del: sent_by.simps)
        ultimately show ?thesis by blast
      qed
      have more: "\<exists>h. moved s h s' \<and> wrote fd cnt d n h"
        if "loop K fd cnt r s1 = Some (Go n s')" "d = sent_by fd ?e @ r" for r
        using step.IH [OF that(1)] one [OF _ _ that(2)] by blast
      consider "m < 0" "errno s1 = EINTR" | "m < 0" "errno s1 \<noteq> EINTR" | "m = 0" | "0 < m" by linarith
      then show "\<exists>h. moved s h s' \<and> wrote fd cnt d n h"
      proof cases
        case 1
        with go have "loop K fd cnt d s1 = Some (Go n s')" by (simp add: gets_def bind_def)
        moreover have "d = sent_by fd ?e @ d" using write_fd_Go(2) [OF m] 1 by simp
        ultimately show ?thesis by (rule more)
      next
        case 2
        with go have n: "n = - 1" "s1 = s'" by (simp_all add: gets_def bind_def ret_def)
        have e: "rv (K (trace s) (SysWrite fd d)) < 0"
          using m 2(1) by (auto simp: write_fd_run Let_def ret_def stop_def split: if_splits)
        then have "eno (K (trace s) (SysWrite fd d)) \<noteq> EINTR" using 2(2) s1 by (simp add: after_def Let_def)
        with e n have "wrote fd cnt d n [?e]"
          using offers_Cons [OF False, of fd _ d "[]"] by (auto simp: wrote_def gave_up_def)
        moreover have "moved s [?e] s'" using n(2) s1 by (auto intro: moved_after_trans moved_refl)
        ultimately show ?thesis by blast
      next
        case 3
        with go have "loop K fd cnt d s1 = Some (Go n s')" by simp
        moreover have "d = sent_by fd ?e @ d" using write_fd_Go(3) [OF m] 3 by simp
        ultimately show ?thesis by (rule more)
      next
        case 4
        with go have "loop K fd cnt (drop (nat m) d) s1 = Some (Go n s')" by simp
        moreover have "d = sent_by fd ?e @ drop (nat m) d" using write_fd_Go(3) [OF m] 4 by simp
        ultimately show ?thesis by (rule more)
      qed
    qed
  qed
qed

section \<open>Permissions\<close>

lemma set_if_eq: "i < length p \<Longrightarrow> set_if b i c p = p[i := if b then c else p ! i]"
  by (simp add: set_if_def)

lemma length_set_if [simp]: "length (set_if b i c p) = length p"
  by (simp add: set_if_def)

lemma length_perms: "length (statbuf_get_perms mode p) = length p"
  by (simp add: statbuf_get_perms_def Let_def)

text \<open>The nine permission bits of a mode in the notation of \<open>ls\<close>.\<close>

definition exec_char :: "bool \<Rightarrow> bool \<Rightarrow> char \<Rightarrow> char \<Rightarrow> char" where
  "exec_char x special low up = (if special then (if x then low else up) else if x then CHR ''x'' else CHR ''-'')"

definition perms_spec :: "u32 \<Rightarrow> string" where
  "perms_spec m =
     (let b = (\<lambda>bt c. if has_bit m bt then c else CHR ''-'') in
      [type_char m,
       b 0x100 (CHR ''r''), b 0x80 (CHR ''w''), exec_char (has_bit m 0x40) (has_bit m 0x800) (CHR ''s'') (CHR ''S''),
       b 0x20 (CHR ''r''), b 0x10 (CHR ''w''), exec_char (has_bit m 0x8) (has_bit m 0x400) (CHR ''s'') (CHR ''S''),
       b 0x4 (CHR ''r''), b 0x2 (CHR ''w''), exec_char (has_bit m 0x1) (has_bit m 0x200) (CHR ''t'') (CHR ''T'')])"

lemma set_if_Cons [simp]:
  "set_if b 0 c (x # p) = (if b then c else x) # p"
  "set_if b (Suc i) c (x # p) = x # set_if b i c p"
  "set_if b (numeral n) c (x # p) = x # set_if b (pred_numeral n) c p"
  "set_if b 1 c (x # p) = x # set_if b 0 c p"
  by (simp_all add: set_if_def numeral_eq_Suc)

lemma exec_char_if:
  "(if b then (if (if x then CHR ''x'' else CHR ''-'') = CHR ''x'' then lo else up)
     else if x then CHR ''x'' else CHR ''-'') = exec_char x b lo up"
  by (simp add: exec_char_def)

text \<open>The places of the read and write bits, with their masks and letters.\<close>

definition rw_places :: "(nat \<times> u32 \<times> char) list" where
  "rw_places = [(1, 0x100, CHR ''r''), (2, 0x80, CHR ''w''), (4, 0x20, CHR ''r''), (5, 0x10, CHR ''w''),
     (7, 0x4, CHR ''r''), (8, 0x2, CHR ''w'')]"

lemma perms_explicit:
  "\<exists>x3 x6 x9. statbuf_get_perms m [a0, a1, a2, a3, a4, a5, a6, a7, a8, a9] =
     [type_char m, if has_bit m 0x100 then CHR ''r'' else a1, if has_bit m 0x80 then CHR ''w'' else a2, x3,
      if has_bit m 0x20 then CHR ''r'' else a4, if has_bit m 0x10 then CHR ''w'' else a5, x6,
      if has_bit m 0x4 then CHR ''r'' else a7, if has_bit m 0x2 then CHR ''w'' else a8, x9]"
  by (simp add: statbuf_get_perms_def Let_def split del: if_split)

lemma perms_rw_place:
  assumes "length p = 10" "(i, bt, c) \<in> set rw_places"
  shows "statbuf_get_perms m p ! i = (if has_bit m bt then c else p ! i)"
proof -
  obtain a0 a1 a2 a3 a4 a5 a6 a7 a8 a9 where p: "p = [a0, a1, a2, a3, a4, a5, a6, a7, a8, a9]"
    using assms(1) by (auto simp: length_Suc_conv eval_nat_numeral)
  obtain x3 x6 x9 where "statbuf_get_perms m p =
     [type_char m, if has_bit m 0x100 then CHR ''r'' else a1, if has_bit m 0x80 then CHR ''w'' else a2, x3,
      if has_bit m 0x20 then CHR ''r'' else a4, if has_bit m 0x10 then CHR ''w'' else a5, x6,
      if has_bit m 0x4 then CHR ''r'' else a7, if has_bit m 0x2 then CHR ''w'' else a8, x9]"
    using perms_explicit unfolding p by blast
  with assms(2) p show ?thesis by (auto simp: rw_places_def)
qed

lemma perms_rw_places:
  assumes "length p = 10" "(i, bt, c) \<in> set rw_places"
  shows "fold statbuf_get_perms ms p ! i = (if \<exists>m \<in> set ms. has_bit m bt then c else p ! i)"
  using assms(1)
proof (induction ms arbitrary: p)
  case (Cons m ms)
  then show ?case using perms_rw_place [OF Cons.prems assms(2), of m] by (auto simp: length_perms)
qed simp

section \<open>Properties\<close>

text \<open>C22: under any kernel, short writes and interruptions included, when \<open>writen\<close> returns it
  has put exactly the whole buffer on the descriptor, in order, and says so; or it says \<open>-1\<close>, has put
  a prefix of it, and its last call failed for another reason than an interruption. So it never gives
  up for a short write or an interruption; every call offers exactly the bytes that are left, and there
  are no other calls.\<close>

theorem writen_all_or_prefix:
  assumes "writen K fd buf s = Some (Go n s')"
  shows "\<exists>h. trace s' = trace s @ h \<and> writes_only fd h
     \<and> (\<forall>g w a h'. h = g @ (SysWrite fd w, a) # h' \<longrightarrow> w \<noteq> [] \<and> buf = sent fd g @ w)
     \<and> (n = int (length buf) \<and> sent fd h = buf
        \<or> n = - 1 \<and> (\<exists>t. buf = sent fd h @ t)
          \<and> (\<exists>g w a. h = g @ [(SysWrite fd w, a)] \<and> rv a < 0 \<and> eno a \<noteq> EINTR))"
proof -
  have "writen_loop K fd (length buf) buf s = Some (Go n s')" using assms by (simp add: writen_def)
  from writen_loop_any [OF this] obtain h where "moved s h s'" "wrote fd (length buf) buf n h" by blast
  then show ?thesis unfolding wrote_def offers_def gave_up_def
    by (intro exI [of _ h]) (auto simp: moved_trace)
qed

text \<open>A kernel that is interrupted on the first call and then takes two bytes at a time.\<close>

definition slow_kernel :: kernel where
  "slow_kernel h c = (if h = [] then (answer (- 1))\<lparr>eno := EINTR\<rparr> else answer 2)"

definition start :: kstate where
  "start = \<lparr>trace = [], errno = EOTHER 0, curr_time = (0, 0)\<rparr>"

theorem writen_all_or_prefix_witness:
  "\<exists>n s' h. writen slow_kernel 5 ''abc'' start = Some (Go n s') \<and> trace s' = trace start @ h
     \<and> (n = 3 \<and> sent 5 h = ''abc''
       \<or> n = - 1 \<and> (\<exists>g w a. h = g @ [(SysWrite 5 w, a)] \<and> rv a < 0 \<and> eno a \<noteq> EINTR))"
proof -
  have "\<exists>n s'. writen slow_kernel 5 ''abc'' start = Some (Go n s')"
    by (simp add: writen_def writen_loop.simps write_fd_run Let_def slow_kernel_def start_def
        bind_def gets_def ret_def after_def answer_def)
  then obtain n s' where "writen slow_kernel 5 ''abc'' start = Some (Go n s')" by blast
  moreover from writen_all_or_prefix [OF this] obtain h where "trace s' = trace start @ h"
    "n = 3 \<and> sent 5 h = ''abc'' \<or> n = - 1 \<and> (\<exists>g w a. h = g @ [(SysWrite 5 w, a)] \<and> rv a < 0 \<and> eno a \<noteq> EINTR)"
    by auto
  ultimately show ?thesis by blast
qed

text \<open>C23: when every write takes at least one byte, \<open>writen\<close> returns, has written the whole
  buffer, and has changed nothing but the history and \<open>errno\<close>.\<close>

theorem writen_returns:
  assumes "writes_progress K"
  shows "\<exists>s' h. writen K fd buf s = Some (Go (int (length buf)) s') \<and> moved s h s' \<and> sent fd h = buf"
  using writen_loop_progress [OF assms, of fd "length buf" buf s] by (auto simp: writen_def)

theorem writen_returns_witness:
  "\<exists>s' h. writen (\<lambda>_ _. answer 1) 5 ''abc'' start = Some (Go 3 s') \<and> moved start h s' \<and> sent 5 h = ''abc''"
  using writen_returns [of "\<lambda>_ _. answer 1" 5 "''abc''" start] by (simp add: writes_progress_def)

text \<open>The first call of \<open>statbuf_get_perms\<close> gives the type and the permissions of the mode,
  set-user, set-group and sticky bits included.\<close>

theorem perms_first_call: "statbuf_get_perms mode init_perms = perms_spec mode"
  by (simp add: statbuf_get_perms_def Let_def init_perms_def perms_spec_def exec_char_if
      split del: if_split)

text \<open>C40: the static array is never cleared, so later calls accumulate at the six places of the read
  and write permissions: after any listing, such a letter is shown exactly when one of the files so far
  has the permission. (The type is set anew by every call, and a letter for execution stays until a
  later file with an execute or special bit overwrites it.)\<close>

theorem perms_accumulate:
  assumes "(i, bt, c) \<in> set rw_places"
  shows "fold statbuf_get_perms modes init_perms ! i = (if \<exists>m \<in> set modes. has_bit m bt then c else CHR ''-'')"
proof -
  have "init_perms ! i = CHR ''-''" using assms by (auto simp: rw_places_def init_perms_def)
  with perms_rw_places [of init_perms, OF _ assms] show ?thesis by (simp add: init_perms_def)
qed

theorem perms_accumulate_witness:
  "fold statbuf_get_perms [0x8000 OR 0x1B6, 0x8000] init_perms ! 7 = CHR ''r''
   \<and> perms_spec 0x8000 ! 7 = CHR ''-''"
  using perms_accumulate [of 7 4 "CHR ''r''" "[0x8000 OR 0x1B6, 0x8000]"]
  by (simp add: rw_places_def has_bit_def perms_spec_def Let_def)

end
