(* ===== verification/DList.thy ===== *)
theory DList
  imports Prelude
begin

text \<open>
  Doubly linked lists on a pointer heap, as both \<^verbatim>\<open>hash.cpp\<close> (the chain of a bucket) and
  \<^verbatim>\<open>ftpepoll.cpp\<close> (the list of connections) keep them. \<open>P\<close> and \<open>N\<close> give the backward and
  forward pointer of every allocated node. \<open>dseg P N q c ps e r\<close>: starting from pointer
  \<open>c\<close> the nodes \<open>ps\<close> are linked in both directions, \<open>q\<close> is the node before the first,
  \<open>e\<close> the last node (or \<open>q\<close>) and \<open>r\<close> the pointer after it.
\<close>

type_synonym ptr = "nat option"

fun dseg :: "(nat \<Rightarrow> ptr option) \<Rightarrow> (nat \<Rightarrow> ptr option) \<Rightarrow> ptr \<Rightarrow> ptr \<Rightarrow> nat list \<Rightarrow> ptr \<Rightarrow> ptr \<Rightarrow> bool" where
  "dseg P N q c [] e r \<longleftrightarrow> c = r \<and> e = q"
| "dseg P N q c (p # ps) e r \<longleftrightarrow>
     c = Some p \<and> P p = Some q \<and> (\<exists>n. N p = Some n \<and> dseg P N (Some p) n ps e r)"

lemma dseg_append:
  "dseg P N q c (xs @ ys) e r \<longleftrightarrow> (\<exists>m d. dseg P N q c xs m d \<and> dseg P N m d ys e r)"
  by (induction xs arbitrary: q c) auto

lemma dseg_cong:
  "(\<And>p. p \<in> set ps \<Longrightarrow> P p = P' p \<and> N p = N' p) \<Longrightarrow>
   dseg P N q c ps e r = dseg P' N' q c ps e r"
  by (induction ps arbitrary: q c) auto

lemma dseg_alloc: "dseg P N q c ps e r \<Longrightarrow> p \<in> set ps \<Longrightarrow> P p \<noteq> None \<and> N p \<noteq> None"
  by (induction ps arbitrary: q c) auto

lemma dseg_unique: "dseg P N q c ps e None \<Longrightarrow> dseg P N q' c qs e' None \<Longrightarrow> ps = qs"
proof (induction ps arbitrary: q q' c qs)
  case Nil
  then show ?case by (cases qs) auto
next
  case (Cons p ps)
  then show ?case by (cases qs) auto
qed

lemma dseg_not_in_tail:
  assumes "dseg P N q (Some p) (p # ps) e None"
  shows "p \<notin> set ps"
proof
  assume "p \<in> set ps"
  then obtain xs ys where ps: "ps = xs @ p # ys" by (meson split_list)
  from assms ps obtain m d where "dseg P N m d (p # ys) e None"
    by (auto simp: dseg_append)
  then have "dseg P N m (Some p) (p # ys) e None" by auto
  with assms have "p # ps = p # ys" by (rule dseg_unique)
  with ps show False by simp
qed

lemma dseg_distinct: "dseg P N q c ps e None \<Longrightarrow> distinct ps"
proof (induction ps arbitrary: q c)
  case (Cons p ps)
  from Cons.prems have "dseg P N q (Some p) (p # ps) e None" by auto
  then have "p \<notin> set ps" by (rule dseg_not_in_tail)
  with Cons show ?case by auto
qed simp

lemma dseg_head: "dseg P N q c ps e None \<Longrightarrow> c = (case ps of [] \<Rightarrow> None | p # _ \<Rightarrow> Some p)"
  by (cases ps) auto

lemma dseg_last: "dseg P N q c ps e r \<Longrightarrow> e = (if ps = [] then q else Some (last ps))"
  by (induction ps arbitrary: q c) auto

lemma dseg_snoc:
  "dseg P N q c (ps @ [p]) e r \<longleftrightarrow>
     e = Some p \<and> (\<exists>m. dseg P N q c ps m (Some p) \<and> P p = Some m \<and> N p = Some r)"
  by (auto simp: dseg_append)

section \<open>Changing the links at the ends of a segment\<close>

lemma dseg_set_prev:
  assumes "dseg P N q c (y # ys) e r" "y \<notin> set ys"
  shows "dseg (P(y := Some q')) N q' c (y # ys) e r"
proof -
  from assms(2) have "dseg (P(y := Some q')) N (Some y) n ys e r = dseg P N (Some y) n ys e r" for n
    by (intro dseg_cong) auto
  with assms show ?thesis by auto
qed

lemma dseg_set_next:
  assumes "dseg P N q c (xs @ [x]) e r" "x \<notin> set xs"
  shows "dseg P (N(x := Some r')) q c (xs @ [x]) e r'"
proof -
  from assms(2) have "dseg P (N(x := Some r')) q c xs m d = dseg P N q c xs m d" for m d
    by (intro dseg_cong) auto
  with assms show ?thesis by (auto simp: dseg_snoc)
qed

text \<open>
  The two list operations of the program, on the link functions: \<open>link_front\<close> puts a node
  at the head, \<open>unlink_prev\<close> and \<open>unlink_next\<close> take a node with neighbours \<open>a\<close> and \<open>b\<close> out.
\<close>

definition set_at :: "ptr \<Rightarrow> 'a \<Rightarrow> (nat \<Rightarrow> 'a option) \<Rightarrow> nat \<Rightarrow> 'a option" where
  "set_at q x f = (case q of None \<Rightarrow> f | Some y \<Rightarrow> f(y := Some x))"

lemma set_at_simps [simp]: "set_at None x f = f" "set_at (Some y) x f = f(y := Some x)"
  by (simp_all add: set_at_def)

lemma dseg_link_front:
  assumes l: "dseg P N None h ps l None" and p: "p \<notin> set ps"
    and P': "P' = (set_at h (Some p) P)(p := Some None)" and N': "N' = N(p := Some h)"
  shows "dseg P' N' None (Some p) (p # ps) (if h = None then Some p else l) None"
proof (cases ps)
  case Nil
  with l P' N' show ?thesis by auto
next
  case (Cons y ys)
  with l have h: "h = Some y" by auto
  from l have "distinct ps" by (rule dseg_distinct)
  with Cons have y: "y \<notin> set ys" by auto
  have "dseg (P(y := Some (Some p))) N (Some p) h ps l None"
    using l y unfolding Cons by (rule dseg_set_prev)
  moreover have "dseg P' N' (Some p) h ps l None = dseg (P(y := Some (Some p))) N (Some p) h ps l None"
    using p h unfolding P' N' by (intro dseg_cong) auto
  ultimately show ?thesis using h P' N' p Cons by auto
qed

lemma dseg_unlink:
  assumes l: "dseg P N None h (xs @ p # ys) l None"
    and a: "P p = Some a" and b: "N p = Some b"
  shows "dseg (set_at b a P) (set_at a b N) None (if a = None then b else h) (xs @ ys)
           (if b = None then a else l) None"
proof -
  have d: "distinct (xs @ p # ys)" using l by (rule dseg_distinct)
  from l a b have X: "dseg P N None h xs a (Some p)" and Y: "dseg P N (Some p) b ys l None"
    by (auto simp: dseg_append)
  have X': "dseg P (set_at a b N) None (if a = None then b else h) xs a b"
  proof (cases xs rule: rev_cases)
    case Nil
    with X show ?thesis by auto
  next
    case (snoc xs' x)
    with X have "a = Some x" by (simp add: dseg_snoc)
    moreover have "dseg P (N(x := Some b)) None h (xs' @ [x]) a b"
      using X d snoc by (intro dseg_set_next [where r = "Some p"]) auto
    ultimately show ?thesis using snoc by simp
  qed
  have Y': "dseg (set_at b a P) N a b ys (if b = None then a else l) None"
  proof (cases ys)
    case Nil
    with Y show ?thesis by auto
  next
    case (Cons y ys')
    with Y have "b = Some y" by auto
    moreover have "dseg (P(y := Some a)) N a b (y # ys') l None"
      using Y d Cons by (intro dseg_set_prev [where q = "Some p"]) auto
    ultimately show ?thesis using Cons by simp
  qed
  have A: "a = None \<or> (\<exists>x. a = Some x \<and> x \<in> set xs)"
    using dseg_last [OF X] by (auto split: if_splits)
  have B: "b = None \<or> (\<exists>y. b = Some y \<and> y \<in> set ys)"
    using dseg_head [OF Y] by (auto split: list.splits)
  have "dseg (set_at b a P) (set_at a b N) None (if a = None then b else h) xs a b
      = dseg P (set_at a b N) None (if a = None then b else h) xs a b"
    using B d by (intro dseg_cong) (auto simp: set_at_def split: option.splits)
  moreover have "dseg (set_at b a P) (set_at a b N) a b ys (if b = None then a else l) None
      = dseg (set_at b a P) N a b ys (if b = None then a else l) None"
    using A d by (intro dseg_cong) (auto simp: set_at_def split: option.splits)
  ultimately show ?thesis using X' Y' unfolding dseg_append by blast
qed

end
