(* ===== verification/LruList.thy ===== *)
theory LruList
  imports DList
begin

text \<open>
  The list of live connections ordered by their last request, from the most recently used
  end \<open>pMRU\<close> to the least recently used end \<open>pLRU\<close>: \<open>toNode\<close> and \<open>newToNode\<close>
  (\<^verbatim>\<open>session.h\<close>, \<^verbatim>\<open>session.cpp\<close>), \<open>linkMRU\<close>, \<open>unlinkNode\<close>, \<open>refreshTimeout\<close>, \<open>addtoNode\<close>,
  \<open>sessTime\<close> and \<open>isTimeout\<close> (\<^verbatim>\<open>ftpepoll.cpp\<close>). The nodes live on a heap of their own; the
  state also holds the table \<open>map_fd_toNode\<close>. The interface \<open>recency\<close> is what the event
  loop relies on; it is interpreted on the pointer operations of the program.
\<close>

section \<open>State\<close>

record toNode =
  nd_sess :: nat
  nd_lastTime :: int
  nd_left :: ptr
  nd_right :: ptr

record lru =
  lnodes :: "nat \<Rightarrow> toNode option"
  pMRU :: ptr
  pLRU :: ptr
  map_fd_toNode :: "ptr list"
  lbrk :: nat  \<comment> \<open>the next address \<open>malloc\<close> hands out\<close>

definition MAX_SESSIONS :: nat where "MAX_SESSIONS = 1200"
definition TIMEOUTSEG :: int where "TIMEOUTSEG = 2"

definition init_lru :: lru where
  "init_lru = \<lparr>lnodes = Map.empty, pMRU = None, pLRU = None,
     map_fd_toNode = replicate MAX_SESSIONS None, lbrk = 0\<rparr>"

text \<open>An \<open>int\<close> used as an array index.\<close>

definition fd_index :: "int \<Rightarrow> nat res" where
  "fd_index fd = (if 0 \<le> fd then Inr (nat fd) else Inl OutOfBounds)"

lemma fd_index_simps [simp]:
  "0 \<le> fd \<Longrightarrow> fd_index fd = Inr (nat fd)"
  "fd < 0 \<Longrightarrow> fd_index fd = Inl OutOfBounds"
  by (simp_all add: fd_index_def)

definition upd_node :: "nat \<Rightarrow> (toNode \<Rightarrow> toNode) \<Rightarrow> lru \<Rightarrow> lru res" where
  "upd_node p f s =
     bnd (deref (lnodes s) p) (\<lambda>n. Inr (s\<lparr>lnodes := (lnodes s)(p \<mapsto> f n)\<rparr>))"

section \<open>Operations\<close>

definition newToNode :: "nat \<Rightarrow> int \<Rightarrow> ptr \<Rightarrow> ptr \<Rightarrow> lru \<Rightarrow> nat \<times> lru" where
  "newToNode sess t l r s =
     (lbrk s, s\<lparr>lnodes := (lnodes s)(lbrk s \<mapsto>
        \<lparr>nd_sess = sess, nd_lastTime = t, nd_left = l, nd_right = r\<rparr>), lbrk := Suc (lbrk s)\<rparr>)"

definition linkMRU :: "nat \<Rightarrow> lru \<Rightarrow> lru res" where
  "linkMRU node s =
     bnd (upd_node node (\<lambda>n. n\<lparr>nd_right := pMRU s\<rparr>) s) (\<lambda>s.
     bnd (upd_node node (\<lambda>n. n\<lparr>nd_left := None\<rparr>) s) (\<lambda>s.
     bnd (case pMRU s of
            None \<Rightarrow> Inr s
          | Some m \<Rightarrow> upd_node m (\<lambda>n. n\<lparr>nd_left := Some node\<rparr>) s) (\<lambda>s.
     let s = s\<lparr>pMRU := Some node\<rparr> in
     Inr (if pLRU s = None then s\<lparr>pLRU := Some node\<rparr> else s))))"

definition unlinkNode :: "nat \<Rightarrow> lru \<Rightarrow> lru res" where
  "unlinkNode node s =
     bnd (deref (lnodes s) node) (\<lambda>n.
     bnd (case nd_left n of
            Some l \<Rightarrow> upd_node l (\<lambda>m. m\<lparr>nd_right := nd_right n\<rparr>) s
          | None \<Rightarrow> Inr (s\<lparr>pMRU := nd_right n\<rparr>)) (\<lambda>s.
     bnd (deref (lnodes s) node) (\<lambda>n.
     bnd (case nd_right n of
            Some r \<Rightarrow> upd_node r (\<lambda>m. m\<lparr>nd_left := nd_left n\<rparr>) s
          | None \<Rightarrow> Inr (s\<lparr>pLRU := nd_left n\<rparr>)) (\<lambda>s.
     upd_node node (\<lambda>n. n\<lparr>nd_left := None, nd_right := None\<rparr>) s))))"

text \<open>The assignment \<open>node->lastTime = t\<close>, a \<open>long\<close> stored into an \<open>int\<close>.\<close>

definition stamp :: "nat \<Rightarrow> int \<Rightarrow> lru \<Rightarrow> lru res" where
  "stamp node t s = upd_node node (\<lambda>n. n\<lparr>nd_lastTime := to_int32 t\<rparr>) s"

text \<open>\<open>refreshTimeout\<close> and \<open>addtoNode\<close> take the second that \<open>get_time_sec()\<close> returned.\<close>

definition refreshTimeout :: "int \<Rightarrow> int \<Rightarrow> lru \<Rightarrow> (int \<times> lru) res" where
  "refreshTimeout fd now s =
     bnd (fd_index fd) (\<lambda>i.
     bnd (peek_at (map_fd_toNode s) i) (\<lambda>np.
     case np of
       None \<Rightarrow> Inr (-1, s)
     | Some node \<Rightarrow>
         bnd (stamp node now s) (\<lambda>s.
         bnd (unlinkNode node s) (\<lambda>s.
         bnd (linkMRU node s) (\<lambda>s.
         Inr (0, s))))))"

definition set_map_fd :: "int \<Rightarrow> ptr \<Rightarrow> lru \<Rightarrow> lru res" where
  "set_map_fd fd np s =
     bnd (fd_index fd) (\<lambda>i.
     bnd (poke_at (map_fd_toNode s) i np) (\<lambda>m. Inr (s\<lparr>map_fd_toNode := m\<rparr>)))"

definition addtoNode :: "nat \<Rightarrow> int \<Rightarrow> int \<Rightarrow> lru \<Rightarrow> lru res" where
  "addtoNode sess ctrl_fd sec s =
     (let (node, s) = newToNode sess (to_int32 sec) None None s in
      bnd (linkMRU node s) (\<lambda>s. set_map_fd ctrl_fd (Some node) s))"

definition free_node :: "nat \<Rightarrow> lru \<Rightarrow> lru res" where
  "free_node p s = (if lnodes s p = None then Inl InvalidFree
     else Inr (s\<lparr>lnodes := (lnodes s)(p := None)\<rparr>))"

text \<open>
  \<open>sessTime\<close> returns an \<open>int\<close>; \<open>isTimeout\<close> ignores its argument, looks at \<open>pLRU\<close>, and
  compares as \<open>unsigned\<close>, because \<open>tunable_idle_session_timeout\<close> is.
\<close>

definition sessTime :: "int \<Rightarrow> toNode \<Rightarrow> int" where
  "sessTime now n = to_int32 (now - nd_lastTime n)"

definition isTimeout :: "u32 \<Rightarrow> int \<Rightarrow> nat \<Rightarrow> lru \<Rightarrow> bool res" where
  "isTimeout idle now node s =
     (case pLRU s of
        None \<Rightarrow> Inl NullDeref
      | Some p \<Rightarrow> bnd (deref (lnodes s) p) (\<lambda>n.
          Inr (idle < (word_of_int (sessTime now n + TIMEOUTSEG) :: u32))))"

section \<open>The list a heap of nodes holds\<close>

definition lprev :: "lru \<Rightarrow> nat \<Rightarrow> ptr option" where
  "lprev s p = map_option nd_left (lnodes s p)"

definition lnext :: "lru \<Rightarrow> nat \<Rightarrow> ptr option" where
  "lnext s p = map_option nd_right (lnodes s p)"

text \<open>\<open>lru_rep s ps\<close>: the nodes \<open>ps\<close>, most recent first, are linked from \<open>pMRU\<close> to \<open>pLRU\<close>.\<close>

definition lru_rep :: "lru \<Rightarrow> nat list \<Rightarrow> bool" where
  "lru_rep s ps \<longleftrightarrow> dseg (lprev s) (lnext s) None (pMRU s) ps (pLRU s) None"

text \<open>What a node says besides its links: its session and its time stamp.\<close>

definition payload :: "lru \<Rightarrow> nat \<Rightarrow> (nat \<times> int) option" where
  "payload s p = map_option (\<lambda>n. (nd_sess n, nd_lastTime n)) (lnodes s p)"

lemma lru_rep_distinct: "lru_rep s ps \<Longrightarrow> distinct ps"
  by (auto simp: lru_rep_def dest: dseg_distinct)

lemma lru_rep_unique: "lru_rep s ps \<Longrightarrow> lru_rep s qs \<Longrightarrow> ps = qs"
  by (auto simp: lru_rep_def dest: dseg_unique)

lemma lru_rep_payload: "lru_rep s ps \<Longrightarrow> p \<in> set ps \<Longrightarrow> payload s p \<noteq> None"
  unfolding lru_rep_def by (drule (1) dseg_alloc) (auto simp: payload_def lprev_def)

lemma lru_rep_ends:
  "lru_rep s ps \<Longrightarrow> pMRU s = (case ps of [] \<Rightarrow> None | p # _ \<Rightarrow> Some p)"
  "lru_rep s ps \<Longrightarrow> pLRU s = (if ps = [] then None else Some (last ps))"
  by (auto simp: lru_rep_def dest: dseg_head dseg_last)

lemma upd_node_Some:
  "lnodes s p = Some n \<Longrightarrow> upd_node p f s = Inr (s\<lparr>lnodes := (lnodes s)(p \<mapsto> f n)\<rparr>)"
  by (simp add: upd_node_def)

lemma lru_link:
  assumes rep: "lru_rep s ps" and new: "p \<notin> set ps" and al: "payload s p \<noteq> None"
  shows "\<exists>s'. linkMRU p s = Inr s' \<and> lru_rep s' (p # ps) \<and> payload s' = payload s
    \<and> map_fd_toNode s' = map_fd_toNode s \<and> lbrk s' = lbrk s"
proof -
  from al obtain n where n: "lnodes s p = Some n" by (auto simp: payload_def)
  let ?n = "n\<lparr>nd_right := pMRU s, nd_left := None\<rparr>"
  show ?thesis
  proof (cases "pMRU s")
    case None
    have "ps = []" using lru_rep_ends(1) [OF rep] None by (auto split: list.splits)
    moreover have "pLRU s = None" using lru_rep_ends(2) [OF rep] calculation by simp
    ultimately show ?thesis using n None
      by (auto simp: linkMRU_def upd_node_Some lru_rep_def lprev_def lnext_def payload_def Let_def)
  next
    case (Some m)
    have m: "m \<in> set ps" using lru_rep_ends(1) [OF rep] Some by (auto split: list.splits)
    with new have mp: "m \<noteq> p" by auto
    obtain k where k: "lnodes s m = Some k"
      using lru_rep_payload [OF rep m] by (auto simp: payload_def)
    have l: "pLRU s \<noteq> None" using lru_rep_ends(2) [OF rep] m by auto
    let ?s = "s\<lparr>lnodes := (lnodes s)(p \<mapsto> ?n, m \<mapsto> k\<lparr>nd_left := Some p\<rparr>), pMRU := Some p\<rparr>"
    have link: "linkMRU p s = Inr ?s"
      using n k mp l Some by (simp add: linkMRU_def upd_node_Some Let_def)
    have P: "lprev ?s = (set_at (pMRU s) (Some p) (lprev s))(p := Some None)"
      and N: "lnext ?s = (lnext s)(p := Some (pMRU s))"
      using Some mp k by (auto simp: lprev_def lnext_def fun_eq_iff)
    have "lru_rep ?s (p # ps)"
      using dseg_link_front [OF rep [unfolded lru_rep_def] new P N] Some l
      by (simp add: lru_rep_def)
    moreover have "payload ?s = payload s"
      using n k mp by (auto simp: payload_def fun_eq_iff)
    ultimately show ?thesis using link by auto
  qed
qed

text \<open>What \<open>unlinkNode\<close> stores, whether or not the node has neighbours.\<close>

lemma unlink_links:
  assumes n: "lnodes s p = Some n"
    and a: "\<And>q. nd_left n = Some q \<Longrightarrow> q \<noteq> p \<and> lnodes s q \<noteq> None"
    and b: "\<And>q. nd_right n = Some q \<Longrightarrow> q \<noteq> p \<and> lnodes s q \<noteq> None \<and> nd_left n \<noteq> Some q"
  shows "\<exists>s'. unlinkNode p s = Inr s'
    \<and> (\<forall>q. q \<noteq> p \<longrightarrow> lprev s' q = set_at (nd_right n) (nd_left n) (lprev s) q
                   \<and> lnext s' q = set_at (nd_left n) (nd_right n) (lnext s) q)
    \<and> pMRU s' = (if nd_left n = None then nd_right n else pMRU s)
    \<and> pLRU s' = (if nd_right n = None then nd_left n else pLRU s)
    \<and> payload s' = payload s \<and> map_fd_toNode s' = map_fd_toNode s \<and> lbrk s' = lbrk s"
proof (cases "nd_left n"; cases "nd_right n")
  assume "nd_left n = None" "nd_right n = None"
  then show ?thesis using n
    by (auto simp: unlinkNode_def upd_node_Some lprev_def lnext_def payload_def fun_eq_iff)
next
  fix q assume q: "nd_left n = None" "nd_right n = Some q"
  with b obtain k where "lnodes s q = Some k" "q \<noteq> p" by blast
  then show ?thesis using n q
    by (auto simp: unlinkNode_def upd_node_Some lprev_def lnext_def payload_def fun_eq_iff)
next
  fix q assume q: "nd_left n = Some q" "nd_right n = None"
  with a obtain k where "lnodes s q = Some k" "q \<noteq> p" by blast
  then show ?thesis using n q
    by (auto simp: unlinkNode_def upd_node_Some lprev_def lnext_def payload_def fun_eq_iff)
next
  fix q r assume q: "nd_left n = Some q" "nd_right n = Some r"
  with a b obtain k m where "lnodes s q = Some k" "q \<noteq> p" "lnodes s r = Some m" "r \<noteq> p" "q \<noteq> r"
    by blast
  then show ?thesis using n q
    by (auto simp: unlinkNode_def upd_node_Some lprev_def lnext_def payload_def fun_eq_iff)
qed

lemma lru_unlink:
  assumes rep: "lru_rep s ps" and p: "p \<in> set ps"
  shows "\<exists>s'. unlinkNode p s = Inr s' \<and> lru_rep s' (remove1 p ps) \<and> payload s' = payload s
    \<and> map_fd_toNode s' = map_fd_toNode s \<and> lbrk s' = lbrk s"
proof -
  have d: "distinct ps" using rep by (rule lru_rep_distinct)
  from p obtain xs ys where ps: "ps = xs @ p # ys" by (meson split_list)
  with d have rm: "remove1 p ps = xs @ ys" by (simp add: remove1_append)
  have al: "q \<in> set ps \<Longrightarrow> lnodes s q \<noteq> None" for q
    using lru_rep_payload [OF rep] by (auto simp: payload_def)
  with p obtain n where n: "lnodes s p = Some n" by blast
  have seg: "dseg (lprev s) (lnext s) None (pMRU s) (xs @ p # ys) (pLRU s) None"
    using rep ps by (simp add: lru_rep_def)
  have X: "dseg (lprev s) (lnext s) None (pMRU s) xs (nd_left n) (Some p)"
    and Y: "dseg (lprev s) (lnext s) (Some p) (nd_right n) ys (pLRU s) None"
    using seg n by (auto simp: dseg_append lprev_def lnext_def)
  have a: "q \<in> set xs" if "nd_left n = Some q" for q
    using dseg_last [OF X] that by (auto split: if_splits)
  have b: "q \<in> set ys" if "nd_right n = Some q" for q
    using dseg_head [OF Y] that by (auto split: list.splits)
  have A: "q \<noteq> p \<and> lnodes s q \<noteq> None" if "nd_left n = Some q" for q
    using a [OF that] al [of q] d ps by auto
  have B: "q \<noteq> p \<and> lnodes s q \<noteq> None \<and> nd_left n \<noteq> Some q" if "nd_right n = Some q" for q
    using b [OF that] a [of q] al [of q] d ps by auto
  obtain s' where s': "unlinkNode p s = Inr s'"
    and L: "\<And>q. q \<noteq> p \<Longrightarrow> lprev s' q = set_at (nd_right n) (nd_left n) (lprev s) q"
      "\<And>q. q \<noteq> p \<Longrightarrow> lnext s' q = set_at (nd_left n) (nd_right n) (lnext s) q"
    and E: "pMRU s' = (if nd_left n = None then nd_right n else pMRU s)"
      "pLRU s' = (if nd_right n = None then nd_left n else pLRU s)"
    and O: "payload s' = payload s" "map_fd_toNode s' = map_fd_toNode s" "lbrk s' = lbrk s"
    using unlink_links [OF n A B] by blast
  have ne: "q \<noteq> p" if "q \<in> set (xs @ ys)" for q using that d ps by auto
  have "dseg (lprev s') (lnext s') None (pMRU s') (xs @ ys) (pLRU s') None
      = dseg (set_at (nd_right n) (nd_left n) (lprev s)) (set_at (nd_left n) (nd_right n) (lnext s))
          None (pMRU s') (xs @ ys) (pLRU s') None"
    using L ne by (intro dseg_cong) simp
  also have "\<dots>" unfolding E using seg n by (intro dseg_unlink) (auto simp: lprev_def lnext_def)
  finally have "lru_rep s' (remove1 p ps)" by (simp add: lru_rep_def rm)
  with s' O show ?thesis by blast
qed

lemma lru_stamp:
  assumes rep: "lru_rep s ps" and p: "p \<in> set ps"
  shows "\<exists>s' v. stamp p t s = Inr s' \<and> lru_rep s' ps \<and> payload s p = Some v
    \<and> payload s' = (payload s)(p \<mapsto> (fst v, to_int32 t))
    \<and> map_fd_toNode s' = map_fd_toNode s \<and> lbrk s' = lbrk s"
proof -
  from lru_rep_payload [OF rep p] obtain n where n: "lnodes s p = Some n"
    by (auto simp: payload_def)
  let ?s = "s\<lparr>lnodes := (lnodes s)(p \<mapsto> n\<lparr>nd_lastTime := to_int32 t\<rparr>)\<rparr>"
  have "lprev ?s = lprev s" "lnext ?s = lnext s"
    using n by (auto simp: lprev_def lnext_def fun_eq_iff)
  then have "lru_rep ?s ps" using rep by (simp add: lru_rep_def)
  then show ?thesis using n by (auto simp: stamp_def upd_node_Some payload_def fun_eq_iff)
qed

section \<open>The interface the event loop relies on\<close>

text \<open>Most recent first: no node is younger than one before it.\<close>

definition by_recency :: "(nat \<Rightarrow> int) \<Rightarrow> nat list \<Rightarrow> bool" where
  "by_recency time ps \<longleftrightarrow> sorted_wrt (\<lambda>p q. time q \<le> time p) ps"

lemma by_recency_touch:
  assumes "by_recency time ps" and "\<forall>q \<in> set ps. time q \<le> t"
  shows "by_recency (time(p := t)) (p # removeAll p ps)"
proof -
  have "sorted_wrt (\<lambda>a b. time b \<le> time a) (removeAll p ps)"
    using assms(1) by (auto simp: by_recency_def removeAll_filter_not_eq intro: sorted_wrt_filter)
  then have "sorted_wrt (\<lambda>a b. (time(p := t)) b \<le> (time(p := t)) a) (removeAll p ps)"
    by (rule sorted_wrt_mono_rel [rotated]) auto
  with assms(2) show ?thesis by (auto simp: by_recency_def)
qed

text \<open>
  In a list ordered by recency the nodes older than a bound are the ones at the end: taking
  nodes off the end while they are too old removes all of them and nothing else.
\<close>

lemma by_recency_expired:
  assumes "by_recency time ps"
  shows "rev (dropWhile (\<lambda>p. time p < c) (rev ps)) = filter (\<lambda>p. c \<le> time p) ps"
  using assms
proof (induction ps rule: rev_induct)
  case (snoc p ps)
  show ?case
  proof (cases "time p < c")
    case True
    with snoc show ?thesis by (auto simp: by_recency_def sorted_wrt_append)
  next
    case False
    with snoc.prems have "\<forall>q \<in> set ps. c \<le> time q"
      by (auto simp: by_recency_def sorted_wrt_append)
    with False show ?thesis by (simp add: filter_id_conv)
  qed
qed simp

locale recency =
  fixes rep :: "'s \<Rightarrow> nat list \<Rightarrow> bool"
    and time :: "'s \<Rightarrow> nat \<Rightarrow> int"
    and alive :: "'s \<Rightarrow> nat \<Rightarrow> bool"
    and view :: "'s \<Rightarrow> 'v"
    and ok_time :: "int \<Rightarrow> bool"
    and stamp :: "nat \<Rightarrow> int \<Rightarrow> 's \<Rightarrow> 's res"
    and link :: "nat \<Rightarrow> 's \<Rightarrow> 's res"
    and unlink :: "nat \<Rightarrow> 's \<Rightarrow> 's res"
  assumes rep_distinct: "rep s ps \<Longrightarrow> distinct ps"
    and stamp_rep: "rep s ps \<Longrightarrow> p \<in> set ps \<Longrightarrow> ok_time t \<Longrightarrow> \<exists>s'. stamp p t s = Inr s'
      \<and> rep s' ps \<and> time s' = (time s)(p := t) \<and> alive s' = alive s \<and> view s' = view s"
    and link_rep: "rep s ps \<Longrightarrow> p \<notin> set ps \<Longrightarrow> alive s p \<Longrightarrow> \<exists>s'. link p s = Inr s'
      \<and> rep s' (p # ps) \<and> time s' = time s \<and> alive s' = alive s \<and> view s' = view s"
    and unlink_rep: "rep s ps \<Longrightarrow> p \<in> set ps \<Longrightarrow> \<exists>s'. unlink p s = Inr s'
      \<and> rep s' (remove1 p ps) \<and> time s' = time s \<and> alive s' = alive s \<and> view s' = view s"
    and rep_alive: "rep s ps \<Longrightarrow> p \<in> set ps \<Longrightarrow> alive s p"
begin

text \<open>A request: the node moves to the front and the order by recency is kept.\<close>

lemma touch:
  assumes rep: "rep s ps" and p: "p \<in> set ps" and t: "ok_time t"
  shows "\<exists>s'. bnd (stamp p t s) (\<lambda>s. bnd (unlink p s) (link p)) = Inr s'
    \<and> rep s' (p # remove1 p ps) \<and> time s' = (time s)(p := t) \<and> alive s' = alive s \<and> view s' = view s"
proof -
  obtain s1 where s1: "stamp p t s = Inr s1" "rep s1 ps" "time s1 = (time s)(p := t)"
    "alive s1 = alive s" "view s1 = view s"
    using stamp_rep [OF rep p t] by blast
  obtain s2 where s2: "unlink p s1 = Inr s2" "rep s2 (remove1 p ps)" "time s2 = time s1"
    "alive s2 = alive s1" "view s2 = view s1"
    using unlink_rep [OF s1(2) p] by blast
  have "p \<notin> set (remove1 p ps)" using rep_distinct [OF rep] by simp
  moreover have "alive s2 p" using rep_alive [OF rep p] s1 s2 by simp
  ultimately obtain s3 where "link p s2 = Inr s3" "rep s3 (p # remove1 p ps)" "time s3 = time s2"
    "alive s3 = alive s2" "view s3 = view s2"
    using link_rep [OF s2(2)] by blast
  with s1 s2 show ?thesis by simp
qed

lemma touch_order:
  assumes "rep s ps" and "by_recency (time s) ps" and "\<forall>q \<in> set ps. time s q \<le> t"
  shows "by_recency ((time s)(p := t)) (p # remove1 p ps)"
  using by_recency_touch [OF assms(2,3)] rep_distinct [OF assms(1)]
  by (simp add: distinct_remove1_removeAll)

text \<open>A new connection: its node goes to the front.\<close>

lemma enter:
  assumes "rep s ps" "p \<notin> set ps" "alive s p" "by_recency (time s) ps" "\<forall>q \<in> set ps. time s q \<le> time s p"
  shows "\<exists>s'. link p s = Inr s' \<and> rep s' (p # ps) \<and> by_recency (time s') (p # ps)
    \<and> time s' = time s \<and> alive s' = alive s \<and> view s' = view s"
  using link_rep [OF assms(1-3)] assms(4,5) by (auto simp: by_recency_def)

text \<open>An expired connection is the one at the other end.\<close>

lemma leave_last:
  assumes "rep s (ps @ [p])" "by_recency (time s) (ps @ [p])"
  shows "\<exists>s'. unlink p s = Inr s' \<and> rep s' ps \<and> by_recency (time s') ps
    \<and> time s' = time s \<and> alive s' = alive s \<and> view s' = view s"
proof -
  have "p \<notin> set ps" using rep_distinct [OF assms(1)] by simp
  then have "remove1 p (ps @ [p]) = ps" by (simp add: remove1_append)
  then show ?thesis
    using unlink_rep [OF assms(1), of p] assms(2) by (auto simp: by_recency_def sorted_wrt_append)
qed

end

text \<open>The time stamp of a node and what the list operations leave alone.\<close>

definition node_time :: "lru \<Rightarrow> nat \<Rightarrow> int" where
  "node_time s p = (case payload s p of Some (_, t) \<Rightarrow> t | None \<Rightarrow> 0)"

definition int_time :: "int \<Rightarrow> bool" where
  "int_time t \<longleftrightarrow> - (2 ^ 31) \<le> t \<and> t < 2 ^ 31"

definition lru_view :: "lru \<Rightarrow> ptr list \<times> nat \<times> (nat \<Rightarrow> nat option)" where
  "lru_view s = (map_fd_toNode s, lbrk s, \<lambda>p. map_option fst (payload s p))"

interpretation lr: recency lru_rep node_time "\<lambda>s p. payload s p \<noteq> None" lru_view int_time
  stamp linkMRU unlinkNode
proof unfold_locales
  fix s ps p t
  assume rep: "lru_rep s ps"
  show "distinct ps" using rep by (rule lru_rep_distinct)
  show "payload s p \<noteq> None" if "p \<in> set ps" using rep that by (rule lru_rep_payload)
  show "\<exists>s'. linkMRU p s = Inr s' \<and> lru_rep s' (p # ps) \<and> node_time s' = node_time s
      \<and> (\<lambda>p. payload s' p \<noteq> None) = (\<lambda>p. payload s p \<noteq> None) \<and> lru_view s' = lru_view s"
    if "p \<notin> set ps" "payload s p \<noteq> None"
    using lru_link [OF rep that] by (auto simp: node_time_def lru_view_def fun_eq_iff)
  show "\<exists>s'. unlinkNode p s = Inr s' \<and> lru_rep s' (remove1 p ps) \<and> node_time s' = node_time s
      \<and> (\<lambda>p. payload s' p \<noteq> None) = (\<lambda>p. payload s p \<noteq> None) \<and> lru_view s' = lru_view s"
    if "p \<in> set ps"
    using lru_unlink [OF rep that] by (auto simp: node_time_def lru_view_def fun_eq_iff)
  show "\<exists>s'. stamp p t s = Inr s' \<and> lru_rep s' ps \<and> node_time s' = (node_time s)(p := t)
      \<and> (\<lambda>p. payload s' p \<noteq> None) = (\<lambda>p. payload s p \<noteq> None) \<and> lru_view s' = lru_view s"
    if "p \<in> set ps" "int_time t"
    using lru_stamp [OF rep that(1), of t] that(2)
    by (auto simp: node_time_def lru_view_def int_time_def to_int32_id fun_eq_iff)
qed

section \<open>The invariant of the connection list\<close>

text \<open>
  The nodes are linked in both directions in order of recency, the table has its full
  length and only points to nodes of the list, and the addresses handed out are fresh.
\<close>

definition lru_inv :: "lru \<Rightarrow> nat list \<Rightarrow> bool" where
  "lru_inv s ps \<longleftrightarrow> lru_rep s ps \<and> by_recency (node_time s) ps
     \<and> length (map_fd_toNode s) = MAX_SESSIONS
     \<and> (\<forall>p. payload s p \<noteq> None \<longrightarrow> p < lbrk s)
     \<and> (\<forall>p. Some p \<in> set (map_fd_toNode s) \<longrightarrow> p \<in> set ps)"

lemma lru_inv_init: "lru_inv init_lru []"
  by (simp add: lru_inv_def init_lru_def lru_rep_def by_recency_def payload_def)

lemma lru_viewD:
  assumes "lru_view s' = lru_view s"
  shows "map_fd_toNode s' = map_fd_toNode s" "lbrk s' = lbrk s"
    "payload s' p = None \<longleftrightarrow> payload s p = None"
    "map_option fst (payload s' p) = map_option fst (payload s p)"
  using assms by (auto simp: lru_view_def dest!: fun_cong [where x = p])

lemma lru_table_update [simp]:
  "lru_rep (s\<lparr>map_fd_toNode := m\<rparr>) ps = lru_rep s ps"
  "payload (s\<lparr>map_fd_toNode := m\<rparr>) = payload s"
  "node_time (s\<lparr>map_fd_toNode := m\<rparr>) = node_time s"
proof -
  have "lprev (s\<lparr>map_fd_toNode := m\<rparr>) = lprev s" "lnext (s\<lparr>map_fd_toNode := m\<rparr>) = lnext s"
    by (simp_all add: lprev_def lnext_def fun_eq_iff)
  then show "lru_rep (s\<lparr>map_fd_toNode := m\<rparr>) ps = lru_rep s ps" by (simp add: lru_rep_def)
  show "payload (s\<lparr>map_fd_toNode := m\<rparr>) = payload s" by (simp add: payload_def fun_eq_iff)
  then show "node_time (s\<lparr>map_fd_toNode := m\<rparr>) = node_time s" by (simp add: node_time_def fun_eq_iff)
qed

lemma refreshTimeout_inv:
  assumes inv: "lru_inv s ps" and fd: "0 \<le> fd" "nat fd < MAX_SESSIONS"
    and p: "map_fd_toNode s ! nat fd = Some p"
    and now: "int_time now" "\<forall>q \<in> set ps. node_time s q \<le> now"
  shows "\<exists>s'. refreshTimeout fd now s = Inr (0, s') \<and> lru_inv s' (p # remove1 p ps)
    \<and> node_time s' = (node_time s)(p := now) \<and> lru_view s' = lru_view s"
proof -
  have len: "length (map_fd_toNode s) = MAX_SESSIONS" and rep: "lru_rep s ps"
    and ord: "by_recency (node_time s) ps" using inv by (simp_all add: lru_inv_def)
  have "Some p \<in> set (map_fd_toNode s)" using p fd len by (metis nth_mem)
  with inv have pin: "p \<in> set ps" by (simp add: lru_inv_def)
  obtain s' where s': "bnd (stamp p now s) (\<lambda>s. bnd (unlinkNode p s) (linkMRU p)) = Inr s'"
    "lru_rep s' (p # remove1 p ps)" "node_time s' = (node_time s)(p := now)" "lru_view s' = lru_view s"
    using lr.touch [OF rep pin now(1)] by blast
  have "by_recency (node_time s') (p # remove1 p ps)"
    unfolding s'(3) using rep ord now(2) by (rule lr.touch_order)
  with s' inv pin have "lru_inv s' (p # remove1 p ps)"
    using lru_viewD [OF s'(4)] rep by (auto simp: lru_inv_def dest: lru_rep_distinct)
  moreover have "refreshTimeout fd now s = Inr (0, s')"
    using s'(1) fd p len by (auto simp: refreshTimeout_def)
  ultimately show ?thesis using s' by blast
qed

lemma addtoNode_inv:
  assumes inv: "lru_inv s ps" and fd: "0 \<le> fd" "nat fd < MAX_SESSIONS"
    and now: "int_time now" "\<forall>q \<in> set ps. node_time s q \<le> now"
  shows "\<exists>s'. addtoNode sess fd now s = Inr s' \<and> lru_inv s' (lbrk s # ps)
    \<and> payload s' = (payload s)(lbrk s \<mapsto> (sess, now))
    \<and> map_fd_toNode s' = (map_fd_toNode s)[nat fd := Some (lbrk s)] \<and> lbrk s' = Suc (lbrk s)"
proof -
  let ?p = "lbrk s"
  define s1 where "s1 = snd (newToNode sess (to_int32 now) None None s)"
  have new: "newToNode sess (to_int32 now) None None s = (?p, s1)"
    by (simp add: s1_def newToNode_def)
  have t: "to_int32 now = now" using now(1) by (simp add: int_time_def to_int32_id)
  have pay1: "payload s1 = (payload s)(?p \<mapsto> (sess, now))"
    and tab1: "map_fd_toNode s1 = map_fd_toNode s" and brk1: "lbrk s1 = Suc ?p"
    by (auto simp: s1_def newToNode_def payload_def t fun_eq_iff)
  have pn: "?p \<notin> set ps"
    using inv lru_rep_payload unfolding lru_inv_def by blast
  have "lprev s1 q = lprev s q \<and> lnext s1 q = lnext s q" if "q \<in> set ps" for q
    using that pn by (auto simp: s1_def newToNode_def lprev_def lnext_def)
  then have "dseg (lprev s1) (lnext s1) None (pMRU s) ps (pLRU s) None
      = dseg (lprev s) (lnext s) None (pMRU s) ps (pLRU s) None"
    by (rule dseg_cong)
  then have "lru_rep s1 ps \<longleftrightarrow> lru_rep s ps"
    by (simp add: lru_rep_def s1_def newToNode_def)
  with inv have rep1: "lru_rep s1 ps" by (simp add: lru_inv_def)
  have time1: "node_time s1 = (node_time s)(?p := now)"
    by (auto simp: node_time_def pay1 fun_eq_iff)
  have rec1: "by_recency (node_time s1) ps"
    using inv pn unfolding lru_inv_def by_recency_def time1
    by (auto intro: sorted_wrt_mono_rel [rotated])
  have al1: "payload s1 ?p \<noteq> None" by (simp add: pay1)
  have old1: "\<forall>q \<in> set ps. node_time s1 q \<le> node_time s1 ?p"
    using now(2) pn by (auto simp: time1)
  obtain s2 where s2: "linkMRU ?p s1 = Inr s2" "lru_rep s2 (?p # ps)"
    "payload s2 = payload s1" "map_fd_toNode s2 = map_fd_toNode s1" "lbrk s2 = lbrk s1"
    using lru_link [OF rep1 pn al1] by blast
  moreover have rec2: "by_recency (node_time s2) (?p # ps)"
    using lr.enter [OF rep1 pn al1 rec1 old1] s2(1) by auto
  define s' where "s' = s2\<lparr>map_fd_toNode := (map_fd_toNode s)[nat fd := Some ?p]\<rparr>"
  have len: "length (map_fd_toNode s) = MAX_SESSIONS" using inv by (simp add: lru_inv_def)
  have "addtoNode sess fd now s = Inr s'"
    using s2 fd len by (simp add: addtoNode_def new set_map_fd_def s'_def tab1)
  moreover have "lru_inv s' (?p # ps)"
  proof -
    have "set ((map_fd_toNode s)[nat fd := Some ?p]) \<subseteq> insert (Some ?p) (set (map_fd_toNode s))"
      by (rule set_update_subset_insert)
    moreover have "\<forall>q. Some q \<in> set (map_fd_toNode s) \<longrightarrow> q \<in> set ps"
      using inv by (simp add: lru_inv_def)
    ultimately have "\<forall>q. Some q \<in> set ((map_fd_toNode s)[nat fd := Some ?p]) \<longrightarrow> q \<in> set (?p # ps)"
      by auto
    moreover have "lru_rep s' (?p # ps)" "node_time s' = node_time s2" "payload s' = payload s1"
      using s2 by (simp_all add: s'_def)
    ultimately show ?thesis using s2 rec2 inv len brk1
      by (auto simp: lru_inv_def s'_def pay1 less_SucI)
  qed
  ultimately show ?thesis using s2 pay1 brk1 by (auto simp: s'_def)
qed

section \<open>Timeouts\<close>

lemma unsigned_compare:
  assumes "0 \<le> n" "n < 2 ^ 32"
  shows "idle < (word_of_int n :: u32) \<longleftrightarrow> uint idle < n"
  using assms by (simp add: word_less_def uint_word_of_int_eq take_bit_int_eq_self)

lemma isTimeout_eq:
  assumes "lru_rep s (ps @ [p])" and "sessTime now n = k" and "lnodes s p = Some n"
  shows "isTimeout idle now q s = Inr (idle < (word_of_int (k + TIMEOUTSEG) :: u32))"
  using assms lru_rep_ends(2) [OF assms(1)] by (simp add: isTimeout_def)

lemma payload_node: "payload s p = Some (sess, t) \<Longrightarrow> \<exists>n. lnodes s p = Some n \<and> nd_lastTime n = t \<and> nd_sess n = sess"
  by (auto simp: payload_def)

section \<open>Runs of the connection list\<close>

text \<open>The two ways the event loop changes the list besides expiry, as steps of a run.\<close>

datatype lru_op =
    Connect nat int int   \<comment> \<open>session, control descriptor, time\<close>
  | Request int int       \<comment> \<open>control descriptor, time\<close>

fun op_time :: "lru_op \<Rightarrow> int" where
  "op_time (Connect _ _ t) = t"
| "op_time (Request _ t) = t"

fun op_fd :: "lru_op \<Rightarrow> int" where
  "op_fd (Connect _ fd _) = fd"
| "op_fd (Request fd _) = fd"

fun lru_step :: "lru_op \<Rightarrow> lru \<Rightarrow> lru res" where
  "lru_step (Connect sess fd t) s = addtoNode sess fd t s"
| "lru_step (Request fd t) s = bnd (refreshTimeout fd t s) (\<lambda>(_, s). Inr s)"

fun lru_run :: "lru_op list \<Rightarrow> lru \<Rightarrow> lru res" where
  "lru_run [] s = Inr s"
| "lru_run (x # xs) s = bnd (lru_step x s) (lru_run xs)"

definition fd_ok :: "int \<Rightarrow> bool" where
  "fd_ok fd \<longleftrightarrow> 0 \<le> fd \<and> nat fd < MAX_SESSIONS"

definition not_after :: "lru \<Rightarrow> nat list \<Rightarrow> int \<Rightarrow> bool" where
  "not_after s ps t \<longleftrightarrow> (\<forall>q \<in> set ps. node_time s q \<le> t)"

lemma lru_step_inv:
  assumes inv: "lru_inv s ps" and old: "not_after s ps (op_time x)"
    and fd: "fd_ok (op_fd x)" and t: "int_time (op_time x)"
  shows "\<exists>s' ps'. lru_step x s = Inr s' \<and> lru_inv s' ps' \<and> not_after s' ps' (op_time x)"
proof (cases x)
  case (Connect sess f now)
  then have fd': "0 \<le> f" "nat f < MAX_SESSIONS" and now: "int_time now" "\<forall>q \<in> set ps. node_time s q \<le> now"
    using fd t old by (auto simp: fd_ok_def not_after_def)
  obtain s' where s': "addtoNode sess f now s = Inr s'" "lru_inv s' (lbrk s # ps)"
    "payload s' = (payload s)(lbrk s \<mapsto> (sess, now))"
    using addtoNode_inv [OF inv fd' now] by blast
  have "not_after s' (lbrk s # ps) now"
    using now(2) by (auto simp: not_after_def node_time_def s'(3))
  with s' Connect show ?thesis by auto
next
  case (Request f now)
  then have fd': "0 \<le> f" "nat f < MAX_SESSIONS" and now: "int_time now" "\<forall>q \<in> set ps. node_time s q \<le> now"
    using fd t old by (auto simp: fd_ok_def not_after_def)
  have len: "length (map_fd_toNode s) = MAX_SESSIONS" using inv by (simp add: lru_inv_def)
  show ?thesis
  proof (cases "map_fd_toNode s ! nat f")
    case None
    with Request fd' len inv old show ?thesis by (auto simp: refreshTimeout_def)
  next
    case (Some p)
    obtain s' where s': "refreshTimeout f now s = Inr (0, s')" "lru_inv s' (p # remove1 p ps)"
      "node_time s' = (node_time s)(p := now)"
      using refreshTimeout_inv [OF inv fd' Some now] by blast
    have "not_after s' (p # remove1 p ps) now"
      using now(2) by (auto simp: not_after_def s'(3) dest: notin_set_remove1)
    with s' Request show ?thesis by auto
  qed
qed

lemma lru_run_inv_gen:
  assumes "lru_inv s ps" "\<forall>x \<in> set xs. fd_ok (op_fd x) \<and> int_time (op_time x) \<and> not_after s ps (op_time x)"
    and "sorted (map op_time xs)"
  shows "\<exists>s' ps'. lru_run xs s = Inr s' \<and> lru_inv s' ps'"
  using assms
proof (induction xs arbitrary: s ps)
  case (Cons x xs)
  then obtain s' ps' where s': "lru_step x s = Inr s'" "lru_inv s' ps'" "not_after s' ps' (op_time x)"
    using lru_step_inv [of s ps x] by auto
  have "\<forall>y \<in> set xs. fd_ok (op_fd y) \<and> int_time (op_time y) \<and> not_after s' ps' (op_time y)"
    using Cons.prems s'(3) by (force simp: not_after_def)
  with Cons.IH [OF s'(2)] Cons.prems s'(1) show ?case by simp
qed auto

text \<open>C7: from the empty list, any sequence of new connections and requests whose times do
  not go backwards runs without a memory fault, and ends with a well-linked list that is
  ordered by recency and a table that only points into it.\<close>

theorem lru_runs_safe:
  assumes "\<forall>x \<in> set xs. fd_ok (op_fd x) \<and> int_time (op_time x)" and "sorted (map op_time xs)"
  shows "\<exists>s' ps'. lru_run xs init_lru = Inr s' \<and> lru_inv s' ps'"
  using assms lru_run_inv_gen [OF lru_inv_init, of xs] by (auto simp: not_after_def)

theorem lru_runs_safe_witness:
  "\<exists>s' ps'. lru_run [Connect 0 5 100, Connect 1 6 101, Request 5 103] init_lru = Inr s' \<and> lru_inv s' ps'"
  by (rule lru_runs_safe) (simp_all add: fd_ok_def int_time_def MAX_SESSIONS_def)

text \<open>C21: a request on a descriptor with a node moves this node, and only this one, to the
  most recently used end and stamps it with the time of the request.\<close>

theorem refreshTimeout_moves_to_front:
  assumes "lru_inv s ps" "fd_ok fd" "map_fd_toNode s ! nat fd = Some p" "int_time now" "not_after s ps now"
  shows "\<exists>s'. refreshTimeout fd now s = Inr (0, s') \<and> lru_rep s' (p # filter (\<lambda>q. q \<noteq> p) ps)
    \<and> pMRU s' = Some p \<and> payload s' = (payload s)(p := map_option (\<lambda>v. (fst v, now)) (payload s p))
    \<and> map_fd_toNode s' = map_fd_toNode s"
proof -
  from assms have fd: "0 \<le> fd" "nat fd < MAX_SESSIONS" and now: "\<forall>q \<in> set ps. node_time s q \<le> now"
    by (auto simp: fd_ok_def not_after_def)
  obtain s' where s': "refreshTimeout fd now s = Inr (0, s')" "lru_inv s' (p # remove1 p ps)"
    "node_time s' = (node_time s)(p := now)" "lru_view s' = lru_view s"
    using refreshTimeout_inv [OF assms(1) fd assms(3,4) now] by blast
  have "distinct ps" using assms(1) by (auto simp: lru_inv_def dest: lru_rep_distinct)
  then have "remove1 p ps = filter (\<lambda>q. q \<noteq> p) ps"
    by (simp add: distinct_remove1_removeAll removeAll_filter_not_eq) metis
  with s'(2) have rep: "lru_rep s' (p # filter (\<lambda>q. q \<noteq> p) ps)" by (simp add: lru_inv_def)
  have "payload s' q = ((payload s)(p := map_option (\<lambda>v. (fst v, now)) (payload s p))) q" for q
    using lru_viewD(3,4) [OF s'(4), of q] fun_cong [OF s'(3), of q]
    by (cases "payload s q"; cases "payload s' q") (auto simp: node_time_def split: if_splits)
  with s' rep lru_viewD(1) [OF s'(4)] lru_rep_ends(1) [OF rep] show ?thesis by auto
qed

text \<open>A list of two connections, for the witnesses: descriptor 6 was used after descriptor 5.\<close>

definition two_conns :: lru where
  "two_conns = \<lparr>lnodes = [0 \<mapsto> \<lparr>nd_sess = 10, nd_lastTime = 100, nd_left = Some 1, nd_right = None\<rparr>,
       1 \<mapsto> \<lparr>nd_sess = 11, nd_lastTime = 101, nd_left = None, nd_right = Some 0\<rparr>],
     pMRU = Some 1, pLRU = Some 0,
     map_fd_toNode = (replicate MAX_SESSIONS None)[5 := Some 0, 6 := Some 1], lbrk = 2\<rparr>"

lemma two_conns_run: "lru_run [Connect 10 5 100, Connect 11 6 101] init_lru = Inr two_conns"
  by (simp add: addtoNode_def newToNode_def to_int32_def init_lru_def linkMRU_def upd_node_def
      set_map_fd_def MAX_SESSIONS_def two_conns_def fun_eq_iff)

lemma two_conns_inv: "lru_inv two_conns [1, 0]"
proof -
  have "Some p \<in> set (map_fd_toNode two_conns) \<Longrightarrow> p \<in> {0, 1}" for p
    by (auto simp: two_conns_def in_set_conv_nth nth_list_update MAX_SESSIONS_def split: if_splits)
  then show ?thesis
    by (auto simp: lru_inv_def two_conns_def lru_rep_def by_recency_def payload_def lprev_def
        lnext_def node_time_def split: if_splits)
qed

theorem refreshTimeout_moves_to_front_witness:
  "\<exists>s'. refreshTimeout 5 103 two_conns = Inr (0, s') \<and> lru_rep s' [0, 1] \<and> pMRU s' = Some 0
    \<and> payload s' = (payload two_conns)(0 := Some (10, 103))
    \<and> map_fd_toNode s' = map_fd_toNode two_conns"
  using refreshTimeout_moves_to_front [OF two_conns_inv, of 5 0 103]
  by (auto simp: fd_ok_def int_time_def not_after_def MAX_SESSIONS_def two_conns_def
      node_time_def payload_def)

text \<open>C26: while the clock has not gone back behind the stamp of the least recently used node,
  \<open>isTimeout\<close> holds exactly when that node has been idle for more than the configured time
  less two seconds.\<close>

theorem isTimeout_elapsed:
  assumes "lru_rep s (ps @ [p])" "payload s p = Some (sess, t)"
    and "0 \<le> t" "t \<le> now" "now < 2 ^ 31 - 2"
  shows "isTimeout idle now q s = Inr (uint idle < now - t + TIMEOUTSEG)"
proof -
  from assms(2) obtain n where n: "lnodes s p = Some n" "nd_lastTime n = t" using payload_node by blast
  with assms have "sessTime now n = now - t" by (simp add: sessTime_def to_int32_id)
  from isTimeout_eq [OF assms(1) this n(1)] have
    "isTimeout idle now q s = Inr (idle < (word_of_int (now - t + TIMEOUTSEG) :: u32))" .
  then show ?thesis using assms(3-5) unsigned_compare [of "now - t + TIMEOUTSEG" idle]
    by (simp add: TIMEOUTSEG_def)
qed

theorem isTimeout_elapsed_witness:
  "isTimeout 300 399 0 two_conns = Inr True \<and> isTimeout 300 398 0 two_conns = Inr False"
proof -
  have rep: "lru_rep two_conns ([1] @ [0])" using two_conns_inv by (simp add: lru_inv_def)
  have pay: "payload two_conns 0 = Some (10, 100)" by (simp add: two_conns_def payload_def)
  show ?thesis
    using isTimeout_elapsed [OF rep pay, of 399 300 0] isTimeout_elapsed [OF rep pay, of 398 300 0]
    by (simp add: TIMEOUTSEG_def)
qed

text \<open>C34: when the clock is set back by more than two seconds, the unsigned comparison takes
  the negative idle time for a huge one, and the node counts as expired at once.\<close>

theorem isTimeout_clock_set_back:
  assumes "lru_rep s (ps @ [p])" "payload s p = Some (sess, t)"
    and "0 \<le> now" "now + TIMEOUTSEG < t" "t < 2 ^ 31" "uint idle < 2 ^ 31"
  shows "isTimeout idle now q s = Inr True"
proof -
  from assms(2) obtain n where n: "lnodes s p = Some n" "nd_lastTime n = t" using payload_node by blast
  with assms have "sessTime now n = now - t" by (simp add: sessTime_def to_int32_id TIMEOUTSEG_def)
  from isTimeout_eq [OF assms(1) this n(1)] have eq:
    "isTimeout idle now q s = Inr (idle < (word_of_int (now - t + TIMEOUTSEG) :: u32))" .
  have "(word_of_int (now - t + TIMEOUTSEG) :: u32) = word_of_int (now - t + TIMEOUTSEG + 2 ^ 32)"
    by (simp add: word_of_int_eq_iff take_bit_eq_mod)
  moreover have "0 \<le> now - t + TIMEOUTSEG + 2 ^ 32" "now - t + TIMEOUTSEG + 2 ^ 32 < 2 ^ 32"
    "uint idle < now - t + TIMEOUTSEG + 2 ^ 32"
    using assms(3-6) by (simp_all add: TIMEOUTSEG_def)
  ultimately show ?thesis using unsigned_compare eq by metis
qed

theorem isTimeout_clock_set_back_witness: "isTimeout 300 90 0 two_conns = Inr True"
proof -
  have rep: "lru_rep two_conns ([1] @ [0])" using two_conns_inv by (simp add: lru_inv_def)
  have pay: "payload two_conns 0 = Some (10, 100)" by (simp add: two_conns_def payload_def)
  show ?thesis using isTimeout_clock_set_back [OF rep pay, of 90 300 0] by (simp add: TIMEOUTSEG_def)
qed

end
