(* ===== verification/HashTable.thy ===== *)
theory HashTable
  imports DList
begin

text \<open>
  \<^verbatim>\<open>hash.cpp\<close>: an array of buckets, each a doubly linked chain of nodes that own a copy of
  their key and of their value. Keys and values are the bytes behind the \<open>void*\<close> arguments.
  A pointer to a stored value (what \<open>hash_lookup_entry\<close> returns) is the address of the node
  that owns it. The interface \<open>table\<close> states what the callers rely on; it is interpreted on
  the operations of the file.
\<close>

section \<open>State\<close>

record hash_node =
  hn_key :: bytes
  hn_value :: bytes
  hn_prev :: ptr
  hn_next :: ptr

record hash_t =
  buckets :: u32
  hash_fn :: "u32 \<Rightarrow> bytes \<Rightarrow> u32 res"
  nodes :: "ptr list"
  hheap :: "nat \<Rightarrow> hash_node option"
  hbrk :: nat  \<comment> \<open>the next address \<open>malloc\<close> hands out\<close>

text \<open>A table whose array of buckets has room for \<open>c\<close> pointers, all null.\<close>

definition new_table :: "u32 \<Rightarrow> (u32 \<Rightarrow> bytes \<Rightarrow> u32 res) \<Rightarrow> nat \<Rightarrow> hash_t" where
  "new_table n func c = \<lparr>buckets = n, hash_fn = func,
     nodes = replicate c None, hheap = Map.empty, hbrk = 0\<rparr>"

text \<open>
  The size in bytes is an \<open>int\<close>: a product past its range is cut to 32 bits. When that is negative,
  \<open>malloc\<close> is asked for nearly \<open>2^64\<close> bytes, returns null, and \<open>bzero\<close> writes there.
\<close>

definition hash_alloc :: "u32 \<Rightarrow> (u32 \<Rightarrow> bytes \<Rightarrow> u32 res) \<Rightarrow> hash_t res" where
  "hash_alloc n func =
     (let sz = to_int32 (uint n * 8) in
      if sz < 0 then Inl NullDeref else Inr (new_table n func (nat sz div 8)))"

lemma hash_alloc_eq:
  assumes "n < 0x10000000" shows "hash_alloc n func = Inr (new_table n func (unat n))"
proof -
  have "uint n < 0x10000000" using assms by (simp add: word_less_def)
  moreover have "- (2 ^ 31) \<le> uint n * 8" by (rule order_trans [of _ 0]) simp_all
  ultimately have "to_int32 (uint n * 8) = uint n * 8" by (intro to_int32_id) simp_all
  moreover have "nat (uint n * 8) = unat n * 8" by (simp add: nat_mult_distrib)
  ultimately show ?thesis by (simp add: hash_alloc_def)
qed

lemma hash_alloc_256 [simp]: "hash_alloc 256 func = Inr (new_table 256 func 256)"
  using hash_alloc_eq [of 256 func] by simp

section \<open>Operations\<close>

text \<open>\<open>memcmp(a,b,n) == 0\<close> and the copy \<open>malloc(n)\<close> with \<open>memcpy\<close> makes.\<close>

definition memcmp_eq :: "bytes \<Rightarrow> bytes \<Rightarrow> nat \<Rightarrow> bool res" where
  "memcmp_eq a b n = (if n \<le> length a \<and> n \<le> length b then Inr (take n a = take n b)
     else Inl OutOfBounds)"

definition memdup :: "bytes \<Rightarrow> nat \<Rightarrow> bytes res" where
  "memdup a n = (if n \<le> length a then Inr (take n a) else Inl OutOfBounds)"

text \<open>\<open>hash_get_bucket\<close> returns the index of the bucket whose address the source returns.\<close>

definition hash_get_bucket :: "hash_t \<Rightarrow> bytes \<Rightarrow> nat res" where
  "hash_get_bucket h key =
     bnd (hash_fn h (buckets h) key) (\<lambda>i.
     if buckets h \<le> i then Inl (Exit 1) else Inr (unat i))"

text \<open>
  The walk \<open>for(ret=*bucket; ret; ret=ret->next)\<close>. Its fuel is the number of nodes ever
  allocated: a walk over more nodes visits one twice and never ends.
\<close>

fun find_node :: "nat \<Rightarrow> (nat \<Rightarrow> hash_node option) \<Rightarrow> bytes \<Rightarrow> nat \<Rightarrow> ptr \<Rightarrow> ptr res" where
  "find_node _ hp key ksz None = Inr None"
| "find_node 0 hp key ksz (Some p) = Inl NoReturn"
| "find_node (Suc fuel) hp key ksz (Some p) =
     bnd (deref hp p) (\<lambda>n.
     bnd (memcmp_eq (hn_key n) key ksz) (\<lambda>e.
     if e then Inr (Some p) else find_node fuel hp key ksz (hn_next n)))"

definition hash_get_node_by_key :: "hash_t \<Rightarrow> bytes \<Rightarrow> nat \<Rightarrow> ptr res" where
  "hash_get_node_by_key h key ksz =
     bnd (hash_get_bucket h key) (\<lambda>b.
     bnd (peek_at (nodes h) b) (\<lambda>first.
     find_node (hbrk h) (hheap h) key ksz first))"

definition hash_lookup_entry :: "hash_t \<Rightarrow> bytes \<Rightarrow> nat \<Rightarrow> ptr res" where
  "hash_lookup_entry h key ksz = hash_get_node_by_key h key ksz"

text \<open>Reading and writing through the pointer that \<open>hash_lookup_entry\<close> returned.\<close>

definition value_at :: "hash_t \<Rightarrow> nat \<Rightarrow> bytes res" where
  "value_at h p = bnd (deref (hheap h) p) (\<lambda>n. Inr (hn_value n))"

definition upd_hnode :: "nat \<Rightarrow> (hash_node \<Rightarrow> hash_node) \<Rightarrow> hash_t \<Rightarrow> hash_t res" where
  "upd_hnode p f h =
     bnd (deref (hheap h) p) (\<lambda>n. Inr (h\<lparr>hheap := (hheap h)(p \<mapsto> f n)\<rparr>))"

definition store_value :: "hash_t \<Rightarrow> nat \<Rightarrow> bytes \<Rightarrow> hash_t res" where
  "store_value h p v =
     bnd (value_at h p) (\<lambda>old.
     bnd (blit old 0 v) (\<lambda>new. upd_hnode p (\<lambda>n. n\<lparr>hn_value := new\<rparr>) h))"

definition hash_add_entry :: "hash_t \<Rightarrow> bytes \<Rightarrow> nat \<Rightarrow> bytes \<Rightarrow> nat \<Rightarrow> hash_t res" where
  "hash_add_entry h key ksize val vsize =
     bnd (hash_lookup_entry h key ksize) (\<lambda>r.
     if r \<noteq> None then Inr h
     else
       bnd (memdup key ksize) (\<lambda>k.
       bnd (memdup val vsize) (\<lambda>v.
       let node = hbrk h;
           h = h\<lparr>hheap := (hheap h)(node \<mapsto>
                   \<lparr>hn_key = k, hn_value = v, hn_prev = None, hn_next = None\<rparr>),
                 hbrk := Suc node\<rparr> in
       bnd (hash_get_bucket h key) (\<lambda>b.
       bnd (peek_at (nodes h) b) (\<lambda>first.
       case first of
         None \<Rightarrow> Inr (h\<lparr>nodes := (nodes h)[b := Some node]\<rparr>)
       | Some q \<Rightarrow>
           bnd (upd_hnode node (\<lambda>n. n\<lparr>hn_next := first\<rparr>) h) (\<lambda>h.
           bnd (upd_hnode q (\<lambda>n. n\<lparr>hn_prev := Some node\<rparr>) h) (\<lambda>h.
           Inr (h\<lparr>nodes := (nodes h)[b := Some node]\<rparr>))))))))"

definition hash_free_entry :: "hash_t \<Rightarrow> bytes \<Rightarrow> nat \<Rightarrow> hash_t res" where
  "hash_free_entry h key ksize =
     bnd (hash_get_node_by_key h key ksize) (\<lambda>r.
     case r of
       None \<Rightarrow> Inr h
     | Some node \<Rightarrow>
         bnd (deref (hheap h) node) (\<lambda>n.
         bnd (case hn_prev n of
                Some q \<Rightarrow> upd_hnode q (\<lambda>m. m\<lparr>hn_next := hn_next n\<rparr>) h
              | None \<Rightarrow>
                  bnd (hash_get_bucket h key) (\<lambda>b.
                  Inr (h\<lparr>nodes := (nodes h)[b := hn_next n]\<rparr>))) (\<lambda>h.
         bnd (deref (hheap h) node) (\<lambda>n.
         bnd (case hn_next n of
                Some q \<Rightarrow> upd_hnode q (\<lambda>m. m\<lparr>hn_prev := hn_prev n\<rparr>) h
              | None \<Rightarrow> Inr h) (\<lambda>h.
         Inr (h\<lparr>hheap := (hheap h)(node := None)\<rparr>))))))"

section \<open>What a table holds\<close>

definition hprev :: "hash_t \<Rightarrow> nat \<Rightarrow> ptr option" where
  "hprev h p = map_option hn_prev (hheap h p)"

definition hnext :: "hash_t \<Rightarrow> nat \<Rightarrow> ptr option" where
  "hnext h p = map_option hn_next (hheap h p)"

definition entry :: "hash_t \<Rightarrow> nat \<Rightarrow> (bytes \<times> bytes) option" where
  "entry h p = map_option (\<lambda>n. (hn_key n, hn_value n)) (hheap h p)"

definition chain :: "hash_t \<Rightarrow> nat \<Rightarrow> nat list \<Rightarrow> bool" where
  "chain h i ps \<longleftrightarrow> (\<exists>l. dseg (hprev h) (hnext h) None (nodes h ! i) ps l None)"

text \<open>The hash function gives a bucket for every key of \<open>ks\<close> bytes.\<close>

definition hash_ok :: "nat \<Rightarrow> hash_t \<Rightarrow> bool" where
  "hash_ok ks h \<longleftrightarrow> (\<forall>k. length k = ks \<longrightarrow> (\<exists>i. hash_fn h (buckets h) k = Inr i \<and> i < buckets h))"

definition bucket_of :: "hash_t \<Rightarrow> bytes \<Rightarrow> nat" where
  "bucket_of h k = (case hash_fn h (buckets h) k of Inr i \<Rightarrow> unat i | Inl _ \<Rightarrow> 0)"

definition key_of :: "hash_t \<Rightarrow> nat \<Rightarrow> bytes option" where
  "key_of h p = map_option fst (entry h p)"

text \<open>
  \<open>hash_rep ks h c\<close>: \<open>c i\<close> are the nodes of bucket \<open>i\<close>, every one holds a key of \<open>ks\<close> bytes
  that hashes to \<open>i\<close>, and no key occurs twice.
\<close>

definition hash_rep :: "nat \<Rightarrow> hash_t \<Rightarrow> (nat \<Rightarrow> nat list) \<Rightarrow> bool" where
  "hash_rep ks h c \<longleftrightarrow> hash_ok ks h \<and> length (nodes h) = unat (buckets h)
     \<and> (\<forall>p. entry h p \<noteq> None \<longrightarrow> p < hbrk h)
     \<and> (\<forall>i < length (nodes h). chain h i (c i)
          \<and> (\<forall>p \<in> set (c i). \<exists>k v. entry h p = Some (k, v) \<and> length k = ks \<and> bucket_of h k = i)
          \<and> inj_on (key_of h) (set (c i)))"

definition hash_inv :: "nat \<Rightarrow> hash_t \<Rightarrow> bool" where
  "hash_inv ks h \<longleftrightarrow> (\<exists>c. hash_rep ks h c)"

text \<open>The map from keys of \<open>ks\<close> bytes to values.\<close>

definition hash_abs :: "nat \<Rightarrow> hash_t \<Rightarrow> bytes \<Rightarrow> bytes option" where
  "hash_abs ks h k =
     (if length k \<noteq> ks then None
      else case hash_get_node_by_key h k ks of
        Inr (Some p) \<Rightarrow> map_option snd (entry h p)
      | _ \<Rightarrow> None)"

section \<open>Lookup\<close>

lemma find_SomeD: "find P xs = Some x \<Longrightarrow> x \<in> set xs \<and> P x"
  by (auto simp: find_Some_iff)

lemma hash_repD:
  assumes "hash_rep ks h c"
  shows "hash_ok ks h" "length (nodes h) = unat (buckets h)" "entry h p \<noteq> None \<Longrightarrow> p < hbrk h"
    and "i < length (nodes h) \<Longrightarrow> chain h i (c i)"
    and "i < length (nodes h) \<Longrightarrow> p \<in> set (c i) \<Longrightarrow>
      \<exists>k v. entry h p = Some (k, v) \<and> length k = ks \<and> bucket_of h k = i"
    and "i < length (nodes h) \<Longrightarrow> inj_on (key_of h) (set (c i))"
  using assms by (auto simp: hash_rep_def)

lemma bucket_of_less:
  assumes "hash_rep ks h c" "length k = ks"
  shows "bucket_of h k < length (nodes h)" "hash_get_bucket h k = Inr (bucket_of h k)"
proof -
  from assms obtain i where i: "hash_fn h (buckets h) k = Inr i" "i < buckets h"
    by (auto simp: hash_rep_def hash_ok_def)
  with hash_repD(2) [OF assms(1)] show "bucket_of h k < length (nodes h)"
    by (simp add: bucket_of_def word_less_nat_alt)
  from i show "hash_get_bucket h k = Inr (bucket_of h k)"
    by (simp add: hash_get_bucket_def bucket_of_def)
qed

lemma entry_node: "entry h p = Some (k, v) \<longleftrightarrow>
   (\<exists>n. hheap h p = Some n \<and> hn_key n = k \<and> hn_value n = v)"
  by (auto simp: entry_def)

lemma find_node_eq:
  assumes "dseg (hprev h) (hnext h) q c ps l None" "length ps \<le> fuel" "length k = ks"
    and "\<forall>p \<in> set ps. \<exists>k v. entry h p = Some (k, v) \<and> length k = ks"
  shows "find_node fuel (hheap h) k ks c = Inr (find (\<lambda>p. key_of h p = Some k) ps)"
  using assms
proof (induction ps arbitrary: q c fuel)
  case Nil
  then show ?case by (cases fuel) auto
next
  case (Cons p ps)
  then obtain n where n: "hheap h p = Some n" "length (hn_key n) = ks" by (auto simp: entry_node)
  from Cons.prems(2) obtain f where f: "fuel = Suc f" "length ps \<le> f" by (cases fuel) auto
  have "find_node f (hheap h) k ks (hn_next n) = Inr (find (\<lambda>p. key_of h p = Some k) ps)"
    using Cons.prems n f by (intro Cons.IH [of "Some p"]) (auto simp: hnext_def)
  with Cons.prems n f show ?case
    by (auto simp: memcmp_eq_def key_of_def entry_def)
qed

lemma chain_length:
  assumes "hash_rep ks h c" "i < length (nodes h)"
  shows "length (c i) \<le> hbrk h"
proof -
  from hash_repD(4) [OF assms] have "distinct (c i)"
    by (auto simp: chain_def dest: dseg_distinct)
  moreover have "set (c i) \<subseteq> {..<hbrk h}"
    using hash_repD(3) [OF assms(1)] hash_repD(5) [OF assms] by fastforce
  ultimately show ?thesis
    by (metis card_lessThan card_mono distinct_card finite_lessThan)
qed

lemma get_node_eq:
  assumes rep: "hash_rep ks h c" and k: "length k = ks"
  shows "hash_get_node_by_key h k ks
    = Inr (find (\<lambda>p. key_of h p = Some k) (c (bucket_of h k)))"
proof -
  let ?b = "bucket_of h k"
  have b: "?b < length (nodes h)" "hash_get_bucket h k = Inr ?b"
    using bucket_of_less [OF rep k] by auto
  obtain l where "dseg (hprev h) (hnext h) None (nodes h ! ?b) (c ?b) l None"
    using hash_repD(4) [OF rep b(1)] by (auto simp: chain_def)
  moreover have "\<forall>p \<in> set (c ?b). \<exists>k v. entry h p = Some (k, v) \<and> length k = ks"
    using hash_repD(5) [OF rep b(1)] by blast
  ultimately have "find_node (hbrk h) (hheap h) k ks (nodes h ! ?b)
      = Inr (find (\<lambda>p. key_of h p = Some k) (c ?b))"
    using chain_length [OF rep b(1)] k by (intro find_node_eq) auto
  with b show ?thesis by (simp add: hash_get_node_by_key_def)
qed

text \<open>The value of a key is the one in the node of its bucket that has the key.\<close>

lemma hash_abs_iff:
  assumes rep: "hash_rep ks h c" and k: "length k = ks"
  shows "hash_abs ks h k = Some v \<longleftrightarrow> (\<exists>p \<in> set (c (bucket_of h k)). entry h p = Some (k, v))"
proof -
  let ?b = "bucket_of h k"
  have inj: "inj_on (key_of h) (set (c ?b))"
    using hash_repD(6) [OF rep] bucket_of_less(1) [OF rep k] by simp
  show ?thesis
  proof (cases "find (\<lambda>p. key_of h p = Some k) (c ?b)")
    case None
    then have "\<forall>p \<in> set (c ?b). entry h p \<noteq> Some (k, v)"
      by (auto simp: find_None_iff key_of_def)
    with None show ?thesis using k by (auto simp: hash_abs_def get_node_eq [OF rep k])
  next
    case (Some p)
    then have p: "p \<in> set (c ?b)" "key_of h p = Some k" by (auto simp: find_Some_iff)
    have uniq: "q = p" if "q \<in> set (c ?b)" "entry h q = Some (k, v)" for q
    proof (rule inj_onD [OF inj _ that(1) p(1)])
      have "key_of h q = Some k" using that(2) by (simp add: key_of_def)
      with p(2) show "key_of h q = key_of h p" by simp
    qed
    obtain w where w: "entry h p = Some (k, w)" using p(2) by (auto simp: key_of_def)
    have "hash_abs ks h k = Some w"
      using Some k w by (simp add: hash_abs_def get_node_eq [OF rep k])
    with w p(1) uniq show ?thesis by (metis option.inject prod.inject)
  qed
qed

lemma hash_abs_none_iff:
  assumes rep: "hash_rep ks h c" and k: "length k = ks"
  shows "hash_abs ks h k = None \<longleftrightarrow> hash_get_node_by_key h k ks = Inr None"
proof -
  have "\<exists>v. entry h p = Some (k, v)" if "find (\<lambda>p. key_of h p = Some k) (c (bucket_of h k)) = Some p" for p
    using that by (auto simp: find_Some_iff key_of_def)
  then show ?thesis
    using k by (auto simp: hash_abs_def get_node_eq [OF rep k] split: option.splits)
qed

section \<open>Insertion\<close>

text \<open>
  The table after \<open>hash_add_entry\<close>, with the new node in front of the chain of its bucket.
  What it shows to its callers is fixed by the entries of the nodes of each bucket.
\<close>

lemma hash_abs_update:
  assumes rep: "hash_rep ks h c" and rep': "hash_rep ks h' c'"
    and same: "bucket_of h' = bucket_of h" and k: "length k = ks"
    and new: "\<And>v. (\<exists>p \<in> set (c' (bucket_of h k)). entry h' p = Some (k, v)) \<longleftrightarrow> w = Some v"
    and old: "\<And>k' v. length k' = ks \<Longrightarrow> k' \<noteq> k \<Longrightarrow>
      (\<exists>p \<in> set (c' (bucket_of h k')). entry h' p = Some (k', v))
        \<longleftrightarrow> (\<exists>p \<in> set (c (bucket_of h k')). entry h p = Some (k', v))"
  shows "hash_abs ks h' = (hash_abs ks h)(k := w)"
proof (rule ext)
  fix k'
  consider "length k' \<noteq> ks" | "k' = k" | "length k' = ks" "k' \<noteq> k" by blast
  then show "hash_abs ks h' k' = ((hash_abs ks h)(k := w)) k'"
  proof cases
    case 1
    with k show ?thesis by (auto simp: hash_abs_def)
  next
    case 2
    then have "hash_abs ks h' k' = Some v \<longleftrightarrow> w = Some v" for v
      using hash_abs_iff [OF rep' k] new same by simp
    then have "hash_abs ks h' k' = w" by (metis option.exhaust)
    with 2 show ?thesis by simp
  next
    case 3
    then have "hash_abs ks h' k' = Some v \<longleftrightarrow> hash_abs ks h k' = Some v" for v
      using hash_abs_iff [OF rep' 3(1)] hash_abs_iff [OF rep 3(1)] old same by simp
    then have "hash_abs ks h' k' = hash_abs ks h k'" by (metis option.exhaust)
    with 3 show ?thesis by simp
  qed
qed

lemma other_bucket:
  assumes rep: "hash_rep ks h c" and "i < length (nodes h)" "j < length (nodes h)" "i \<noteq> j"
  shows "set (c i) \<inter> set (c j) = {}"
  using hash_repD(5) [OF rep assms(2)] hash_repD(5) [OF rep assms(3)] assms(4) by fastforce

definition added :: "nat \<Rightarrow> bytes \<Rightarrow> bytes \<Rightarrow> hash_t \<Rightarrow> hash_t" where
  "added b k v h = h\<lparr>nodes := (nodes h)[b := Some (hbrk h)], hbrk := Suc (hbrk h),
     hheap := (case nodes h ! b of
         None \<Rightarrow> (hheap h)(hbrk h \<mapsto> \<lparr>hn_key = k, hn_value = v, hn_prev = None, hn_next = None\<rparr>)
       | Some q \<Rightarrow> (hheap h)(hbrk h \<mapsto> \<lparr>hn_key = k, hn_value = v, hn_prev = None, hn_next = Some q\<rparr>,
           q \<mapsto> the (hheap h q)\<lparr>hn_prev := Some (hbrk h)\<rparr>))\<rparr>"

lemma first_alloc:
  assumes rep: "hash_rep ks h c" and b: "b < length (nodes h)" and q: "nodes h ! b = Some q"
  shows "q \<in> set (c b)" "\<exists>n. hheap h q = Some n" "q \<noteq> hbrk h"
proof -
  from hash_repD(4) [OF rep b] show qc: "q \<in> set (c b)"
    using q by (auto simp: chain_def dest: dseg_head split: list.splits)
  with hash_repD(5) [OF rep b] obtain k v where e: "entry h q = Some (k, v)" by blast
  then show "\<exists>n. hheap h q = Some n" by (auto simp: entry_node)
  show "q \<noteq> hbrk h" using hash_repD(3) [OF rep, of q] e by auto
qed

lemma hash_add_entry_added:
  assumes rep: "hash_rep ks h c" and k: "length k = ks" and none: "hash_abs ks h k = None"
    and v: "vs \<le> length v"
  shows "hash_add_entry h k ks v vs = Inr (added (bucket_of h k) k (take vs v) h)"
proof -
  let ?b = "bucket_of h k"
  have b: "?b < length (nodes h)" "hash_get_bucket h k = Inr ?b"
    using bucket_of_less [OF rep k] by auto
  have look: "hash_lookup_entry h k ks = Inr None"
    using none hash_abs_none_iff [OF rep k] by (simp add: hash_lookup_entry_def)
  have gb: "hash_get_bucket (h\<lparr>hheap := x, hbrk := y\<rparr>) k = Inr ?b" for x y
    using b(2) by (simp add: hash_get_bucket_def)
  show ?thesis
  proof (cases "nodes h ! ?b")
    case None
    with look k v b gb show ?thesis
      by (simp add: hash_add_entry_def memdup_def Let_def added_def)
  next
    case (Some q)
    with first_alloc [OF rep b(1) Some] obtain n where n: "hheap h q = Some n" "q \<noteq> hbrk h" by blast
    with look k v b gb Some show ?thesis
      by (simp add: hash_add_entry_def memdup_def Let_def added_def upd_hnode_def fun_upd_twist)
  qed
qed

lemma added_links:
  assumes rep: "hash_rep ks h c" and b: "b < length (nodes h)"
  shows "hprev (added b k v h) = (set_at (nodes h ! b) (Some (hbrk h)) (hprev h))(hbrk h := Some None)"
    and "hnext (added b k v h) = (hnext h)(hbrk h := Some (nodes h ! b))"
    and "entry (added b k v h) = (entry h)(hbrk h \<mapsto> (k, v))"
proof -
  show "hprev (added b k v h) = (set_at (nodes h ! b) (Some (hbrk h)) (hprev h))(hbrk h := Some None)"
    using first_alloc [OF rep b]
    by (auto simp: hprev_def added_def fun_eq_iff split: option.splits)
  show "hnext (added b k v h) = (hnext h)(hbrk h := Some (nodes h ! b))"
    using first_alloc [OF rep b]
    by (fastforce simp: hnext_def added_def fun_eq_iff split: option.splits)
  show "entry (added b k v h) = (entry h)(hbrk h \<mapsto> (k, v))"
    using first_alloc [OF rep b]
    by (fastforce simp: entry_def added_def fun_eq_iff split: option.splits)
qed

lemma bucket_of_cong: "hash_fn h' = hash_fn h \<Longrightarrow> buckets h' = buckets h \<Longrightarrow> bucket_of h' = bucket_of h"
  by (simp add: bucket_of_def fun_eq_iff)

lemma added_frame:
  "hash_fn (added b k v h) = hash_fn h" "buckets (added b k v h) = buckets h"
  "length (nodes (added b k v h)) = length (nodes h)" "hbrk (added b k v h) = Suc (hbrk h)"
  "nodes (added b k v h) = (nodes h)[b := Some (hbrk h)]"
  by (simp_all add: added_def)

lemma node_less_brk:
  assumes rep: "hash_rep ks h c" and i: "i < length (nodes h)" and p: "p \<in> set (c i)"
  shows "p < hbrk h"
  using hash_repD(5) [OF rep i p] hash_repD(3) [OF rep, of p] by auto

lemma added_chain:
  assumes rep: "hash_rep ks h c" and b: "b < length (nodes h)" and i: "i < length (nodes h)"
  shows "chain (added b k v h) i ((c(b := hbrk h # c b)) i)"
proof -
  obtain l where seg: "dseg (hprev h) (hnext h) None (nodes h ! i) (c i) l None"
    using hash_repD(4) [OF rep i] by (auto simp: chain_def)
  have new: "hbrk h \<notin> set (c i)" using node_less_brk [OF rep i] by blast
  show ?thesis
  proof (cases "i = b")
    case True
    have "dseg (hprev (added b k v h)) (hnext (added b k v h)) None (Some (hbrk h)) (hbrk h # c i)
        (if nodes h ! i = None then Some (hbrk h) else l) None"
      using seg new added_links(1,2) [OF rep b] unfolding True by (rule dseg_link_front)
    then show ?thesis using True b by (auto simp: chain_def added_frame)
  next
    case False
    have "hprev (added b k v h) p = hprev h p \<and> hnext (added b k v h) p = hnext h p"
      if p: "p \<in> set (c i)" for p
    proof -
      have "p \<noteq> hbrk h" using new p by blast
      moreover have "nodes h ! b \<noteq> Some p"
        using first_alloc(1) [OF rep b] other_bucket [OF rep i b False] p by blast
      ultimately show ?thesis
        by (auto simp: added_links [OF rep b] set_at_def split: option.splits)
    qed
    then have "dseg (hprev (added b k v h)) (hnext (added b k v h)) None (nodes h ! i) (c i) l None"
      using seg by (subst dseg_cong) auto
    then show ?thesis using False by (auto simp: chain_def added_frame)
  qed
qed

lemma added_rep:
  assumes rep: "hash_rep ks h c" and k: "length k = ks" and none: "hash_abs ks h k = None"
  shows "hash_rep ks (added (bucket_of h k) k v h)
    (c(bucket_of h k := hbrk h # c (bucket_of h k)))" (is "hash_rep ks ?h ?c")
proof -
  let ?b = "bucket_of h k"
  have b: "?b < length (nodes h)" using bucket_of_less(1) [OF rep k] .
  have e: "entry ?h = (entry h)(hbrk h \<mapsto> (k, v))" by (rule added_links(3) [OF rep b])
  have bo: "bucket_of ?h = bucket_of h" by (intro bucket_of_cong) (simp_all add: added_frame)
  have old: "entry ?h p = entry h p" if "i < length (nodes h)" "p \<in> set (c i)" for i p
    using node_less_brk [OF rep that] by (simp add: e)
  have nokey: "key_of h p \<noteq> Some k" if "p \<in> set (c ?b)" for p
    using hash_abs_iff [OF rep k] none that by (force simp: key_of_def)
  have "inj_on (key_of ?h) (set (?c i))" if i: "i < length (nodes h)" for i
  proof -
    have "inj_on (key_of ?h) (set (c i))"
      using hash_repD(6) [OF rep i] old [OF i] by (auto simp: inj_on_def key_of_def)
    moreover have "Some k \<notin> key_of ?h ` set (c ?b)"
    proof
      assume "Some k \<in> key_of ?h ` set (c ?b)"
      then obtain p where p: "p \<in> set (c ?b)" "key_of ?h p = Some k" by force
      with nokey [OF p(1)] old [OF b p(1)] show False by (simp add: key_of_def)
    qed
    moreover have "key_of ?h (hbrk h) = Some k" by (simp add: key_of_def e)
    ultimately show ?thesis by (simp add: inj_on_insert) (metis Diff_subset image_mono subsetD)
  qed
  moreover have "\<exists>k v. entry ?h p = Some (k, v) \<and> length k = ks \<and> bucket_of ?h k = i"
    if i: "i < length (nodes h)" and p: "p \<in> set (?c i)" for i p
  proof (cases "p = hbrk h")
    case True
    with p have "i = ?b" using node_less_brk [OF rep i] by (auto split: if_splits)
    with True k show ?thesis by (simp add: e bo)
  next
    case False
    with p have "p \<in> set (c i)" by (auto split: if_splits)
    with old [OF i this] hash_repD(5) [OF rep i this] show ?thesis by (simp add: bo)
  qed
  moreover have "\<forall>p. entry ?h p \<noteq> None \<longrightarrow> p < hbrk ?h"
    using hash_repD(3) [OF rep] by (auto simp: e added_frame intro: less_SucI)
  moreover have "hash_ok ks ?h" using hash_repD(1) [OF rep] by (simp add: hash_ok_def added_frame)
  ultimately show ?thesis
    using added_chain [OF rep b] hash_repD(2) [OF rep] unfolding hash_rep_def
    by (simp add: added_frame)
qed

lemma hash_add_new:
  assumes inv: "hash_inv ks h" and k: "length k = ks" and none: "hash_abs ks h k = None"
    and v: "vs \<le> length v"
  shows "\<exists>h'. hash_add_entry h k ks v vs = Inr h' \<and> hash_inv ks h'
    \<and> hash_abs ks h' = (hash_abs ks h)(k \<mapsto> take vs v)"
proof -
  from inv obtain c where rep: "hash_rep ks h c" by (auto simp: hash_inv_def)
  let ?b = "bucket_of h k" and ?h = "added (bucket_of h k) k (take vs v) h"
  have b: "?b < length (nodes h)" using bucket_of_less(1) [OF rep k] .
  have rep': "hash_rep ks ?h (c(?b := hbrk h # c ?b))" using rep k none by (rule added_rep)
  have e: "entry ?h = (entry h)(hbrk h \<mapsto> (k, take vs v))" by (rule added_links(3) [OF rep b])
  have bo: "bucket_of ?h = bucket_of h" by (intro bucket_of_cong) (simp_all add: added_frame)
  have nokey: "entry h p \<noteq> Some (k, w)" if "p \<in> set (c ?b)" for p w
    using hash_abs_iff [OF rep k] none that by force
  have old: "entry ?h p = entry h p" if "i < length (nodes h)" "p \<in> set (c i)" for i p
    using node_less_brk [OF rep that] by (simp add: e)
  have "hash_abs ks ?h = (hash_abs ks h)(k := Some (take vs v))"
  proof (rule hash_abs_update [OF rep rep' bo k])
    show "(\<exists>p \<in> set ((c(?b := hbrk h # c ?b)) ?b). entry ?h p = Some (k, w)) \<longleftrightarrow> Some (take vs v) = Some w" for w
      using nokey old [OF b] by (auto simp: e)
    fix k' w assume k': "length k' = ks" "k' \<noteq> k"
    have b': "bucket_of h k' < length (nodes h)" using bucket_of_less(1) [OF rep k'(1)] .
    show "(\<exists>p \<in> set ((c(?b := hbrk h # c ?b)) (bucket_of h k')). entry ?h p = Some (k', w))
        \<longleftrightarrow> (\<exists>p \<in> set (c (bucket_of h k')). entry h p = Some (k', w))"
      using old [OF b'] k'(2) by (auto simp: e)
  qed
  then show ?thesis
    using hash_add_entry_added [OF rep k none v] rep' by (auto simp: hash_inv_def)
qed

lemma hash_add_duplicate:
  assumes inv: "hash_inv ks h" and k: "length k = ks" and some: "hash_abs ks h k = Some w"
  shows "hash_add_entry h k ks v vs = Inr h"
proof -
  from inv obtain c where rep: "hash_rep ks h c" by (auto simp: hash_inv_def)
  from some hash_abs_none_iff [OF rep k] get_node_eq [OF rep k]
  obtain p where "hash_get_node_by_key h k ks = Inr (Some p)" by fastforce
  then show ?thesis by (simp add: hash_add_entry_def hash_lookup_entry_def)
qed

section \<open>Removal\<close>

definition removed :: "nat \<Rightarrow> nat \<Rightarrow> hash_node \<Rightarrow> hash_t \<Rightarrow> hash_t" where
  "removed b p n h = h\<lparr>
     nodes := (if hn_prev n = None then (nodes h)[b := hn_next n] else nodes h),
     hheap := (let g1 = (case hn_prev n of None \<Rightarrow> hheap h
                 | Some q \<Rightarrow> (hheap h)(q \<mapsto> the (hheap h q)\<lparr>hn_next := hn_next n\<rparr>));
                   g2 = (case hn_next n of None \<Rightarrow> g1
                 | Some r \<Rightarrow> g1(r \<mapsto> the (g1 r)\<lparr>hn_prev := hn_prev n\<rparr>))
               in g2(p := None))\<rparr>"

lemma removed_frame:
  "hash_fn (removed b p n h) = hash_fn h" "buckets (removed b p n h) = buckets h"
  "length (nodes (removed b p n h)) = length (nodes h)" "hbrk (removed b p n h) = hbrk h"
  by (simp_all add: removed_def)

lemma neighbours:
  assumes rep: "hash_rep ks h c" and b: "b < length (nodes h)" and p: "p \<in> set (c b)"
    and n: "hheap h p = Some n"
  shows "hn_prev n = Some q \<Longrightarrow> q \<in> set (c b) \<and> q \<noteq> p \<and> hheap h q \<noteq> None"
    and "hn_next n = Some r \<Longrightarrow> r \<in> set (c b) \<and> r \<noteq> p \<and> hheap h r \<noteq> None"
proof -
  obtain l where seg: "dseg (hprev h) (hnext h) None (nodes h ! b) (c b) l None"
    using hash_repD(4) [OF rep b] by (auto simp: chain_def)
  from p obtain xs ys where c: "c b = xs @ p # ys" by (meson split_list)
  have d: "distinct (xs @ p # ys)" using dseg_distinct [OF seg] c by simp
  have X: "dseg (hprev h) (hnext h) None (nodes h ! b) xs (hn_prev n) (Some p)"
    and Y: "dseg (hprev h) (hnext h) (Some p) (hn_next n) ys l None"
    using seg n c by (auto simp: dseg_append hprev_def hnext_def)
  have al: "hheap h q \<noteq> None" if "q \<in> set (c b)" for q
    using hash_repD(5) [OF rep b that] by (auto simp: entry_node)
  show "q \<in> set (c b) \<and> q \<noteq> p \<and> hheap h q \<noteq> None" if "hn_prev n = Some q"
    using dseg_last [OF X] that d c al [of q] by (auto split: if_splits)
  show "r \<in> set (c b) \<and> r \<noteq> p \<and> hheap h r \<noteq> None" if "hn_next n = Some r"
    using dseg_head [OF Y] that d c al [of r] by (auto split: list.splits)
qed

lemma hash_free_entry_removed:
  assumes rep: "hash_rep ks h c" and k: "length k = ks"
    and get: "hash_get_node_by_key h k ks = Inr (Some p)" and p: "p \<in> set (c (bucket_of h k))"
    and n: "hheap h p = Some n"
  shows "hash_free_entry h k ks = Inr (removed (bucket_of h k) p n h)"
proof -
  have b: "bucket_of h k < length (nodes h)" "hash_get_bucket h k = Inr (bucket_of h k)"
    using bucket_of_less [OF rep k] by auto
  note prev = neighbours(1) [OF rep b(1) p n] and "next" = neighbours(2) [OF rep b(1) p n]
  show ?thesis
    using get n b prev "next"
    by (cases "hn_prev n"; cases "hn_next n")
      (auto simp: hash_free_entry_def upd_hnode_def removed_def Let_def)
qed

lemma removed_links:
  assumes rep: "hash_rep ks h c" and b: "b < length (nodes h)" and p: "p \<in> set (c b)"
    and n: "hheap h p = Some n"
  shows "q \<noteq> p \<Longrightarrow> hprev (removed b p n h) q = set_at (hn_next n) (hn_prev n) (hprev h) q"
    and "q \<noteq> p \<Longrightarrow> hnext (removed b p n h) q = set_at (hn_prev n) (hn_next n) (hnext h) q"
    and "entry (removed b p n h) = (entry h)(p := None)"
proof -
  note prev = neighbours(1) [OF rep b p n] and "next" = neighbours(2) [OF rep b p n]
  show "q \<noteq> p \<Longrightarrow> hprev (removed b p n h) q = set_at (hn_next n) (hn_prev n) (hprev h) q"
    using prev "next" by (fastforce simp: hprev_def removed_def Let_def set_at_def split: option.splits)
  show "q \<noteq> p \<Longrightarrow> hnext (removed b p n h) q = set_at (hn_prev n) (hn_next n) (hnext h) q"
    using prev "next" by (fastforce simp: hnext_def removed_def Let_def set_at_def split: option.splits)
  show "entry (removed b p n h) = (entry h)(p := None)"
    using prev "next" by (fastforce simp: entry_def removed_def Let_def fun_eq_iff split: option.splits)
qed

lemma removed_chain:
  assumes rep: "hash_rep ks h c" and b: "b < length (nodes h)" and p: "p \<in> set (c b)"
    and n: "hheap h p = Some n" and i: "i < length (nodes h)"
  shows "chain (removed b p n h) i ((c(b := remove1 p (c b))) i)" (is "chain ?h i _")
proof -
  obtain l where seg: "dseg (hprev h) (hnext h) None (nodes h ! i) (c i) l None"
    using hash_repD(4) [OF rep i] by (auto simp: chain_def)
  note links = removed_links [OF rep b p n]
  show ?thesis
  proof (cases "i = b")
    case True
    from p obtain xs ys where c: "c b = xs @ p # ys" by (meson split_list)
    have d: "distinct (xs @ p # ys)" using dseg_distinct [OF seg] c True by simp
    then have rm: "remove1 p (c b) = xs @ ys" by (simp add: c remove1_append)
    have un: "dseg (set_at (hn_next n) (hn_prev n) (hprev h)) (set_at (hn_prev n) (hn_next n) (hnext h))
        None (if hn_prev n = None then hn_next n else nodes h ! b) (xs @ ys)
        (if hn_next n = None then hn_prev n else l) None"
      using seg n c True by (intro dseg_unlink) (auto simp: hprev_def hnext_def)
    have ne: "q \<noteq> p" if "q \<in> set (xs @ ys)" for q using that d by auto
    have "dseg (hprev ?h) (hnext ?h) None (if hn_prev n = None then hn_next n else nodes h ! b) (xs @ ys)
        (if hn_next n = None then hn_prev n else l) None"
      using un by (subst dseg_cong) (simp_all add: links ne)
    moreover have "nodes ?h ! b = (if hn_prev n = None then hn_next n else nodes h ! b)"
      using b by (simp add: removed_def)
    ultimately show ?thesis using True rm by (auto simp: chain_def)
  next
    case False
    have "hprev ?h q = hprev h q \<and> hnext ?h q = hnext h q" if q: "q \<in> set (c i)" for q
    proof -
      have "q \<notin> set (c b)" using other_bucket [OF rep i b False] q by blast
      then have "q \<noteq> p" "hn_prev n \<noteq> Some q" "hn_next n \<noteq> Some q"
        using p neighbours [OF rep b p n] by auto
      then show ?thesis by (auto simp: links set_at_def split: option.splits)
    qed
    then have "dseg (hprev ?h) (hnext ?h) None (nodes h ! i) (c i) l None"
      using seg by (subst dseg_cong) auto
    moreover have "nodes ?h ! i = nodes h ! i" using False by (simp add: removed_def)
    ultimately show ?thesis using False by (auto simp: chain_def)
  qed
qed

lemma removed_rep:
  assumes rep: "hash_rep ks h c" and b: "b < length (nodes h)" and p: "p \<in> set (c b)"
    and n: "hheap h p = Some n"
  shows "hash_rep ks (removed b p n h) (c(b := remove1 p (c b)))" (is "hash_rep ks ?h ?c")
proof -
  have e: "entry ?h = (entry h)(p := None)" by (rule removed_links(3) [OF rep b p n])
  have bo: "bucket_of ?h = bucket_of h" by (intro bucket_of_cong) (simp_all add: removed_frame)
  have d: "distinct (c b)"
    using hash_repD(4) [OF rep b] by (auto simp: chain_def dest: dseg_distinct)
  have sub: "q \<in> set (c i) \<and> q \<noteq> p" if "q \<in> set (?c i)" "i < length (nodes h)" for i q
    using that d other_bucket [OF rep that(2) b] p by (auto split: if_splits)
  have "\<exists>k v. entry ?h q = Some (k, v) \<and> length k = ks \<and> bucket_of ?h k = i"
    if "i < length (nodes h)" "q \<in> set (?c i)" for i q
  proof -
    have "q \<in> set (c i)" "q \<noteq> p" using sub [OF that(2,1)] by auto
    with hash_repD(5) [OF rep that(1)] show ?thesis by (simp add: e bo)
  qed
  moreover have "inj_on (key_of ?h) (set (?c i))" if i: "i < length (nodes h)" for i
  proof (rule inj_onI)
    fix q r assume qr: "q \<in> set (?c i)" "r \<in> set (?c i)" "key_of ?h q = key_of ?h r"
    have "key_of ?h q = key_of h q" "key_of ?h r = key_of h r"
      using sub [OF qr(1) i] sub [OF qr(2) i] by (simp_all add: key_of_def e)
    with qr sub [OF qr(1) i] sub [OF qr(2) i] show "q = r"
      using inj_onD [OF hash_repD(6) [OF rep i]] by metis
  qed
  moreover have "\<forall>q. entry ?h q \<noteq> None \<longrightarrow> q < hbrk ?h"
    using hash_repD(3) [OF rep] by (auto simp: e removed_frame)
  moreover have "hash_ok ks ?h" using hash_repD(1) [OF rep] by (simp add: hash_ok_def removed_frame)
  ultimately show ?thesis
    using removed_chain [OF rep b p n] hash_repD(2) [OF rep] unfolding hash_rep_def
    by (simp add: removed_frame)
qed

lemma hash_free_present:
  assumes inv: "hash_inv ks h" and k: "length k = ks"
  shows "\<exists>h'. hash_free_entry h k ks = Inr h' \<and> hash_inv ks h'
    \<and> hash_abs ks h' = (hash_abs ks h)(k := None)"
proof -
  from inv obtain c where rep: "hash_rep ks h c" by (auto simp: hash_inv_def)
  let ?b = "bucket_of h k"
  have b: "?b < length (nodes h)" using bucket_of_less(1) [OF rep k] .
  show ?thesis
  proof (cases "hash_abs ks h k")
    case None
    then have "hash_free_entry h k ks = Inr h"
      using hash_abs_none_iff [OF rep k] by (simp add: hash_free_entry_def)
    moreover have "hash_abs ks h = (hash_abs ks h)(k := None)" using None by (simp add: fun_eq_iff)
    ultimately show ?thesis using inv by auto
  next
    case (Some w)
    then obtain p where p: "p \<in> set (c ?b)" "hash_get_node_by_key h k ks = Inr (Some p)" "key_of h p = Some k"
      using hash_abs_none_iff [OF rep k] get_node_eq [OF rep k]
      by (cases "find (\<lambda>p. key_of h p = Some k) (c ?b)") (auto dest: find_SomeD)
    then obtain n where n: "hheap h p = Some n" by (auto simp: key_of_def entry_def)
    let ?h = "removed ?b p n h" and ?c = "c(?b := remove1 p (c ?b))"
    have rep': "hash_rep ks ?h ?c" using rep b p(1) n by (rule removed_rep)
    have e: "entry ?h = (entry h)(p := None)" by (rule removed_links(3) [OF rep b p(1) n])
    have bo: "bucket_of ?h = bucket_of h" by (intro bucket_of_cong) (simp_all add: removed_frame)
    have d: "distinct (c ?b)"
      using hash_repD(4) [OF rep b] by (auto simp: chain_def dest: dseg_distinct)
    have "hash_abs ks ?h = (hash_abs ks h)(k := None)"
    proof (rule hash_abs_update [OF rep rep' bo k])
      show "(\<exists>q \<in> set (?c ?b). entry ?h q = Some (k, v)) \<longleftrightarrow> None = Some v" for v
      proof -
        have "q = p" if "q \<in> set (c ?b)" "entry h q = Some (k, v)" for q
        proof (rule inj_onD [OF hash_repD(6) [OF rep b] _ that(1) p(1)])
          have "key_of h q = Some k" using that(2) by (simp add: key_of_def)
          with p(3) show "key_of h q = key_of h p" by simp
        qed
        with d show ?thesis by (auto simp: e)
      qed
      fix k' v assume k': "length k' = ks" "k' \<noteq> k"
      have "q \<in> set (?c (bucket_of h k')) \<and> q \<noteq> p \<longleftrightarrow> q \<in> set (c (bucket_of h k')) \<and> q \<noteq> p" for q
        using d by auto
      moreover have "entry h p \<noteq> Some (k', v)" using p(3) k'(2) by (auto simp: key_of_def)
      ultimately show "(\<exists>q \<in> set (?c (bucket_of h k')). entry ?h q = Some (k', v))
          \<longleftrightarrow> (\<exists>q \<in> set (c (bucket_of h k')). entry h q = Some (k', v))"
        unfolding e by (metis fun_upd_apply option.distinct(1))
    qed
    with rep' hash_free_entry_removed [OF rep k p(2,1) n] show ?thesis by (auto simp: hash_inv_def)
  qed
qed

section \<open>Writing through a value pointer\<close>

lemma hash_lookup_some:
  assumes inv: "hash_inv ks h" and k: "length k = ks" and some: "hash_abs ks h k = Some v"
  shows "\<exists>p. hash_lookup_entry h k ks = Inr (Some p) \<and> value_at h p = Inr v \<and>
    (\<forall>w. length w = length v \<longrightarrow> (\<exists>h'. store_value h p w = Inr h' \<and> hash_inv ks h'
       \<and> hash_abs ks h' = (hash_abs ks h)(k \<mapsto> w)))"
proof -
  from inv obtain c where rep: "hash_rep ks h c" by (auto simp: hash_inv_def)
  let ?b = "bucket_of h k"
  have b: "?b < length (nodes h)" using bucket_of_less(1) [OF rep k] .
  obtain p where p: "p \<in> set (c ?b)" "hash_get_node_by_key h k ks = Inr (Some p)" "key_of h p = Some k"
    using some hash_abs_none_iff [OF rep k] get_node_eq [OF rep k]
    by (cases "find (\<lambda>p. key_of h p = Some k) (c ?b)") (auto dest: find_SomeD)
  have ev: "entry h p = Some (k, v)"
    using p(2,3) some k by (auto simp: hash_abs_def key_of_def)
  then obtain n where n: "hheap h p = Some n" "hn_key n = k" "hn_value n = v" by (auto simp: entry_node)
  have "\<exists>h'. store_value h p w = Inr h' \<and> hash_inv ks h' \<and> hash_abs ks h' = (hash_abs ks h)(k \<mapsto> w)"
    if w: "length w = length v" for w
  proof -
    let ?h = "h\<lparr>hheap := (hheap h)(p \<mapsto> n\<lparr>hn_value := w\<rparr>)\<rparr>"
    have st: "store_value h p w = Inr ?h"
      using n w by (simp add: store_value_def value_at_def upd_hnode_def blit_def)
    have links: "hprev ?h = hprev h" "hnext ?h = hnext h"
      using n by (auto simp: hprev_def hnext_def fun_eq_iff)
    have e: "entry ?h = (entry h)(p \<mapsto> (k, w))" using n by (auto simp: entry_def fun_eq_iff)
    have bo: "bucket_of ?h = bucket_of h" by (intro bucket_of_cong) simp_all
    have key: "key_of ?h = key_of h" using ev by (auto simp: key_of_def e fun_eq_iff)
    have "chain ?h i (c i)" if "i < length (nodes h)" for i
      using hash_repD(4) [OF rep that] by (simp add: chain_def links)
    moreover have "\<exists>k v. entry ?h q = Some (k, v) \<and> length k = ks \<and> bucket_of ?h k = i"
      if "i < length (nodes h)" "q \<in> set (c i)" for i q
      using hash_repD(5) [OF rep that] ev by (auto simp: e bo)
    moreover have "\<forall>q. entry ?h q \<noteq> None \<longrightarrow> q < hbrk ?h"
      using hash_repD(3) [OF rep] ev by (auto simp: e)
    ultimately have rep': "hash_rep ks ?h c"
      using hash_repD(1,2,6) [OF rep] unfolding hash_rep_def key by (simp add: hash_ok_def)
    have uniq: "q = p" if "q \<in> set (c ?b)" "key_of h q = Some k" for q
      using inj_onD [OF hash_repD(6) [OF rep b] _ that(1) p(1)] that p(3) by simp
    have "hash_abs ks ?h = (hash_abs ks h)(k := Some w)"
    proof (rule hash_abs_update [OF rep rep' bo k])
      show "(\<exists>q \<in> set (c ?b). entry ?h q = Some (k, x)) \<longleftrightarrow> Some w = Some x" for x
      proof
        assume "\<exists>q \<in> set (c ?b). entry ?h q = Some (k, x)"
        then obtain q where q: "q \<in> set (c ?b)" "entry ?h q = Some (k, x)" by blast
        then have "key_of h q = Some k" using ev by (auto simp: e key_of_def split: if_splits)
        with q uniq have "q = p" by blast
        with q(2) show "Some w = Some x" by (simp add: e)
      qed (use p(1) e in auto)
      show "(\<exists>q \<in> set (c (bucket_of h k')). entry ?h q = Some (k', x))
          \<longleftrightarrow> (\<exists>q \<in> set (c (bucket_of h k')). entry h q = Some (k', x))" if "k' \<noteq> k" for k' x
      proof -
        have "entry ?h q = Some (k', x) \<longleftrightarrow> entry h q = Some (k', x)" for q
          using that ev by (auto simp: e)
        then show ?thesis by simp
      qed
    qed
    with st rep' show ?thesis by (auto simp: hash_inv_def)
  qed
  then show ?thesis using p(2) n by (auto simp: hash_lookup_entry_def value_at_def)
qed

lemma new_table_inv:
  assumes "\<forall>k. length k = ks \<longrightarrow> (\<exists>i. func n k = Inr i \<and> i < n)"
  shows "hash_inv ks (new_table n func (unat n))" and "hash_abs ks (new_table n func (unat n)) = Map.empty"
proof -
  have rep: "hash_rep ks (new_table n func (unat n)) (\<lambda>_. [])"
    using assms by (auto simp: hash_rep_def new_table_def hash_ok_def chain_def entry_def)
  then show "hash_inv ks (new_table n func (unat n))" by (auto simp: hash_inv_def)
  show "hash_abs ks (new_table n func (unat n)) = Map.empty"
  proof
    fix k show "hash_abs ks (new_table n func (unat n)) k = None"
      using hash_abs_iff [OF rep, of k] by (cases "length k = ks") (auto simp: hash_abs_def)
  qed
qed

section \<open>The interface of the table\<close>

text \<open>
  \<open>look\<close> returns a pointer to the value of a key, \<open>rd\<close> and \<open>wr\<close> read and write through it,
  \<open>add\<close> inserts a copy of a value and \<open>del\<close> removes an entry.
\<close>

locale table =
  fixes look :: "'h \<Rightarrow> bytes \<Rightarrow> ptr res"
    and rd :: "'h \<Rightarrow> nat \<Rightarrow> bytes res"
    and wr :: "'h \<Rightarrow> nat \<Rightarrow> bytes \<Rightarrow> 'h res"
    and add :: "'h \<Rightarrow> bytes \<Rightarrow> bytes \<Rightarrow> 'h res"
    and del :: "'h \<Rightarrow> bytes \<Rightarrow> 'h res"
    and inv :: "'h \<Rightarrow> bool"
    and abs :: "'h \<Rightarrow> bytes \<Rightarrow> bytes option"
    and valid :: "bytes \<Rightarrow> bool"
  assumes look_none: "inv h \<Longrightarrow> valid k \<Longrightarrow> abs h k = None \<Longrightarrow> look h k = Inr None"
    and look_some: "inv h \<Longrightarrow> valid k \<Longrightarrow> abs h k = Some v \<Longrightarrow>
      \<exists>p. look h k = Inr (Some p) \<and> rd h p = Inr v \<and>
        (\<forall>w. length w = length v \<longrightarrow> (\<exists>h'. wr h p w = Inr h' \<and> inv h' \<and> abs h' = (abs h)(k \<mapsto> w)))"
    and add_new: "inv h \<Longrightarrow> valid k \<Longrightarrow> valid v \<Longrightarrow> abs h k = None \<Longrightarrow>
      \<exists>h'. add h k v = Inr h' \<and> inv h' \<and> abs h' = (abs h)(k \<mapsto> v)"
    and del_any: "inv h \<Longrightarrow> valid k \<Longrightarrow> \<exists>h'. del h k = Inr h' \<and> inv h' \<and> abs h' = (abs h)(k := None)"

text \<open>The table of the program with keys and values of four bytes (\<open>unsigned\<close> and \<open>pid_t\<close>).\<close>

interpretation ht: table "\<lambda>h k. hash_lookup_entry h k 4" value_at store_value
  "\<lambda>h k v. hash_add_entry h k 4 v 4" "\<lambda>h k. hash_free_entry h k 4"
  "hash_inv 4" "hash_abs 4" "\<lambda>k. length k = 4"
proof unfold_locales
  fix h and k v :: bytes
  assume inv: "hash_inv 4 h" and k: "length k = 4"
  show "hash_lookup_entry h k 4 = Inr None" if "hash_abs 4 h k = None"
    using inv that k hash_abs_none_iff by (auto simp: hash_inv_def hash_lookup_entry_def)
  show "\<exists>p. hash_lookup_entry h k 4 = Inr (Some p) \<and> value_at h p = Inr v \<and>
      (\<forall>w. length w = length v \<longrightarrow> (\<exists>h'. store_value h p w = Inr h' \<and> hash_inv 4 h'
         \<and> hash_abs 4 h' = (hash_abs 4 h)(k \<mapsto> w)))" if "hash_abs 4 h k = Some v"
    using inv k that by (rule hash_lookup_some)
  show "\<exists>h'. hash_add_entry h k 4 v 4 = Inr h' \<and> hash_inv 4 h' \<and> hash_abs 4 h' = (hash_abs 4 h)(k \<mapsto> v)"
    if "length v = 4" "hash_abs 4 h k = None"
    using hash_add_new [OF inv k that(2), of 4 v] that(1) by simp
  show "\<exists>h'. hash_free_entry h k 4 = Inr h' \<and> hash_inv 4 h' \<and> hash_abs 4 h' = (hash_abs 4 h)(k := None)"
    using inv k by (rule hash_free_present)
qed

section \<open>The table implements a map\<close>

datatype hash_op = HAdd bytes bytes | HFree bytes

text \<open>Calls with keys of \<open>ks\<close> bytes and values of \<open>vs\<close> bytes.\<close>

fun hash_step :: "nat \<Rightarrow> nat \<Rightarrow> hash_op \<Rightarrow> hash_t \<Rightarrow> hash_t res" where
  "hash_step ks vs (HAdd k v) h = hash_add_entry h k ks v vs"
| "hash_step ks vs (HFree k) h = hash_free_entry h k ks"

fun hash_run :: "nat \<Rightarrow> nat \<Rightarrow> hash_op list \<Rightarrow> hash_t \<Rightarrow> hash_t res" where
  "hash_run ks vs [] h = Inr h"
| "hash_run ks vs (x # xs) h = bnd (hash_step ks vs x h) (hash_run ks vs xs)"

text \<open>The specification: an insertion keeps the old value of a key that is there.\<close>

fun map_step :: "hash_op \<Rightarrow> (bytes \<rightharpoonup> bytes) \<Rightarrow> (bytes \<rightharpoonup> bytes)" where
  "map_step (HAdd k v) m = (if m k = None then m(k \<mapsto> v) else m)"
| "map_step (HFree k) m = m(k := None)"

definition op_ok :: "nat \<Rightarrow> nat \<Rightarrow> hash_op \<Rightarrow> bool" where
  "op_ok ks vs x = (case x of HAdd k v \<Rightarrow> length k = ks \<and> length v = vs | HFree k \<Rightarrow> length k = ks)"

definition lookup_value :: "nat \<Rightarrow> hash_t \<Rightarrow> bytes \<Rightarrow> bytes option res" where
  "lookup_value ks h k = bnd (hash_lookup_entry h k ks) (\<lambda>p. case p of
     None \<Rightarrow> Inr None | Some q \<Rightarrow> bnd (value_at h q) (\<lambda>v. Inr (Some v)))"

lemma hash_step_map:
  assumes "hash_inv ks h" "op_ok ks vs x"
  shows "\<exists>h'. hash_step ks vs x h = Inr h' \<and> hash_inv ks h' \<and> hash_abs ks h' = map_step x (hash_abs ks h)"
proof (cases x)
  case (HAdd k v)
  with assms have k: "length k = ks" "length v = vs" by (auto simp: op_ok_def)
  show ?thesis
  proof (cases "hash_abs ks h k")
    case None
    with hash_add_new [OF assms(1) k(1) None, of vs v] k(2) HAdd show ?thesis by simp
  next
    case (Some w)
    with hash_add_duplicate [OF assms(1) k(1) Some] HAdd assms(1) show ?thesis by simp
  qed
next
  case (HFree k)
  with assms hash_free_present [OF assms(1), of k] show ?thesis by (simp add: op_ok_def)
qed

lemma hash_run_map:
  assumes "hash_inv ks h" "\<forall>x \<in> set xs. op_ok ks vs x"
  shows "\<exists>h'. hash_run ks vs xs h = Inr h' \<and> hash_inv ks h' \<and> hash_abs ks h' = fold map_step xs (hash_abs ks h)"
  using assms
proof (induction xs arbitrary: h)
  case (Cons x xs)
  then obtain h1 where "hash_step ks vs x h = Inr h1" "hash_inv ks h1" "hash_abs ks h1 = map_step x (hash_abs ks h)"
    using hash_step_map [of ks h vs x] by auto
  with Cons.IH [of h1] Cons.prems show ?case by simp
qed simp

lemma lookup_value_abs:
  assumes "hash_inv ks h" "length k = ks"
  shows "lookup_value ks h k = Inr (hash_abs ks h k)"
proof (cases "hash_abs ks h k")
  case None
  with assms hash_abs_none_iff show ?thesis
    by (auto simp: lookup_value_def hash_inv_def hash_lookup_entry_def)
next
  case (Some v)
  with hash_lookup_some [OF assms Some] show ?thesis by (auto simp: lookup_value_def)
qed

text \<open>C6: \<open>hash_alloc\<close> for fewer than \<open>2^28\<close> buckets, with a hash function that gives a bucket for
  every key of \<open>ks\<close> bytes, makes a table on which any sequence of insertions and removals of such keys,
  with values of \<open>vs\<close> bytes, runs without a fault; and a lookup afterwards returns what a finite map with
  the same history returns. An insertion of a key that is there leaves its value alone. (From \<open>2^28\<close>
  buckets on, the size of the array does not fit \<open>int\<close>.)\<close>

theorem hash_refines_map:
  assumes "\<forall>k. length k = ks \<longrightarrow> (\<exists>i. func n k = Inr i \<and> i < n)" "n < 0x10000000"
    and "\<forall>x \<in> set xs. op_ok ks vs x"
  shows "\<exists>h0 h. hash_alloc n func = Inr h0 \<and> hash_run ks vs xs h0 = Inr h
    \<and> (\<forall>k. length k = ks \<longrightarrow> lookup_value ks h k = Inr (fold map_step xs Map.empty k))"
proof -
  note al = new_table_inv [of ks func n, OF assms(1)]
  obtain h where "hash_run ks vs xs (new_table n func (unat n)) = Inr h" "hash_inv ks h"
    "hash_abs ks h = fold map_step xs Map.empty"
    using hash_run_map [OF al(1) assms(3)] al(2) by auto
  then show ?thesis using lookup_value_abs hash_alloc_eq [OF assms(2)] by auto
qed

theorem hash_refines_map_witness:
  "\<exists>h0 h. hash_alloc 1 (\<lambda>_ _. Inr 0) = Inr h0
    \<and> hash_run 4 1 [HAdd [1,0,0,0] [7], HAdd [2,0,0,0] [8], HAdd [1,0,0,0] [9], HFree [2,0,0,0]] h0 = Inr h
    \<and> lookup_value 4 h [1,0,0,0] = Inr (Some [7]) \<and> lookup_value 4 h [2,0,0,0] = Inr None"
proof -
  let ?xs = "[HAdd [1,0,0,0] [7], HAdd [2,0,0,0] [8], HAdd [1,0,0,0] [9], HFree [2,0,0,0]]"
  have "\<exists>h0 h. hash_alloc 1 (\<lambda>_ _. Inr 0) = Inr h0 \<and> hash_run 4 1 ?xs h0 = Inr h
    \<and> (\<forall>k. length k = 4 \<longrightarrow> lookup_value 4 h k = Inr (fold map_step ?xs Map.empty k))"
    by (rule hash_refines_map) (simp_all add: op_ok_def)
  then show ?thesis by auto
qed

text \<open>For \<open>2^29\<close> buckets the size is zero: the array has no room, and the first insertion faults.\<close>

lemma hash_alloc_overflows:
  "hash_alloc 0x20000000 func = Inr (new_table 0x20000000 func 0)"
  "hash_alloc 0x10000000 func = Inl NullDeref"
  by (simp_all add: hash_alloc_def to_int32_def)

lemma overflowed_table_faults:
  assumes "func 0x20000000 k = Inr i" "i < 0x20000000"
  shows "hash_add_entry (new_table 0x20000000 func 0) k ks v vs = Inl OutOfBounds"
  using assms
  by (simp add: hash_add_entry_def hash_lookup_entry_def hash_get_node_by_key_def hash_get_bucket_def new_table_def
      peek_at_def not_le)

end
