(* ===== verification/IpCount.thy ===== *)
theory IpCount
  imports HashTable
begin

text \<open>
  The connection counters of \<^verbatim>\<open>ftpepoll.cpp\<close>: \<open>hash_func\<close>, \<open>handle_ip_count\<close>,
  \<open>drop_ip_count\<close> and \<open>handle_sigchld\<close>. The counter operations are written over the
  operations of a table; their correctness is proved in the locale of that interface and
  holds for the program through its interpretation on \<^verbatim>\<open>hash.cpp\<close>.
\<close>

section \<open>Operations\<close>

definition hash_func :: "u32 \<Rightarrow> bytes \<Rightarrow> u32 res" where
  "hash_func n key = bnd (read_u32 key) (\<lambda>v. if n = 0 then Inl DivByZero else Inr (v mod n))"

definition ip_count_on ::
  "('h \<Rightarrow> bytes \<Rightarrow> ptr res) \<Rightarrow> ('h \<Rightarrow> nat \<Rightarrow> bytes res) \<Rightarrow> ('h \<Rightarrow> nat \<Rightarrow> bytes \<Rightarrow> 'h res) \<Rightarrow>
   ('h \<Rightarrow> bytes \<Rightarrow> bytes \<Rightarrow> 'h res) \<Rightarrow> 'h \<Rightarrow> bytes \<Rightarrow> (u32 \<times> 'h) res" where
  "ip_count_on look rd wr add h ip =
     bnd (look h ip) (\<lambda>pcnt.
     case pcnt of
       None \<Rightarrow>
         let cnt = 1 in
         bnd (add h ip (u32_bytes cnt)) (\<lambda>h. Inr (cnt, h))
     | Some p \<Rightarrow>
         bnd (rd h p) (\<lambda>b.
         bnd (read_u32 b) (\<lambda>cnt.
         let cnt = cnt + 1 in
         bnd (wr h p (u32_bytes cnt)) (\<lambda>h. Inr (cnt, h)))))"

definition drop_count_on ::
  "('h \<Rightarrow> bytes \<Rightarrow> ptr res) \<Rightarrow> ('h \<Rightarrow> nat \<Rightarrow> bytes res) \<Rightarrow> ('h \<Rightarrow> nat \<Rightarrow> bytes \<Rightarrow> 'h res) \<Rightarrow>
   ('h \<Rightarrow> bytes \<Rightarrow> 'h res) \<Rightarrow> 'h \<Rightarrow> bytes \<Rightarrow> 'h res" where
  "drop_count_on look rd wr del h ip =
     bnd (look h ip) (\<lambda>pcnt.
     case pcnt of
       None \<Rightarrow> Inr h
     | Some p \<Rightarrow>
         bnd (rd h p) (\<lambda>b.
         bnd (read_u32 b) (\<lambda>ret.
         if ret \<le> 0 then Inr h
         else
           let ret = ret - 1 in
           bnd (wr h p (u32_bytes ret)) (\<lambda>h.
           if ret = 0 then del h ip else Inr h))))"

definition handle_ip_count :: "hash_t \<Rightarrow> bytes \<Rightarrow> (u32 \<times> hash_t) res" where
  "handle_ip_count = ip_count_on (\<lambda>h k. hash_lookup_entry h k 4) value_at store_value
     (\<lambda>h k v. hash_add_entry h k 4 v 4)"

definition drop_ip_count :: "hash_t \<Rightarrow> bytes \<Rightarrow> hash_t res" where
  "drop_ip_count = drop_count_on (\<lambda>h k. hash_lookup_entry h k 4) value_at store_value
     (\<lambda>h k. hash_free_entry h k 4)"

text \<open>
  The three globals of \<^verbatim>\<open>ftpepoll.cpp\<close>. \<open>handle_sigchld\<close> gets the positive results of the
  successive \<open>waitpid\<close> calls.
\<close>

record counters =
  s_children :: u32
  s_ip_count_hash :: hash_t
  s_pid_ip_hash :: hash_t

definition init_counters :: counters where
  "init_counters = \<lparr>s_children = 0, s_ip_count_hash = new_table 256 hash_func 256,
     s_pid_ip_hash = new_table 256 hash_func 256\<rparr>"

fun handle_sigchld :: "u32 list \<Rightarrow> counters \<Rightarrow> counters res" where
  "handle_sigchld [] s = Inr s"
| "handle_sigchld (pid # pids) s =
     (let s = s\<lparr>s_children := s_children s - 1\<rparr>; key = u32_bytes pid in
      bnd (hash_lookup_entry (s_pid_ip_hash s) key 4) (\<lambda>ip.
      case ip of
        None \<Rightarrow> handle_sigchld pids s
      | Some p \<Rightarrow>
          bnd (value_at (s_pid_ip_hash s) p) (\<lambda>b.
          bnd (drop_ip_count (s_ip_count_hash s) b) (\<lambda>h.
          bnd (hash_free_entry (s_pid_ip_hash s) key 4) (\<lambda>g.
          handle_sigchld pids (s\<lparr>s_ip_count_hash := h, s_pid_ip_hash := g\<rparr>))))))"

section \<open>Counting over the interface of the table\<close>

text \<open>The count a map of bytes holds for an address; no entry counts as zero.\<close>

definition count_of :: "(bytes \<rightharpoonup> bytes) \<Rightarrow> u32 \<Rightarrow> nat" where
  "count_of m ip = (case m (u32_bytes ip) of
     None \<Rightarrow> 0 | Some b \<Rightarrow> (case read_u32 b of Inr n \<Rightarrow> unat n | Inl _ \<Rightarrow> 0))"

definition counts_ok :: "(bytes \<rightharpoonup> bytes) \<Rightarrow> bool" where
  "counts_ok m \<longleftrightarrow> (\<forall>ip b. m (u32_bytes ip) = Some b \<longrightarrow> (\<exists>n. b = u32_bytes n \<and> n \<noteq> 0))"

lemma count_of_upd:
  "count_of (m(u32_bytes ip := Some (u32_bytes n))) = (count_of m)(ip := unat n)"
  "count_of (m(u32_bytes ip := None)) = (count_of m)(ip := 0)"
  by (auto simp: count_of_def fun_eq_iff)

lemma counts_ok_upd:
  "counts_ok m \<Longrightarrow> n \<noteq> 0 \<Longrightarrow> counts_ok (m(u32_bytes ip := Some (u32_bytes n)))"
  "counts_ok m \<Longrightarrow> counts_ok (m(u32_bytes ip := None))"
  by (auto simp: counts_ok_def)

lemma counts_ok_cases:
  assumes "counts_ok m"
  obtains "m (u32_bytes ip) = None" "count_of m ip = 0"
  | n where "m (u32_bytes ip) = Some (u32_bytes n)" "n \<noteq> 0" "count_of m ip = unat n"
  using assms by (cases "m (u32_bytes ip)") (auto simp: counts_ok_def count_of_def)

lemma unat_Suc_word: "unat (n :: u32) + 1 < 2 ^ 32 \<Longrightarrow> unat (n + 1) = unat n + 1"
  by (simp add: unat_word_ariths)

lemma unat_pred_word: "(n :: u32) \<noteq> 0 \<Longrightarrow> unat (n - 1) = unat n - 1"
  by (simp add: unat_minus_one)

locale counter_table = table +
  assumes valid_bytes: "length k = 4 \<Longrightarrow> valid k"
begin

lemma count_up:
  assumes inv: "inv h" and ok: "counts_ok (abs h)" and room: "count_of (abs h) ip + 1 < 2 ^ 32"
  shows "\<exists>c h'. ip_count_on look rd wr add h (u32_bytes ip) = Inr (c, h') \<and> inv h' \<and> counts_ok (abs h')
    \<and> unat c = count_of (abs h) ip + 1 \<and> count_of (abs h') = (count_of (abs h))(ip := unat c)"
  using ok
proof (rule counts_ok_cases [of _ ip])
  assume none: "abs h (u32_bytes ip) = None" and c: "count_of (abs h) ip = 0"
  have v: "valid (u32_bytes w)" for w by (rule valid_bytes) simp
  obtain h' where "add h (u32_bytes ip) (u32_bytes 1) = Inr h'" "inv h'"
    "abs h' = (abs h)(u32_bytes ip \<mapsto> u32_bytes 1)"
    using add_new [OF inv v v none] by blast
  then show ?thesis using look_none [OF inv v none] ok c
    by (auto simp: ip_count_on_def count_of_upd counts_ok_upd)
next
  fix n assume n: "abs h (u32_bytes ip) = Some (u32_bytes n)" "n \<noteq> 0" "count_of (abs h) ip = unat n"
  have v: "valid (u32_bytes w)" for w by (rule valid_bytes) simp
  obtain p h' where "look h (u32_bytes ip) = Inr (Some p)" "rd h p = Inr (u32_bytes n)"
    "wr h p (u32_bytes (n + 1)) = Inr h'" "inv h'" "abs h' = (abs h)(u32_bytes ip \<mapsto> u32_bytes (n + 1))"
    using look_some [OF inv v n(1)] by (metis length_u32_bytes)
  moreover have s: "unat (n + 1) = unat n + 1" using room n(3) by (intro unat_Suc_word) simp
  then have "n + 1 \<noteq> 0" by (metis add_is_0 unat_eq_0 zero_neq_one)
  ultimately show ?thesis using ok n s
    by (auto simp: ip_count_on_def Let_def count_of_upd counts_ok_upd)
qed

lemma count_down:
  assumes inv: "inv h" and ok: "counts_ok (abs h)"
  shows "\<exists>h'. drop_count_on look rd wr del h (u32_bytes ip) = Inr h' \<and> inv h' \<and> counts_ok (abs h')
    \<and> count_of (abs h') = (count_of (abs h))(ip := count_of (abs h) ip - 1)"
  using ok
proof (rule counts_ok_cases [of _ ip])
  assume none: "abs h (u32_bytes ip) = None" and c: "count_of (abs h) ip = 0"
  then show ?thesis using look_none [OF inv valid_bytes none] inv ok
    by (auto simp: drop_count_on_def fun_eq_iff)
next
  fix n assume n: "abs h (u32_bytes ip) = Some (u32_bytes n)" "n \<noteq> 0" "count_of (abs h) ip = unat n"
  have v: "valid (u32_bytes w)" for w by (rule valid_bytes) simp
  obtain p h1 where h1: "look h (u32_bytes ip) = Inr (Some p)" "rd h p = Inr (u32_bytes n)"
    "wr h p (u32_bytes (n - 1)) = Inr h1" "inv h1" "abs h1 = (abs h)(u32_bytes ip \<mapsto> u32_bytes (n - 1))"
    using look_some [OF inv v n(1)] by (metis length_u32_bytes)
  obtain h2 where h2: "del h1 (u32_bytes ip) = Inr h2" "inv h2" "abs h2 = (abs h1)(u32_bytes ip := None)"
    using del_any [OF h1(4) v] by blast
  have pos: "\<not> n \<le> 0" using n(2) by (simp add: word_le_nat_alt unat_eq_zero)
  show ?thesis
  proof (cases "n = 1")
    case True
    with h1 h2 pos n ok show ?thesis
      by (auto simp: drop_count_on_def count_of_upd counts_ok_upd)
  next
    case False
    then have "n - 1 \<noteq> 0" by simp
    with h1 pos n ok show ?thesis
      by (auto simp: drop_count_on_def Let_def count_of_upd counts_ok_upd unat_pred_word)
  qed
qed

end

text \<open>The table of the program is such a table.\<close>

interpretation ct: counter_table "\<lambda>h k. hash_lookup_entry h k 4" value_at store_value
  "\<lambda>h k v. hash_add_entry h k 4 v 4" "\<lambda>h k. hash_free_entry h k 4"
  "hash_inv 4" "hash_abs 4" "\<lambda>k. length k = 4"
  by unfold_locales

lemma read_u32_total:
  assumes "length k = 4"
  shows "\<exists>v. read_u32 k = Inr v"
  using assms by (cases k rule: read_u32.cases) auto

lemma hash_func_bucket:
  assumes "n \<noteq> 0" "length k = 4"
  shows "\<exists>i. hash_func n k = Inr i \<and> i < n"
proof -
  from assms have "0 < n" by (simp add: word_neq_0_conv)
  moreover obtain v where "read_u32 k = Inr v" using read_u32_total assms(2) by blast
  ultimately show ?thesis using assms(1) by (simp add: hash_func_def word_mod_less_divisor)
qed

lemma empty_table:
  assumes "n \<noteq> 0"
  shows "hash_inv 4 (new_table n hash_func (unat n))" "hash_abs 4 (new_table n hash_func (unat n)) = Map.empty"
  using new_table_inv [of 4 hash_func n] hash_func_bucket [OF assms] by blast+

section \<open>The counters count\<close>

datatype ip_op = Arrive u32 | Leave u32

fun ip_step :: "ip_op \<Rightarrow> hash_t \<Rightarrow> hash_t res" where
  "ip_step (Arrive ip) h = bnd (handle_ip_count h (u32_bytes ip)) (\<lambda>(_, h). Inr h)"
| "ip_step (Leave ip) h = drop_ip_count h (u32_bytes ip)"

fun ip_run :: "ip_op list \<Rightarrow> hash_t \<Rightarrow> hash_t res" where
  "ip_run [] h = Inr h"
| "ip_run (x # xs) h = bnd (ip_step x h) (ip_run xs)"

text \<open>The specification: one counter for every address, which never goes below zero.\<close>

fun ip_spec :: "ip_op \<Rightarrow> (u32 \<Rightarrow> nat) \<Rightarrow> (u32 \<Rightarrow> nat)" where
  "ip_spec (Arrive ip) f = f(ip := f ip + 1)"
| "ip_spec (Leave ip) f = f(ip := f ip - 1)"

lemma ip_step_spec:
  assumes "hash_inv 4 h" "counts_ok (hash_abs 4 h)" "\<forall>ip. count_of (hash_abs 4 h) ip + 1 < 2 ^ 32"
  shows "\<exists>h'. ip_step x h = Inr h' \<and> hash_inv 4 h' \<and> counts_ok (hash_abs 4 h')
    \<and> count_of (hash_abs 4 h') = ip_spec x (count_of (hash_abs 4 h))"
proof (cases x)
  case (Arrive ip)
  with ct.count_up [OF assms(1,2), of ip] assms(3) show ?thesis
    by (auto simp: handle_ip_count_def)
next
  case (Leave ip)
  with ct.count_down [OF assms(1,2), of ip] show ?thesis by (auto simp: drop_ip_count_def)
qed

lemma ip_spec_bound: "\<forall>ip. f ip \<le> b \<Longrightarrow> ip_spec x f ip \<le> b + 1"
  by (cases x) (auto simp: le_SucI le_diff_conv)

lemma fold_ip_spec_bound: "\<forall>ip. f ip \<le> b \<Longrightarrow> fold ip_spec xs f ip \<le> b + length xs"
proof (induction xs arbitrary: f b)
  case (Cons x xs)
  have "\<forall>ip. ip_spec x f ip \<le> b + 1" using ip_spec_bound [OF Cons.prems] by blast
  from Cons.IH [OF this] show ?case by simp
qed simp

lemma ip_run_spec:
  assumes "hash_inv 4 h" "counts_ok (hash_abs 4 h)" "\<forall>ip. count_of (hash_abs 4 h) ip \<le> b"
    and "b + length xs < 2 ^ 32"
  shows "\<exists>h'. ip_run xs h = Inr h' \<and> hash_inv 4 h' \<and> counts_ok (hash_abs 4 h')
    \<and> count_of (hash_abs 4 h') = fold ip_spec xs (count_of (hash_abs 4 h))"
  using assms
proof (induction xs arbitrary: h b)
  case (Cons x xs)
  have "\<forall>ip. count_of (hash_abs 4 h) ip + 1 < 2 ^ 32"
  proof
    fix ip
    have "count_of (hash_abs 4 h) ip \<le> b" using Cons.prems(3) by blast
    with Cons.prems(4) show "count_of (hash_abs 4 h) ip + 1 < 2 ^ 32" by simp
  qed
  then obtain h1 where h1: "ip_step x h = Inr h1" "hash_inv 4 h1" "counts_ok (hash_abs 4 h1)"
    "count_of (hash_abs 4 h1) = ip_spec x (count_of (hash_abs 4 h))"
    using ip_step_spec [OF Cons.prems(1,2)] by blast
  have "\<forall>ip. count_of (hash_abs 4 h1) ip \<le> b + 1"
    using ip_spec_bound [OF Cons.prems(3)] by (simp add: h1(4))
  with Cons.IH [OF h1(2,3), of "b + 1"] Cons.prems(4) h1 show ?case by simp
qed simp

text \<open>C19: from an empty table of 256 buckets, any history of fewer than \<open>2^32\<close> arrivals and
  departures runs without a fault, and the next \<open>handle_ip_count\<close> for an address returns one
  more than the arrivals of this address that have not been taken back, whatever other
  addresses share its bucket.\<close>

theorem ip_counts_exact:
  assumes "length xs + 1 < 2 ^ 32"
  shows "\<exists>h0 h c h'. hash_alloc 256 hash_func = Inr h0 \<and> ip_run xs h0 = Inr h
    \<and> handle_ip_count h (u32_bytes ip) = Inr (c, h') \<and> unat c = fold ip_spec xs (\<lambda>_. 0) ip + 1"
proof -
  note e = empty_table [of 256, simplified]
  have ok: "counts_ok (hash_abs 4 (new_table 256 hash_func 256))"
    and z: "count_of (hash_abs 4 (new_table 256 hash_func 256)) = (\<lambda>_. 0)"
    using e by (auto simp: counts_ok_def count_of_def)
  obtain h where h: "ip_run xs (new_table 256 hash_func 256) = Inr h" "hash_inv 4 h"
    "counts_ok (hash_abs 4 h)" "count_of (hash_abs 4 h) = fold ip_spec xs (\<lambda>_. 0)"
    using ip_run_spec [of _ 0 xs, OF e(1) ok] assms z by auto
  have "fold ip_spec xs (\<lambda>_. 0) ip \<le> length xs" using fold_ip_spec_bound [of "\<lambda>_. 0" 0] by simp
  with assms have "fold ip_spec xs (\<lambda>_. 0) ip + 1 < 2 ^ 32" by linarith
  then show ?thesis
    using ct.count_up [OF h(2,3), of ip] h(1,4) by (auto simp: handle_ip_count_def)
qed

theorem ip_counts_exact_witness:
  "\<exists>h0 h c h'. hash_alloc 256 hash_func = Inr h0
    \<and> ip_run [Arrive 1, Arrive 257, Arrive 1, Leave 257, Leave 257] h0 = Inr h
    \<and> handle_ip_count h (u32_bytes 1) = Inr (c, h') \<and> unat c = 3"
proof -
  let ?xs = "[Arrive 1, Arrive 257, Arrive 1, Leave 257, Leave 257]"
  have "fold ip_spec ?xs (\<lambda>_. 0) 1 + 1 = 3" by simp
  then show ?thesis using ip_counts_exact [of ?xs 1] by (simp only: list.size) simp
qed

text \<open>While the table from processes to addresses is empty (the program never adds to it),
  reaping processes only lowers \<open>s_children\<close>, modulo \<open>2^32\<close>: no count of an address is
  ever taken back.\<close>

theorem sigchld_keeps_ip_counts:
  assumes "hash_inv 4 (s_pid_ip_hash s)" "hash_abs 4 (s_pid_ip_hash s) = Map.empty"
  shows "handle_sigchld pids s = Inr (s\<lparr>s_children := s_children s - of_nat (length pids)\<rparr>)"
  using assms
proof (induction pids arbitrary: s)
  case (Cons pid pids)
  have "hash_lookup_entry (s_pid_ip_hash s) (u32_bytes pid) 4 = Inr None"
    using ht.look_none [OF Cons.prems(1), of "u32_bytes pid"] Cons.prems(2) by simp
  with Cons show ?case by (simp add: algebra_simps)
qed simp

theorem sigchld_keeps_ip_counts_witness:
  "handle_sigchld [41, 42] init_counters = Inr (init_counters\<lparr>s_children := - 2\<rparr>)"
  using sigchld_keeps_ip_counts [of init_counters "[41, 42]"] empty_table [of 256, simplified]
  by (simp add: init_counters_def)

end
