(* ===== verification/ParseConf.thy ===== *)
theory ParseConf
  imports CString
begin

text \<open>
  The configuration: the tunables with their defaults (\<^verbatim>\<open>tunable.cpp\<close>) and the reader of the
  configuration file (\<^verbatim>\<open>parseconf.cpp\<close>). The three arrays of settings are lists of a name
  and the assignment the entry stands for. The file is its bytes (\<open>None\<close> when \<open>fopen\<close>
  fails); the lines of it printed to the terminal are left out.
\<close>

section \<open>Tunables\<close>

record tunables =
  tunable_pasv_enable :: int
  tunable_port_enable :: int
  tunable_listen_port :: u32
  tunable_max_clients :: u32
  tunable_max_per_ip :: u32
  tunable_accept_timeout :: u32
  tunable_connect_timeout :: u32
  tunable_idle_session_timeout :: u32
  tunable_data_connection_timeout :: u32
  tunable_local_umask :: u32
  tunable_upload_max_rate :: u32
  tunable_download_max_rate :: u32
  tunable_listen_address :: "string option"

definition default_tunables :: tunables where
  "default_tunables = \<lparr>tunable_pasv_enable = 1, tunable_port_enable = 1,
     tunable_listen_port = 21, tunable_max_clients = 2000, tunable_max_per_ip = 50,
     tunable_accept_timeout = 60, tunable_connect_timeout = 60,
     tunable_idle_session_timeout = 300, tunable_data_connection_timeout = 300,
     tunable_local_umask = 63, tunable_upload_max_rate = 0, tunable_download_max_rate = 0,
     tunable_listen_address = None\<rparr>"

definition parseconf_bool_array :: "(string \<times> (int \<Rightarrow> tunables \<Rightarrow> tunables)) list" where
  "parseconf_bool_array =
     [(''pasv_enable'', \<lambda>v t. t\<lparr>tunable_pasv_enable := v\<rparr>),
      (''port_enable'', \<lambda>v t. t\<lparr>tunable_port_enable := v\<rparr>)]"

definition parseconf_uint_array :: "(string \<times> (u32 \<Rightarrow> tunables \<Rightarrow> tunables)) list" where
  "parseconf_uint_array =
     [(''listen_port'', \<lambda>v t. t\<lparr>tunable_listen_port := v\<rparr>),
      (''max_clients'', \<lambda>v t. t\<lparr>tunable_max_clients := v\<rparr>),
      (''max_per_ip'', \<lambda>v t. t\<lparr>tunable_max_per_ip := v\<rparr>),
      (''accept_timeout'', \<lambda>v t. t\<lparr>tunable_accept_timeout := v\<rparr>),
      (''connect_timeout'', \<lambda>v t. t\<lparr>tunable_connect_timeout := v\<rparr>),
      (''idle_session_timeout'', \<lambda>v t. t\<lparr>tunable_idle_session_timeout := v\<rparr>),
      (''data_connection_timeout'', \<lambda>v t. t\<lparr>tunable_data_connection_timeout := v\<rparr>),
      (''local_umask'', \<lambda>v t. t\<lparr>tunable_local_umask := v\<rparr>),
      (''upload_max_rate'', \<lambda>v t. t\<lparr>tunable_upload_max_rate := v\<rparr>),
      (''download_max_rate'', \<lambda>v t. t\<lparr>tunable_download_max_rate := v\<rparr>)]"

text \<open>An entry of the string array also has the old value of the variable.\<close>

definition parseconf_str_array ::
  "(string \<times> (tunables \<Rightarrow> string option) \<times> (string option \<Rightarrow> tunables \<Rightarrow> tunables)) list" where
  "parseconf_str_array =
     [(''listen_address'', tunable_listen_address, \<lambda>v t. t\<lparr>tunable_listen_address := v\<rparr>)]"

section \<open>Reading a setting\<close>

text \<open>
  \<open>atoi\<close> of the C library: white space, a sign, digits; the value saturates at the range of
  \<open>long\<close> and is cut to an \<open>int\<close>. So does glibc, which takes \<open>strtol\<close> and converts; for a value that is not
  an \<open>int\<close> the C standard says nothing.
\<close>

definition isspace :: "char \<Rightarrow> bool" where
  "isspace c \<longleftrightarrow> c = CHR '' '' \<or> (9 \<le> (of_char c :: nat) \<and> (of_char c :: nat) \<le> 13)"

definition clamp_long :: "int \<Rightarrow> int" where
  "clamp_long n = max (- (2 ^ 63)) (min (2 ^ 63 - 1) n)"

definition atoi :: "string \<Rightarrow> int" where
  "atoi s =
     (let s = dropWhile isspace s;
          neg = (s \<noteq> [] \<and> hd s = CHR ''-'');
          s = (if s \<noteq> [] \<and> (hd s = CHR ''-'' \<or> hd s = CHR ''+'') then tl s else s);
          v = int (base_val 10 0 (takeWhile isdigit s))
      in to_int32 (clamp_long (if neg then - v else v)))"

text \<open>
  \<open>parseconf_load_setting\<close>. In the string case the source frees \<open>p\<close>, the address of the
  variable, and not the string the variable points to.
\<close>

definition set_str :: "(tunables \<Rightarrow> string option) \<times> (string option \<Rightarrow> tunables \<Rightarrow> tunables) \<Rightarrow>
    string \<Rightarrow> tunables \<Rightarrow> tunables res" where
  "set_str var val t =
     (if fst var t \<noteq> None then Inl InvalidFree else Inr (snd var (Some (cstr val)) t))"

definition parseconf_load_setting :: "string \<Rightarrow> tunables \<Rightarrow> tunables res" where
  "parseconf_load_setting setting t =
     bnd (str_split setting (zeros 128) (zeros 128) (CHR ''='')) (\<lambda>(key, val).
     bnd (strlen val) (\<lambda>n.
     if n = 0 then Inr t
     else case map_of parseconf_str_array (cstr key) of
       Some var \<Rightarrow> set_str var val t
     | None \<Rightarrow>
     (case map_of parseconf_bool_array (cstr key) of
       Some assign \<Rightarrow>
         (if cstr val = ''1'' then Inr (assign 1 t)
          else if cstr val = ''0'' then Inr (assign 0 t)
          else Inr t)
     | None \<Rightarrow>
     (case map_of parseconf_uint_array (cstr key) of
       Some assign \<Rightarrow>
         if val ! 0 = CHR ''0''
         then bnd (str_octal_to_uint val) (\<lambda>v. Inr (assign v t))
         else Inr (assign (word_of_int (atoi (cstr val))) t)
     | None \<Rightarrow> Inr t))))"

section \<open>Reading the file\<close>

text \<open>\<open>fgets(buf,n,fp)\<close>: the bytes it takes from the file, and what is left of it.\<close>

definition fgets_line :: "nat \<Rightarrow> string \<Rightarrow> string \<times> string" where
  "fgets_line n s =
     (let l = takeWhile (\<lambda>c. c \<noteq> lf) s;
          m = min (n - 1) (if length l < length s then Suc (length l) else length l)
      in (take m s, drop m s))"

lemma fgets_line_shorter: "1 < n \<Longrightarrow> s \<noteq> [] \<Longrightarrow> length (snd (fgets_line n s)) < length s"
  by (cases s) (auto simp: fgets_line_def Let_def)

function load_lines :: "string \<Rightarrow> string \<Rightarrow> tunables \<Rightarrow> tunables res" where
  "load_lines setting_line file t =
     (if file = [] then Inr t
      else let rest = snd (fgets_line 1024 file) in
        bnd (blit setting_line 0 (fst (fgets_line 1024 file) @ [nul])) (\<lambda>buf.
        bnd (strlen buf) (\<lambda>n.
        bnd (str_all_space buf) (\<lambda>blank.
        if n = 0 \<or> buf ! 0 = CHR ''#'' \<or> blank then load_lines buf rest t
        else
          bnd (str_trim_crlf buf) (\<lambda>buf.
          bnd (parseconf_load_setting buf t) (\<lambda>t.
          load_lines (zeros 1024) rest t))))))"
  by pat_completeness auto
termination
  by (relation "measure (\<lambda>(_, file, _). length file)")
    (simp_all add: fgets_line_shorter)

declare load_lines.simps [simp del]

definition parseconf_load_file :: "string option \<Rightarrow> tunables \<Rightarrow> tunables res" where
  "parseconf_load_file file t =
     (case file of None \<Rightarrow> Inl (Exit 1) | Some s \<Rightarrow> load_lines (zeros 1024) s t)"

section \<open>Numbers in settings\<close>

lemma isdigit_not_space: "isdigit c \<Longrightarrow> \<not> isspace c"
  by (auto simp: isdigit_def isspace_def)

lemma dec_nat_hd:
  assumes "0 < n"
  shows "\<exists>c s. dec_nat n = c # s \<and> isdigit c \<and> c \<noteq> CHR ''0''"
proof -
  obtain d s where d: "dec_nat n = char_of (48 + d :: nat) # s" "0 < d" "d < 10"
    using show_base_hd [of 10 n] assms by (auto simp: dec_nat_def)
  have "char_of (48 + d :: nat) \<noteq> CHR ''0''"
  proof
    assume "char_of (48 + d :: nat) = CHR ''0''"
    then have "(of_char (char_of (48 + d :: nat) :: char) :: nat) = of_char (CHR ''0'')" by simp
    with d show False by simp
  qed
  with d show ?thesis by auto
qed

lemma takeWhile_dec: "takeWhile isdigit (dec_nat n) = dec_nat n"
  using dec_nat_isdigit by (simp add: takeWhile_eq_all_conv)

lemma atoi_dec:
  assumes "0 < n" "n < 2 ^ 32"
  shows "(word_of_int (atoi (dec_nat n)) :: u32) = of_nat n"
proof -
  obtain c s where c: "dec_nat n = c # s" "isdigit c" using dec_nat_hd [OF assms(1)] by blast
  have tw: "takeWhile isdigit s = s"
    using c dec_nat_isdigit [of _ n] by (simp add: takeWhile_eq_all_conv)
  have dw: "dropWhile isspace (dec_nat n) = dec_nat n"
    using c isdigit_not_space by simp
  have "atoi (dec_nat n) = to_int32 (clamp_long (int n))"
    unfolding atoi_def Let_def dw takeWhile_dec
    using c isdigit_distinct(2,3) [OF c(2)] show_base_val [of 10 n]
    by (simp add: dec_nat_def tw)
  also have "clamp_long (int n) = int n"
    using assms(2) by (simp add: clamp_long_def)
  finally show ?thesis by (simp add: to_int32_def)
qed

lemma str_octal_dec:
  assumes "vb = CHR ''0'' # oct_nat n @ nul # t"
  shows "str_octal_to_uint vb = Inr (of_nat n)"
proof -
  have z: "is_octal (CHR ''0'')" "digit_val (CHR ''0'') = 0" by (simp_all add: is_octal_def digit_val_def)
  have "octal_from (of_nat 0) ((CHR ''0'' # oct_nat n) @ nul # t) = Inr (of_nat (base_val 8 0 (CHR ''0'' # oct_nat n)))"
    using oct_nat_is_octal z(1) by (intro octal_from_digits) auto
  also have "base_val 8 0 (CHR ''0'' # oct_nat n) = n"
    using show_base_val [of 8 n] z(2) by (simp add: oct_nat_def)
  finally show ?thesis by (simp add: str_octal_to_uint_def assms)
qed

section \<open>One setting\<close>

lemma load_setting_split:
  assumes "terminated buf" "cstr buf = key @ CHR ''='' # v" "CHR ''='' \<notin> set key"
    and "length key + 1 < 128" "length v < 128" "v \<noteq> []"
  obtains kb vb where "str_split buf (zeros 128) (zeros 128) (CHR ''='') = Inr (kb, vb)"
    "cstr kb = key" "cstr vb = v" "strlen vb = Inr (length v)" "vb = v @ nul # zeros (127 - length v)"
    "vb ! 0 = hd v"
proof -
  have nul: "nul \<notin> set key" "nul \<notin> set v"
    using nul_notin_cstr [of buf] assms(2) by auto
  let ?kb = "key @ zeros (128 - length key)" and ?vb = "v @ nul # zeros (127 - length v)"
  have "str_split buf (zeros 128) (zeros 128) (CHR ''='') = Inr (?kb, ?vb)"
    using str_split_fresh [OF assms(1,2) _ assms(3-5)] by (simp add: nul_def)
  moreover have "strlen ?vb = Inr (length v)" using nul by (simp add: strlen_terminated)
  moreover have "?vb ! 0 = hd v" using assms(6) by (cases v) auto
  ultimately show ?thesis using that nul by simp
qed

text \<open>The names of the unsigned settings, and that they are not those of the other arrays.\<close>

lemma uint_array_names:
  "distinct (map fst parseconf_uint_array)"
  "list_all (\<lambda>x. map_of parseconf_bool_array (fst x) = None \<and> map_of parseconf_str_array (fst x) = None
     \<and> CHR ''='' \<notin> set (fst x) \<and> nul \<notin> set (fst x) \<and> lf \<notin> set (fst x) \<and> cr \<notin> set (fst x))
     parseconf_uint_array"
  "list_all (\<lambda>x. length (fst x) < 24 \<and> fst x \<noteq> [] \<and> hd (fst x) \<noteq> CHR ''#'' \<and> hd (fst x) \<noteq> CHR '' '')
     parseconf_uint_array"
  by (simp_all add: parseconf_uint_array_def parseconf_bool_array_def parseconf_str_array_def
      nul_def lf_def cr_def)

lemma uint_names:
  assumes "(name, assign) \<in> set parseconf_uint_array"
  shows "map_of parseconf_uint_array name = Some assign"
    "map_of parseconf_bool_array name = None" "map_of parseconf_str_array name = None"
    "CHR ''='' \<notin> set name" "length name < 24" "nul \<notin> set name" "lf \<notin> set name" "cr \<notin> set name"
    "name \<noteq> []" "hd name \<noteq> CHR ''#''" "hd name \<noteq> CHR '' ''"
  using uint_array_names assms by (auto simp: list_all_iff)

lemma load_uint_setting:
  assumes name: "(name, assign) \<in> set parseconf_uint_array"
    and buf: "terminated buf" "cstr buf = name @ CHR ''='' # dec_nat n"
    and n: "0 < n" "n < 2 ^ 32"
  shows "parseconf_load_setting buf t = Inr (assign (of_nat n) t)"
proof -
  have len: "length (dec_nat n) \<le> 10"
    using show_base_length [of 10 n 9] n by (simp add: dec_nat_def)
  obtain c s where c: "dec_nat n = c # s" "c \<noteq> CHR ''0''" using dec_nat_hd [OF n(1)] by blast
  have l: "length name + 1 < 128" "length (dec_nat n) < 128" "dec_nat n \<noteq> []"
    using uint_names(5) [OF name] len c by simp_all
  obtain kb vb where "str_split buf (zeros 128) (zeros 128) (CHR ''='') = Inr (kb, vb)"
    "cstr kb = name" "cstr vb = dec_nat n" "strlen vb = Inr (length (dec_nat n))" "vb ! 0 = hd (dec_nat n)"
    using load_setting_split [OF buf uint_names(4) [OF name] l] by blast
  then show ?thesis using uint_names(1-3) [OF name] c atoi_dec [OF n]
    by (simp add: parseconf_load_setting_def)
qed

section \<open>Lines of the file\<close>

lemma fgets_line_eq:
  assumes "lf \<notin> set line" "length line < n - 1"
  shows "fgets_line n (line @ lf # rest) = (line @ [lf], rest)"
proof -
  have "takeWhile (\<lambda>c. c \<noteq> lf) (line @ lf # rest) = line"
    using assms(1) by (subst takeWhile_append2) auto
  with assms(2) show ?thesis by (simp add: fgets_line_def Let_def)
qed

lemma load_lines_setting:
  assumes buf: "length buf = 1024" and line: "lf \<notin> set line" "cr \<notin> set line" "nul \<notin> set line"
    and len: "length line < 1023" and hd: "line \<noteq> []" "hd line \<noteq> CHR ''#''" "hd line \<noteq> CHR '' ''"
  obtains b where "terminated b" "cstr b = line" "load_lines buf (line @ lf # rest) t
    = bnd (parseconf_load_setting b t) (load_lines (zeros 1024) rest)"
proof -
  let ?b = "line @ lf # nul # drop (Suc (Suc (length line))) buf"
  have bl: "blit buf 0 ((line @ [lf]) @ [nul]) = Inr ?b" using buf len by (simp add: blit_def)
  have nl: "lf \<noteq> nul" by (simp add: lf_def nul_def)
  have t: "terminated ?b" using terminated_append_nul [of "line @ [lf]"] by simp
  have cs: "cstr ?b = line @ [lf]" using cstr_append_nul [of "line @ [lf]"] line nl by simp
  from t obtain b where b: "str_trim_crlf ?b = Inr b" "terminated b"
    "cstr b = takeWhile (\<lambda>c. c \<noteq> cr \<and> c \<noteq> lf) (cstr ?b)"
    by (rule str_trim_crlf_spec)
  have tw: "takeWhile (\<lambda>c. c \<noteq> cr \<and> c \<noteq> lf) (line @ [lf]) = line"
    using line by (subst takeWhile_append2) auto
  have sp: "str_all_space ?b = Inr False"
    unfolding str_all_space_spec [OF t] cs by (simp add: lf_def)
  have sl: "strlen ?b = Inr (Suc (length line))" unfolding strlen_terminated [OF t] cs by simp
  have h: "?b ! 0 = hd line" using hd(1) by (cases line) auto
  have f: "fgets_line 1024 (line @ lf # rest) = (line @ [lf], rest)"
    using line(1) len by (intro fgets_line_eq) simp_all
  show ?thesis
  proof (rule that [of b])
    show "load_lines buf (line @ lf # rest) t
      = bnd (parseconf_load_setting b t) (load_lines (zeros 1024) rest)"
      unfolding load_lines.simps [of buf] f Let_def fst_conv snd_conv bl bnd_simps sl sp h
      using b(1) hd(2) by simp
  qed (use b tw cs in simp_all)
qed

lemma load_lines_comment:
  assumes buf: "length buf = 1024" and line: "lf \<notin> set line" "nul \<notin> set line"
    and len: "length line < 1022"
  obtains b where "length b = 1024"
    "load_lines buf (CHR ''#'' # line @ lf # rest) t = load_lines b rest t"
proof -
  define l where "l = CHR ''#'' # line"
  let ?b = "l @ lf # nul # drop (Suc (Suc (length l))) buf"
  have len': "length l < 1023" using len by (simp add: l_def)
  have bl: "blit buf 0 ((l @ [lf]) @ [nul]) = Inr ?b" using buf len' by (simp add: blit_def)
  have t: "terminated ?b" using terminated_append_nul [of "l @ [lf]"] by simp
  have h: "?b ! 0 = CHR ''#''" by (simp add: l_def)
  have f: "fgets_line 1024 (l @ lf # rest) = (l @ [lf], rest)"
    using line(1) len' by (intro fgets_line_eq) (auto simp: lf_def l_def)
  have "load_lines buf (l @ lf # rest) t = load_lines ?b rest t"
    unfolding load_lines.simps [of buf] f Let_def fst_conv snd_conv bl bnd_simps
      strlen_terminated [OF t] str_all_space_spec [OF t] h by simp
  moreover have "length ?b = 1024" using buf len' by simp
  ultimately show ?thesis using that [of ?b] unfolding l_def append_Cons by blast
qed

section \<open>The address\<close>

definition good_address :: "string \<Rightarrow> bool" where
  "good_address x \<longleftrightarrow> x \<noteq> [] \<and> length x < 128 \<and> nul \<notin> set x \<and> cr \<notin> set x \<and> lf \<notin> set x"

lemma load_address_setting:
  assumes "terminated buf" "cstr buf = ''listen_address='' @ x" "good_address x"
  shows "parseconf_load_setting buf t = (if tunable_listen_address t \<noteq> None then Inl InvalidFree
      else Inr (t\<lparr>tunable_listen_address := Some x\<rparr>))"
proof -
  have c: "cstr buf = ''listen_address'' @ CHR ''='' # x" using assms(2) by simp
  have l: "CHR ''='' \<notin> set ''listen_address''" "length ''listen_address'' + 1 < 128" "length x < 128"
    "x \<noteq> []" using assms(3) by (auto simp: good_address_def)
  obtain kb vb where "str_split buf (zeros 128) (zeros 128) (CHR ''='') = Inr (kb, vb)"
    "cstr kb = ''listen_address''" "cstr vb = x" "strlen vb = Inr (length x)"
    using load_setting_split [OF assms(1) c l] by metis
  then show ?thesis using l(4)
    by (simp add: parseconf_load_setting_def parseconf_str_array_def set_str_def)
qed

lemma load_address_line:
  assumes "length buf = 1024" "good_address x"
  shows "load_lines buf (''listen_address='' @ x @ lf # rest) t
    = (if tunable_listen_address t \<noteq> None then Inl InvalidFree
       else load_lines (zeros 1024) rest (t\<lparr>tunable_listen_address := Some x\<rparr>))"
proof -
  let ?l = "''listen_address='' @ x"
  have "lf \<notin> set ?l" "cr \<notin> set ?l" "nul \<notin> set ?l" "length ?l < 1023" "?l \<noteq> []"
    "hd ?l \<noteq> CHR ''#''" "hd ?l \<noteq> CHR '' ''"
    using assms(2) by (auto simp: good_address_def lf_def cr_def nul_def)
  from load_lines_setting [OF assms(1) this] obtain b where "terminated b" "cstr b = ?l"
    "load_lines buf (?l @ lf # rest) t
      = bnd (parseconf_load_setting b t) (load_lines (zeros 1024) rest)" by metis
  then show ?thesis using load_address_setting [of b x t] assms(2) by simp
qed

section \<open>Properties\<close>

text \<open>A configuration as a list of unsigned settings, its file, and what it means.\<close>

definition render_conf :: "(string \<times> nat) list \<Rightarrow> string" where
  "render_conf cfg = concat (map (\<lambda>(name, n). name @ CHR ''='' # dec_nat n @ [lf]) cfg)"

fun set_uint :: "string \<times> nat \<Rightarrow> tunables \<Rightarrow> tunables" where
  "set_uint (name, n) t =
     (case map_of parseconf_uint_array name of Some f \<Rightarrow> f (of_nat n) t | None \<Rightarrow> t)"

definition uint_setting :: "string \<times> nat \<Rightarrow> bool" where
  "uint_setting x \<longleftrightarrow> fst x \<in> set (map fst parseconf_uint_array) \<and> 0 < snd x \<and> snd x < 2 ^ 32"

lemma load_lines_render:
  assumes "length buf = 1024" "\<forall>x \<in> set cfg. uint_setting x"
  shows "load_lines buf (render_conf cfg) t = Inr (fold set_uint cfg t)"
  using assms
proof (induction cfg arbitrary: buf t)
  case Nil
  then show ?case by (simp add: render_conf_def load_lines.simps)
next
  case (Cons x cfg)
  obtain name n where x: "x = (name, n)" by (cases x)
  with Cons.prems obtain f where f: "(name, f) \<in> set parseconf_uint_array" and n: "0 < n" "n < 2 ^ 32"
    by (auto simp: uint_setting_def)
  let ?l = "name @ CHR ''='' # dec_nat n"
  note nm = uint_names [OF f]
  have dig: "lf \<notin> set (dec_nat n)" "cr \<notin> set (dec_nat n)" "nul \<notin> set (dec_nat n)"
    using dec_nat_isdigit isdigit_distinct(8-10) by blast+
  have len: "length (dec_nat n) \<le> 10"
    using show_base_length [of 10 n 9] n by (simp add: dec_nat_def)
  have l: "lf \<notin> set ?l" "cr \<notin> set ?l" "nul \<notin> set ?l" "length ?l < 1023" "?l \<noteq> []"
    "hd ?l \<noteq> CHR ''#''" "hd ?l \<noteq> CHR '' ''"
    using nm dig len by (auto simp: lf_def cr_def nul_def)
  obtain b where b: "terminated b" "cstr b = ?l" "load_lines buf (?l @ lf # render_conf cfg) t
      = bnd (parseconf_load_setting b t) (load_lines (zeros 1024) (render_conf cfg))"
    using load_lines_setting [OF Cons.prems(1) l] by metis
  have "parseconf_load_setting b t = Inr (set_uint x t)"
    using load_uint_setting [OF f b(1,2) n] nm(1) x by simp
  moreover have "load_lines (zeros 1024) (render_conf cfg) (set_uint x t) = Inr (fold set_uint cfg (set_uint x t))"
    using Cons.prems by (intro Cons.IH) auto
  ultimately show ?case using b(3) by (simp add: x render_conf_def)
qed

text \<open>C20: a configuration file that lists unsigned settings, each written as its name, \<open>=\<close> and
  a decimal number from 1 to \<open>2^32 - 1\<close>, is read back exactly: every setting gets its number,
  later lines win, and nothing else changes.\<close>

theorem conf_file_roundtrip:
  assumes "\<forall>x \<in> set cfg. uint_setting x"
  shows "parseconf_load_file (Some (render_conf cfg)) t = Inr (fold set_uint cfg t)"
  using load_lines_render [OF _ assms] by (simp add: parseconf_load_file_def)

theorem conf_file_roundtrip_witness:
  "parseconf_load_file (Some (render_conf [(''max_clients'', 3), (''idle_session_timeout'', 4000000000)]))
     default_tunables
   = Inr (default_tunables\<lparr>tunable_max_clients := 3, tunable_idle_session_timeout := 4000000000\<rparr>)"
  using conf_file_roundtrip [of "[(''max_clients'', 3), (''idle_session_timeout'', 4000000000)]" default_tunables]
  by (simp add: uint_setting_def parseconf_uint_array_def)

text \<open>A value that starts with \<open>0\<close> is read in base eight: \<open>0\<close> and the octal digits of any
  unsigned number give this number.\<close>

theorem conf_octal_roundtrip:
  assumes "(name, assign) \<in> set parseconf_uint_array" "n < 2 ^ 32"
    and "terminated buf" "cstr buf = name @ CHR ''='' # CHR ''0'' # oct_nat n"
  shows "parseconf_load_setting buf t = Inr (assign (of_nat n) t)"
proof -
  have "n < 8 ^ Suc 10" using assms(2) by simp
  then have len: "length (oct_nat n) \<le> 11"
    using show_base_length [of 8 n 10] by (simp add: oct_nat_def)
  have l: "length name + 1 < 128" "length (CHR ''0'' # oct_nat n) < 128" "CHR ''0'' # oct_nat n \<noteq> []"
    using uint_names(5) [OF assms(1)] len by simp_all
  obtain kb vb where sp: "str_split buf (zeros 128) (zeros 128) (CHR ''='') = Inr (kb, vb)"
    "cstr kb = name" "strlen vb = Inr (length (CHR ''0'' # oct_nat n))" "vb ! 0 = hd (CHR ''0'' # oct_nat n)"
    "vb = (CHR ''0'' # oct_nat n) @ nul # zeros (127 - length (CHR ''0'' # oct_nat n))"
    using load_setting_split [OF assms(3,4) uint_names(4) [OF assms(1)] l] by blast
  have "str_octal_to_uint vb = Inr (of_nat n)" using str_octal_dec sp(5) by (metis append_Cons)
  then show ?thesis using sp(1-4) uint_names(1-3) [OF assms(1)]
    by (simp add: parseconf_load_setting_def)
qed

theorem conf_octal_roundtrip_witness:
  "parseconf_load_setting (''local_umask=077'' @ [nul]) default_tunables
    = Inr (default_tunables\<lparr>tunable_local_umask := 63\<rparr>)"
proof -
  have o: "oct_nat 63 = ''77''" by code_simp
  show ?thesis
    using conf_octal_roundtrip [of "''local_umask''" "\<lambda>v t. t\<lparr>tunable_local_umask := v\<rparr>" 63
        "''local_umask=077'' @ [nul]" default_tunables] o
    by (simp add: parseconf_uint_array_def terminated_def nul_def)
qed

text \<open>A second \<open>listen_address\<close> line is fatal: the loader hands \<open>free\<close> the address of
  the tunable itself, whatever the two addresses are and whatever follows.\<close>

theorem conf_second_address:
  assumes "good_address a" "good_address b"
  shows "parseconf_load_file
     (Some (''listen_address='' @ a @ lf # ''listen_address='' @ b @ lf # rest)) default_tunables
     = Inl InvalidFree"
  by (simp add: parseconf_load_file_def load_address_line [OF _ assms(1)]
      load_address_line [OF _ assms(2)] default_tunables_def del: append.simps)

theorem conf_second_address_witness:
  "parseconf_load_file
     (Some (''listen_address='' @ ''10.0.0.1'' @ lf # ''listen_address='' @ ''::'' @ lf # [])) default_tunables
     = Inl InvalidFree"
  by (rule conf_second_address) (simp_all add: good_address_def nul_def cr_def lf_def)

text \<open>A setting of an unknown name changes nothing.\<close>

lemma conf_unknown_ignored:
  assumes buf: "terminated buf" "cstr buf = key @ CHR ''='' # v" "CHR ''='' \<notin> set key"
    and l: "length key < 127" "length v < 128" and unknown: "map_of parseconf_str_array key = None"
    "map_of parseconf_bool_array key = None" "map_of parseconf_uint_array key = None"
  shows "parseconf_load_setting buf t = Inr t"
proof -
  have n: "nul \<notin> set key" "nul \<notin> set v" using nul_notin_cstr [of buf] buf(2) by auto
  have k: "cstr (key @ zeros (128 - length key)) = key" using n(1) by simp
  have v: "strlen (v @ nul # zeros (128 - Suc (length v))) = Inr (length v)"
    using n(2) by (simp add: strlen_terminated)
  show ?thesis
    using str_split_fresh [OF buf(1,2) _ buf(3), of 128 128] l v k unknown
    by (simp add: parseconf_load_setting_def nul_def)
qed

text \<open>C35: a setting whose name is 127 characters or longer is written past the end of the key
  buffer of 128: the terminator of \<open>str_split\<close> needs one more place than the name and its
  terminator.\<close>

theorem conf_long_key_overflows:
  assumes "terminated buf" "cstr buf = key @ CHR ''='' # v" "CHR ''='' \<notin> set key" "127 \<le> length key"
  shows "parseconf_load_setting buf t = Inl OutOfBounds"
proof -
  have "before_sep (CHR ''='') (cstr buf) = key"
    using assms(2,3) by (simp add: before_sep_def takeWhile_append)
  then show ?thesis
    using str_split_overflow [OF assms(1), of "CHR ''=''" "zeros 128" "zeros 128"] assms(2,4)
    by (simp add: parseconf_load_setting_def nul_def)
qed

theorem conf_long_key_overflows_witness:
  "parseconf_load_setting (replicate 127 (CHR ''k'') @ ''=1'' @ [nul]) default_tunables
     = Inl OutOfBounds"
proof (rule conf_long_key_overflows)
  show "cstr (replicate 127 (CHR ''k'') @ ''=1'' @ [nul]) = replicate 127 (CHR ''k'') @ CHR ''='' # ''1''"
    using cstr_append_nul [of "replicate 127 (CHR ''k'') @ ''=1''" "[]"] by (simp add: nul_def)
qed (simp_all add: terminated_def)

end
