(* ===== verification/Server.thy ===== *)
theory Server
  imports SysUtil LruList IpCount ParseConf
begin

text \<open>
  The state of the server: the sessions (\<^verbatim>\<open>session.h\<close>) and the descriptor records on the
  heap, the table \<open>sessinfo\<close> from descriptors to them, the connection list, the counters, the
  tunables, and the worker threads that have been created and not yet run. The operations that
  the protocol and the event loop share: access to a session, the epoll wrappers
  (\<^verbatim>\<open>epoll_util.cpp\<close>), closing a session, and replies (\<^verbatim>\<open>ftpproto.cpp\<close>).
\<close>

section \<open>State\<close>

record session =
  uid :: u32
  ctrl_fd :: int
  cmdline :: string
  cmd :: string
  arg :: string
  port_addr :: "(bytes \<times> bytes) option"   \<comment> \<open>\<open>sin_port\<close> and \<open>sin_addr\<close> in network order\<close>
  pasv_listen_fd :: int
  data_fd :: int
  data_process :: int
  bw_upload_rate_max :: u32
  bw_download_rate_max :: u32
  bw_transfer_start_sec :: int
  bw_transfer_start_usec :: int
  parent_fd :: int
  child_fd :: int
  is_ascii :: int
  restart_pos :: int
  rnfr_name :: "string option"
  abor_received :: int
  num_clients :: u32
  num_this_ip :: u32
  dirfd :: int

definition MAX_COMMAND_LINE :: nat where "MAX_COMMAND_LINE = 1024"
definition MAX_COMMAND :: nat where "MAX_COMMAND = 32"
definition MAX_ARG :: nat where "MAX_ARG = 1024"

definition init_session :: session where
  "init_session = \<lparr>uid = 0, ctrl_fd = -1, cmdline = zeros MAX_COMMAND, cmd = zeros MAX_COMMAND,
     arg = zeros MAX_ARG, port_addr = None, pasv_listen_fd = -1, data_fd = -1, data_process = 0,
     bw_upload_rate_max = 0, bw_download_rate_max = 0, bw_transfer_start_sec = 0,
     bw_transfer_start_usec = 0, parent_fd = -1, child_fd = -1, is_ascii = 0, restart_pos = 0,
     rnfr_name = None, abor_received = 0, num_clients = 0, num_this_ip = 0, dirfd = -1\<rparr>"

definition FDTYPECTRL :: int where "FDTYPECTRL = 1"
definition FDTYPEDATA :: int where "FDTYPEDATA = 2"

record fd_t =
  fd_type :: int
  fd_fd :: int

record edata_t =
  fd_in :: ptr
  ed_sess :: ptr

text \<open>A worker: the argument its function gets.\<close>

datatype thread = ThreadRetr nat | UploadCommon nat int

record server = kstate +
  sessions :: "nat \<Rightarrow> session option"
  sess_brk :: nat
  fdts :: "nat \<Rightarrow> fd_t option"
  fdt_brk :: nat
  sessinfo :: "edata_t list"
  conns :: lru
  cnts :: counters
  tun :: tunables
  epollfd :: int
  perms :: string
  p_sess :: ptr
  threads :: "thread list"

text \<open>The globals before \<open>main\<close>.\<close>

definition init_server :: server where
  "init_server = \<lparr>trace = [], errno = EOTHER 0, curr_time = (0, 0), sessions = Map.empty,
     sess_brk = 0, fdts = Map.empty, fdt_brk = 0,
     sessinfo = replicate MAX_SESSIONS \<lparr>fd_in = None, ed_sess = None\<rparr>, conns = init_lru,
     cnts = init_counters, tun = default_tunables, epollfd = 0, perms = init_perms, p_sess = None,
     threads = []\<rparr>"

lemma init_server_simps [simp]:
  "trace init_server = []" "sessions init_server = Map.empty" "sess_brk init_server = 0"
  "fdts init_server = Map.empty" "conns init_server = init_lru" "cnts init_server = init_counters"
  "tun init_server = default_tunables" "perms init_server = init_perms" "p_sess init_server = None"
  "threads init_server = []" "length (sessinfo init_server) = MAX_SESSIONS"
  by (simp_all add: init_server_def)

lemma server_grow [simp]:
  "sessions (grow h e s) = sessions s" "sess_brk (grow h e s) = sess_brk s"
  "fdts (grow h e s) = fdts s" "fdt_brk (grow h e s) = fdt_brk s"
  "sessinfo (grow h e s) = sessinfo s" "conns (grow h e s) = conns s" "cnts (grow h e s) = cnts s"
  "tun (grow h e s) = tun s" "epollfd (grow h e s) = epollfd s" "perms (grow h e s) = perms s"
  "p_sess (grow h e s) = p_sess s" "threads (grow h e s) = threads s"
  by (simp_all add: grow_def)

lemma server_after [simp]:
  "sessions (after K c s) = sessions s" "sess_brk (after K c s) = sess_brk s"
  "fdts (after K c s) = fdts s" "fdt_brk (after K c s) = fdt_brk s"
  "sessinfo (after K c s) = sessinfo s" "conns (after K c s) = conns s" "cnts (after K c s) = cnts s"
  "tun (after K c s) = tun s" "epollfd (after K c s) = epollfd s" "perms (after K c s) = perms s"
  "p_sess (after K c s) = p_sess s" "threads (after K c s) = threads s"
  by (simp_all add: after_def Let_def)

lemma grow_sessions [simp]:
  "(grow h e s)\<lparr>sessions := v\<rparr> = grow h e (s\<lparr>sessions := v\<rparr>)"
  by (cases s) (simp add: grow_def)

section \<open>Sessions\<close>

definition nonnull :: "ptr \<Rightarrow> (nat, 's) prog" where
  "nonnull p = (case p of None \<Rightarrow> stop NullDeref | Some q \<Rightarrow> ret q)"

definition get_sess :: "nat \<Rightarrow> (session, server) prog" where
  "get_sess p = bind (gets sessions) (\<lambda>h. lift (deref h p))"

definition upd_sess :: "nat \<Rightarrow> (session \<Rightarrow> session) \<Rightarrow> (unit, server) prog" where
  "upd_sess p f = bind (get_sess p) (\<lambda>x. modify (\<lambda>s. s\<lparr>sessions := (sessions s)(p \<mapsto> f x)\<rparr>))"

definition new_sess :: "session \<Rightarrow> (nat, server) prog" where
  "new_sess x = bind (gets sess_brk) (\<lambda>p.
     seq (modify (\<lambda>s. s\<lparr>sessions := (sessions s)(p \<mapsto> x), sess_brk := Suc p\<rparr>)) (ret p))"

definition free_sess :: "nat \<Rightarrow> (unit, server) prog" where
  "free_sess p = bind (gets sessions) (\<lambda>h. if h p = None then stop InvalidFree
     else modify (\<lambda>s. s\<lparr>sessions := (sessions s)(p := None)\<rparr>))"

lemma wp_get_sess [simp]: "wp (get_sess p) Q s = (case sessions s p of None \<Rightarrow> False | Some x \<Rightarrow> Q x s)"
  by (simp add: get_sess_def deref_def split: option.splits)

lemma wp_upd_sess [simp]: "wp (upd_sess p f) Q s = (case sessions s p of None \<Rightarrow> False
    | Some x \<Rightarrow> Q () (s\<lparr>sessions := (sessions s)(p \<mapsto> f x)\<rparr>))"
  by (simp add: upd_sess_def split: option.splits)

lemma wp_new_sess [simp]: "wp (new_sess x) Q s = Q (sess_brk s)
    (s\<lparr>sessions := (sessions s)(sess_brk s \<mapsto> x), sess_brk := Suc (sess_brk s)\<rparr>)"
  by (simp add: new_sess_def)

lemma wp_free_sess [simp]: "wp (free_sess p) Q s =
    (sessions s p \<noteq> None \<and> Q () (s\<lparr>sessions := (sessions s)(p := None)\<rparr>))"
  by (simp add: free_sess_def)

lemma wp_nonnull [simp]: "wp (nonnull p) Q s = (case p of None \<Rightarrow> False | Some q \<Rightarrow> Q q s)"
  by (simp add: nonnull_def split: option.splits)

section \<open>Descriptor records\<close>

definition getfd_t :: "int \<Rightarrow> int \<Rightarrow> (nat, server) prog" where
  "getfd_t type fd = bind (gets fdt_brk) (\<lambda>q.
     seq (modify (\<lambda>s. s\<lparr>fdts := (fdts s)(q \<mapsto> \<lparr>fd_type = type, fd_fd = fd\<rparr>), fdt_brk := Suc q\<rparr>))
       (ret q))"

definition free_fdt :: "ptr \<Rightarrow> (unit, server) prog" where
  "free_fdt q = (case q of
     None \<Rightarrow> ret ()
   | Some q \<Rightarrow> bind (gets fdts) (\<lambda>h. if h q = None then stop InvalidFree
       else modify (\<lambda>s. s\<lparr>fdts := (fdts s)(q := None)\<rparr>)))"

definition get_info :: "int \<Rightarrow> (edata_t, server) prog" where
  "get_info fd = bind (gets sessinfo) (\<lambda>a. lift (bnd (fd_index fd) (peek_at a)))"

definition set_info :: "int \<Rightarrow> edata_t \<Rightarrow> (unit, server) prog" where
  "set_info fd d = bind (gets sessinfo) (\<lambda>a.
     bind (lift (bnd (fd_index fd) (\<lambda>i. poke_at a i d))) (\<lambda>a.
     modify (\<lambda>s. s\<lparr>sessinfo := a\<rparr>)))"

lemma wp_getfd_t [simp]: "wp (getfd_t type fd) Q s = Q (fdt_brk s)
    (s\<lparr>fdts := (fdts s)(fdt_brk s \<mapsto> \<lparr>fd_type = type, fd_fd = fd\<rparr>), fdt_brk := Suc (fdt_brk s)\<rparr>)"
  by (simp add: getfd_t_def)

lemma wp_free_fdt [simp]: "wp (free_fdt q) Q s = (case q of None \<Rightarrow> Q () s
    | Some q \<Rightarrow> fdts s q \<noteq> None \<and> Q () (s\<lparr>fdts := (fdts s)(q := None)\<rparr>))"
  by (simp add: free_fdt_def split: option.splits)

text \<open>A descriptor that indexes \<open>sessinfo\<close>.\<close>

definition in_table :: "int \<Rightarrow> server \<Rightarrow> bool" where
  "in_table fd s \<longleftrightarrow> 0 \<le> fd \<and> nat fd < length (sessinfo s)"

lemma wp_get_info [simp]: "wp (get_info fd) Q s = (in_table fd s \<and> Q (sessinfo s ! nat fd) s)"
  by (auto simp: get_info_def in_table_def fd_index_def peek_at_def)

lemma wp_set_info [simp]: "wp (set_info fd d) Q s =
    (in_table fd s \<and> Q () (s\<lparr>sessinfo := (sessinfo s)[nat fd := d]\<rparr>))"
  by (auto simp: set_info_def in_table_def fd_index_def poke_at_def)

section \<open>Epoll\<close>

text \<open>\<^verbatim>\<open>epoll_util.cpp\<close>; the result of the calls is not looked at.\<close>

definition setnonblocking :: "kernel \<Rightarrow> int \<Rightarrow> (int, server) prog" where
  "setnonblocking K fd =
     bind (call K (SysFd Getfl fd)) (\<lambda>old_option.
     seq (call K (SysSetNonblock fd True)) (ret old_option))"

definition addFdData :: "kernel \<Rightarrow> int \<Rightarrow> int \<Rightarrow> nat \<Rightarrow> bool \<Rightarrow> (unit, server) prog" where
  "addFdData K epfd fd p one_shot =
     seq (call K (SysEpollCtl (Epoll_add (Data_ptr p) one_shot) epfd fd)) (
     seq (setnonblocking K fd) (ret ()))"

definition addfd :: "kernel \<Rightarrow> int \<Rightarrow> int \<Rightarrow> bool \<Rightarrow> (unit, server) prog" where
  "addfd K epfd fd one_shot =
     seq (call K (SysEpollCtl (Epoll_add (Data_fd fd) one_shot) epfd fd)) (
     seq (setnonblocking K fd) (ret ()))"

definition removefd :: "kernel \<Rightarrow> int \<Rightarrow> int \<Rightarrow> (unit, server) prog" where
  "removefd K epfd fd =
     seq (call K (SysEpollCtl Epoll_del epfd fd)) (
     seq (call K (SysFd Close fd)) (ret ()))"

definition modfd :: "kernel \<Rightarrow> int \<Rightarrow> int \<Rightarrow> bool \<Rightarrow> (unit, server) prog" where
  "modfd K epfd fd out =
     seq (call K (SysEpollCtl (Epoll_mod (Data_fd fd) out) epfd fd)) (ret ())"

definition Epoll_create :: "kernel \<Rightarrow> (int, server) prog" where
  "Epoll_create K = bind (call K SysEpollCreate) (\<lambda>rc. if rc < 0 then stop (Exit 0) else ret rc)"

definition Epoll_wait ::
  "kernel \<Rightarrow> int \<Rightarrow> nat \<Rightarrow> int \<Rightarrow> (int \<times> (bool \<times> bool \<times> bool \<times> epoll_data) list, server) prog" where
  "Epoll_wait K epfd maxevents timeout =
     bind (sys K (SysEpollWait epfd maxevents timeout)) (\<lambda>r.
     if rv r = - 1 then stop (Exit 0)
     else let l = take maxevents (evs r) in ret (int (length l), l))"

section \<open>Closing a session\<close>

text \<open>\<open>closeSess\<close>; \<open>fd\<close> is read before the session is freed, and indexes \<open>sessinfo\<close> after.\<close>

definition closeSess :: "kernel \<Rightarrow> nat \<Rightarrow> (int, server) prog" where
  "closeSess K p =
     bind (get_sess p) (\<lambda>x.
     seq (onlyif (ctrl_fd x \<noteq> - 1) (seq (call K (SysFd Close (ctrl_fd x))) (ret ()))) (
     seq (onlyif (data_fd x \<noteq> - 1) (seq (call K (SysFd Close (data_fd x))) (ret ()))) (
     seq (onlyif (pasv_listen_fd x \<noteq> - 1) (seq (call K (SysFd Close (pasv_listen_fd x))) (ret ()))) (
     let fd = ctrl_fd x in
     seq (free_sess p) (
     bind (get_info fd) (\<lambda>d.
     seq (free_fdt (fd_in d)) (
     seq (set_info fd \<lparr>fd_in = None, ed_sess = None\<rparr>) (
     ret 0))))))))"

text \<open>The calls that close a session, and the state without it.\<close>

definition open_fds :: "session \<Rightarrow> int list" where
  "open_fds x = filter (\<lambda>fd. fd \<noteq> - 1) [ctrl_fd x, data_fd x, pasv_listen_fd x]"

definition without :: "nat \<Rightarrow> int \<Rightarrow> server \<Rightarrow> server" where
  "without p fd s = s\<lparr>sessions := (sessions s)(p := None),
     fdts := (case fd_in (sessinfo s ! nat fd) of None \<Rightarrow> fdts s | Some q \<Rightarrow> (fdts s)(q := None)),
     sessinfo := (sessinfo s)[nat fd := \<lparr>fd_in = None, ed_sess = None\<rparr>]\<rparr>"

lemma without_simps [simp]:
  "sessions (without p fd s) = (sessions s)(p := None)" "trace (without p fd s) = trace s"
  "conns (without p fd s) = conns s" "cnts (without p fd s) = cnts s" "tun (without p fd s) = tun s"
  "sessinfo (without p fd s) = (sessinfo s)[nat fd := \<lparr>fd_in = None, ed_sess = None\<rparr>]"
  "fdts (without p fd s) = (case fd_in (sessinfo s ! nat fd) of None \<Rightarrow> fdts s | Some q \<Rightarrow> (fdts s)(q := None))"
  by (simp_all add: without_def)

lemma grow_fdts [simp]: "(grow h e s)\<lparr>fdts := v\<rparr> = grow h e (s\<lparr>fdts := v\<rparr>)"
  by (cases s) (simp add: grow_def)

lemma grow_sessinfo [simp]: "(grow h e s)\<lparr>sessinfo := v\<rparr> = grow h e (s\<lparr>sessinfo := v\<rparr>)"
  by (cases s) (simp add: grow_def)

lemma grow_conns [simp]: "(grow h e s)\<lparr>conns := v\<rparr> = grow h e (s\<lparr>conns := v\<rparr>)"
  by (cases s) (simp add: grow_def)

lemma in_table_simps [simp]:
  "in_table fd (grow h e s) = in_table fd s"
  "in_table fd (s\<lparr>sessions := v\<rparr>) = in_table fd s" "in_table fd (s\<lparr>fdts := w\<rparr>) = in_table fd s"
  by (simp_all add: in_table_def)

lemma wp_close_fd:
  assumes "\<And>h e. map fst h = (if fd \<noteq> - 1 then [SysFd Close fd] else []) \<Longrightarrow> Q () (grow h e s)"
  shows "wp (onlyif (fd \<noteq> - 1) (seq (call K (SysFd Close fd)) (ret ()))) Q s"
proof (cases "fd = - 1")
  case True
  then show ?thesis using assms [of "[]" "errno s"] by (simp add: grow_def)
next
  case False
  then have "Q () (after K (SysFd Close fd) s)" by (subst after_grow) (rule assms, simp)
  with False show ?thesis by simp
qed

lemma wp_closeSess:
  assumes x: "sessions s p = Some x" "in_table (ctrl_fd x) s"
    and f: "case fd_in (sessinfo s ! nat (ctrl_fd x)) of None \<Rightarrow> True | Some q \<Rightarrow> fdts s q \<noteq> None"
    and Q: "\<And>h e. map fst h = map (SysFd Close) (open_fds x) \<Longrightarrow> Q 0 (grow h e (without p (ctrl_fd x) s))"
  shows "wp (closeSess K p) Q s"
proof -
  let ?c = "\<lambda>fd. onlyif (fd \<noteq> - 1) (seq (call K (SysFd Close fd)) (ret ()))"
  have closing: "wp (?c (ctrl_fd x)) (\<lambda>_. wp (?c (data_fd x)) (\<lambda>_. wp (?c (pasv_listen_fd x)) P)) s"
    if P: "\<And>h e. map fst h = map (SysFd Close) (open_fds x) \<Longrightarrow> P () (grow h e s)" for P
    by (rule wp_close_fd)+ (auto simp: open_fds_def intro!: P)
  show ?thesis
    unfolding closeSess_def wp_bind wp_get_sess x(1) option.case Let_def wp_seq
    using x(2) f by (intro closing, simp) (use x Q in \<open>auto simp: without_def split: option.splits\<close>)
qed

section \<open>Replies\<close>

text \<open>What \<open>sprintf\<close> leaves in a buffer of \<open>n\<close> characters.\<close>

definition sprintf :: "nat \<Rightarrow> string \<Rightarrow> (string, 's) prog" where
  "sprintf n t = (if length t < n then ret t else stop OutOfBounds)"

lemma wp_sprintf [simp]: "wp (sprintf n t) Q s = (length t < n \<and> Q t s)"
  by (simp add: sprintf_def)

definition reply_text :: "int \<Rightarrow> string \<Rightarrow> string" where
  "reply_text status text = dec_int status @ '' '' @ text @ [cr, lf]"

definition lreply_text :: "int \<Rightarrow> string \<Rightarrow> string" where
  "lreply_text status text = dec_int status @ ''-'' @ text @ [cr, lf]"

definition send_ctrl :: "kernel \<Rightarrow> nat \<Rightarrow> string \<Rightarrow> (unit, server) prog" where
  "send_ctrl K p buf =
     bind (get_sess p) (\<lambda>x. seq (writen K (ctrl_fd x) buf) (ret ()))"

definition ftp_reply :: "kernel \<Rightarrow> nat \<Rightarrow> int \<Rightarrow> string \<Rightarrow> (unit, server) prog" where
  "ftp_reply K p status text = bind (sprintf 1024 (reply_text status text)) (send_ctrl K p)"

definition ftp_lreply :: "kernel \<Rightarrow> nat \<Rightarrow> int \<Rightarrow> string \<Rightarrow> (unit, server) prog" where
  "ftp_lreply K p status text = bind (sprintf 1024 (lreply_text status text)) (send_ctrl K p)"

text \<open>
  The replies under a kernel whose writes make progress: whatever the pieces, the text is sent
  on the control connection and nothing else happens.
\<close>

lemma wp_send_ctrl [wp_intro]:
  assumes "writes_progress K"
    and "case sessions s p of None \<Rightarrow> False | Some x \<Rightarrow>
      (\<forall>h e. writes_only (ctrl_fd x) h \<longrightarrow> sent (ctrl_fd x) h = t \<longrightarrow> Q () (grow h e s))"
  shows "wp (send_ctrl K p t) Q s"
  using assms(2) by (auto simp: send_ctrl_def split: option.splits intro!: wp_writen [OF assms(1)])

lemma wp_ftp_reply [wp_intro]:
  assumes "writes_progress K" "length (reply_text n t) < 1024"
    and "case sessions s p of None \<Rightarrow> False | Some x \<Rightarrow> (\<forall>h e. writes_only (ctrl_fd x) h \<longrightarrow>
      sent (ctrl_fd x) h = reply_text n t \<longrightarrow> Q () (grow h e s))"
  shows "wp (ftp_reply K p n t) Q s"
  using assms by (simp add: ftp_reply_def wp_send_ctrl)

lemma wp_ftp_lreply [wp_intro]:
  assumes "writes_progress K" "length (lreply_text n t) < 1024"
    and "case sessions s p of None \<Rightarrow> False | Some x \<Rightarrow> (\<forall>h e. writes_only (ctrl_fd x) h \<longrightarrow>
      sent (ctrl_fd x) h = lreply_text n t \<longrightarrow> Q () (grow h e s))"
  shows "wp (ftp_lreply K p n t) Q s"
  using assms by (simp add: ftp_lreply_def wp_send_ctrl)

lemma length_reply_text [simp]:
  "length (reply_text n t) = length (dec_int n) + length t + 3"
  "length (lreply_text n t) = length (dec_int n) + length t + 3"
  by (simp_all add: reply_text_def lreply_text_def)

text \<open>The calls made since a state.\<close>

definition since :: "server \<Rightarrow> server \<Rightarrow> history" where
  "since s s' = drop (length (trace s)) (trace s')"

lemma since_eq: "trace s' = trace s @ h \<Longrightarrow> since s s' = h"
  by (simp add: since_def)

end
