(* ===== verification/FtpProto.thy ===== *)
theory FtpProto
  imports Server
begin

text \<open>
  The command handlers of \<^verbatim>\<open>ftpproto.cpp\<close> that run on the event loop, one definition for each
  function of the source, with the reply codes of \<^verbatim>\<open>ftpcodes.h\<close>. A handler gets the address of
  its session. Paths go to the kernel as they are. Output to the terminal is left out, the calls
  made to compute it are not.
\<close>

section \<open>Reply codes\<close>

definition FTP_DATACONN :: int where [simp]: "FTP_DATACONN = 150"
definition FTP_NOOPOK :: int where [simp]: "FTP_NOOPOK = 200"
definition FTP_TYPEOK :: int where [simp]: "FTP_TYPEOK = 200"
definition FTP_PORTOK :: int where [simp]: "FTP_PORTOK = 200"
definition FTP_UMASKOK :: int where [simp]: "FTP_UMASKOK = 200"
definition FTP_CHMODOK :: int where [simp]: "FTP_CHMODOK = 200"
definition FTP_FEAT :: int where [simp]: "FTP_FEAT = 211"
definition FTP_STATOK :: int where [simp]: "FTP_STATOK = 211"
definition FTP_SIZEOK :: int where [simp]: "FTP_SIZEOK = 213"
definition FTP_SITEHELP :: int where [simp]: "FTP_SITEHELP = 214"
definition FTP_HELP :: int where [simp]: "FTP_HELP = 214"
definition FTP_SYSTOK :: int where [simp]: "FTP_SYSTOK = 215"
definition FTP_GREET :: int where [simp]: "FTP_GREET = 220"
definition FTP_GOODBYE :: int where [simp]: "FTP_GOODBYE = 221"
definition FTP_ABOR_NOCONN :: int where [simp]: "FTP_ABOR_NOCONN = 225"
definition FTP_TRANSFEROK :: int where [simp]: "FTP_TRANSFEROK = 226"
definition FTP_ABOROK :: int where [simp]: "FTP_ABOROK = 226"
definition FTP_PASVOK :: int where [simp]: "FTP_PASVOK = 227"
definition FTP_LOGINOK :: int where [simp]: "FTP_LOGINOK = 230"
definition FTP_CWDOK :: int where [simp]: "FTP_CWDOK = 250"
definition FTP_RMDIROK :: int where [simp]: "FTP_RMDIROK = 250"
definition FTP_DELEOK :: int where [simp]: "FTP_DELEOK = 250"
definition FTP_RENAMEOK :: int where [simp]: "FTP_RENAMEOK = 250"
definition FTP_PWDOK :: int where [simp]: "FTP_PWDOK = 257"
definition FTP_MKDIROK :: int where [simp]: "FTP_MKDIROK = 257"
definition FTP_GIVEPWORD :: int where [simp]: "FTP_GIVEPWORD = 331"
definition FTP_RESTOK :: int where [simp]: "FTP_RESTOK = 350"
definition FTP_RNFROK :: int where [simp]: "FTP_RNFROK = 350"
definition FTP_TOO_MANY_USERS :: int where [simp]: "FTP_TOO_MANY_USERS = 421"
definition FTP_IP_LIMIT :: int where [simp]: "FTP_IP_LIMIT = 421"
definition FTP_BADSENDNET :: int where [simp]: "FTP_BADSENDNET = 426"
definition FTP_BADSENDFILE :: int where [simp]: "FTP_BADSENDFILE = 451"
definition FTP_BADCMD :: int where [simp]: "FTP_BADCMD = 500"
definition FTP_COMMANDNOTIMPL :: int where [simp]: "FTP_COMMANDNOTIMPL = 502"
definition FTP_NEEDRNFR :: int where [simp]: "FTP_NEEDRNFR = 503"
definition FTP_LOGINERR :: int where [simp]: "FTP_LOGINERR = 530"
definition FTP_FILEFAIL :: int where [simp]: "FTP_FILEFAIL = 550"
definition FTP_UPLOADFAIL :: int where [simp]: "FTP_UPLOADFAIL = 553"

lemma dec_codes [simp]:
  "dec_int 150 = ''150''" "dec_int 200 = ''200''" "dec_int 211 = ''211''" "dec_int 213 = ''213''"
  "dec_int 214 = ''214''" "dec_int 215 = ''215''" "dec_int 220 = ''220''" "dec_int 221 = ''221''"
  "dec_int 225 = ''225''" "dec_int 226 = ''226''" "dec_int 227 = ''227''" "dec_int 230 = ''230''"
  "dec_int 250 = ''250''" "dec_int 257 = ''257''" "dec_int 331 = ''331''" "dec_int 350 = ''350''"
  "dec_int 421 = ''421''" "dec_int 426 = ''426''" "dec_int 451 = ''451''" "dec_int 500 = ''500''"
  "dec_int 502 = ''502''" "dec_int 503 = ''503''" "dec_int 530 = ''530''" "dec_int 550 = ''550''"
  "dec_int 553 = ''553''"
  by code_simp+

section \<open>Arguments\<close>

text \<open>The string a buffer holds; running off its end is a fault.\<close>

definition cstring :: "string \<Rightarrow> string res" where
  "cstring b = bnd (strlen b) (\<lambda>n. Inr (take n b))"

lemma cstring_terminated [simp]: "terminated b \<Longrightarrow> cstring b = Inr (cstr b)"
  by (simp add: cstring_def strlen_terminated) (metis append_eq_conv_conj terminated_split)

lemma cstring_unterminated [simp]: "\<not> terminated b \<Longrightarrow> cstring b = Inl OutOfBounds"
  by (simp add: cstring_def strlen_unterminated)

definition sess_arg :: "nat \<Rightarrow> (string, server) prog" where
  "sess_arg p = bind (get_sess p) (\<lambda>x. lift (cstring (arg x)))"

lemma wp_sess_arg [simp]: "wp (sess_arg p) Q s = (case sessions s p of None \<Rightarrow> False
    | Some x \<Rightarrow> terminated (arg x) \<and> Q (cstr (arg x)) s)"
  by (cases "sessions s p"; cases "terminated (arg (the (sessions s p)))") (simp_all add: sess_arg_def)

text \<open>
  \<open>sscanf\<close> with a format of \<^verbatim>\<open>%u\<close> and separators: the numbers read before the first
  mismatch. A number may have spaces and a sign before it, and wraps around.
\<close>

definition scan_uint :: "string \<Rightarrow> (u32 \<times> string) option" where
  "scan_uint s =
     (let s = dropWhile isspace s;
          neg = (s \<noteq> [] \<and> hd s = CHR ''-'');
          s = (if s \<noteq> [] \<and> (hd s = CHR ''-'' \<or> hd s = CHR ''+'') then tl s else s);
          d = takeWhile isdigit s;
          v = base_val 10 0 d
      in if d = [] then None
         else Some (if 2 ^ 64 \<le> v then - 1 else if neg then - of_nat v else of_nat v,
           dropWhile isdigit s))"

fun scan_uints :: "char \<Rightarrow> nat \<Rightarrow> string \<Rightarrow> u32 list" where
  "scan_uints c 0 s = []"
| "scan_uints c (Suc n) s =
     (case scan_uint s of
        None \<Rightarrow> []
      | Some (v, r) \<Rightarrow> v # (if r \<noteq> [] \<and> hd r = c then scan_uints c n (tl r) else []))"

text \<open>What \<open>printf\<close> makes of a string that may be \<open>NULL\<close>.\<close>

definition show_str :: "string option \<Rightarrow> string" where
  "show_str t = (case t of None \<Rightarrow> ''(null)'' | Some t \<Rightarrow> t)"

definition isreg :: "statbuf \<Rightarrow> bool" where
  "isreg b \<longleftrightarrow> st_mode b AND 0xF000 = 0x8000"

definition islnk :: "statbuf \<Rightarrow> bool" where
  "islnk b \<longleftrightarrow> st_mode b AND 0xF000 = 0xA000"

section \<open>Login\<close>

definition do_user :: "kernel \<Rightarrow> nat \<Rightarrow> (unit, server) prog" where
  "do_user K p =
     bind (sess_arg p) (\<lambda>a.
     bind (sys K (SysPath Getpwnam a)) (\<lambda>pw.
     if rv pw < 0 then ftp_reply K p FTP_LOGINERR ''Login incorrect.''
     else seq (upd_sess p (\<lambda>x. x\<lparr>uid := num pw\<rparr>))
       (ftp_reply K p FTP_GIVEPWORD ''Please specify the password.'')))"

definition do_pass :: "kernel \<Rightarrow> nat \<Rightarrow> (unit, server) prog" where
  "do_pass K p =
     bind (get_sess p) (\<lambda>x.
     bind (sys K (SysGetpwuid (uid x))) (\<lambda>pw.
     if rv pw < 0 then ftp_reply K p FTP_LOGINERR ''Login incorrect.''
     else bind (sys K (SysPath Getspnam (dat pw))) (\<lambda>sp.
       if rv sp < 0 then ftp_reply K p FTP_LOGINERR ''Login incorrect.''
       else bind (sess_arg p) (\<lambda>a.
         bind (sys K (SysCrypt a (dat sp))) (\<lambda>encrypted_pass.
         if rv encrypted_pass < 0 then stop NullDeref
         else if dat encrypted_pass \<noteq> dat sp then ftp_reply K p FTP_LOGINERR ''Login incorrect.''
         else bind (call K (SysPath Open (dat2 pw))) (\<lambda>fd.
           seq (upd_sess p (\<lambda>x. x\<lparr>dirfd := fd\<rparr>)) (
           if fd < 0 then ftp_reply K p FTP_LOGINERR ''Login incorrect.''
           else ftp_reply K p FTP_LOGINOK ''Login successful.'')))))))"

section \<open>Directories\<close>

definition do_cwd :: "kernel \<Rightarrow> nat \<Rightarrow> (unit, server) prog" where
  "do_cwd K p =
     bind (sess_arg p) (\<lambda>a.
     bind (get_sess p) (\<lambda>x.
     bind (get_file_name K (dirfd x)) (\<lambda>_.
     bind (call K (SysOpenat (dirfd x) a False)) (\<lambda>newdir.
     if newdir < 0 then ftp_reply K p FTP_FILEFAIL ''Failed to change directory.''
     else bind (get_file_name K newdir) (\<lambda>_.
       seq (call K (SysFd Close (dirfd x))) (
       seq (upd_sess p (\<lambda>x. x\<lparr>dirfd := newdir\<rparr>))
         (ftp_reply K p FTP_CWDOK ''Directory successfully changed.'')))))))"

definition do_cdup :: "kernel \<Rightarrow> nat \<Rightarrow> (unit, server) prog" where
  "do_cdup K p =
     bind (call K (SysPath Chdir ''..'')) (\<lambda>r.
     if r < 0 then ftp_reply K p FTP_FILEFAIL ''Failed to change directory.''
     else ftp_reply K p FTP_CWDOK ''Directory successfully changed.'')"

definition do_pwd :: "kernel \<Rightarrow> nat \<Rightarrow> (unit, server) prog" where
  "do_pwd K p =
     bind (get_sess p) (\<lambda>x.
     bind (get_file_name K (dirfd x)) (\<lambda>f.
     bind (sprintf 1024 (CHR 0x22 # show_str f @ [CHR 0x22])) (\<lambda>text.
     ftp_reply K p FTP_PWDOK text)))"

text \<open>\<open>dir[strlen(dir)-1]\<close> is out of bounds when \<open>getcwd\<close> left \<open>dir\<close> empty.\<close>

definition do_mkd :: "kernel \<Rightarrow> nat \<Rightarrow> (unit, server) prog" where
  "do_mkd K p =
     bind (sess_arg p) (\<lambda>a.
     bind (call K (SysPath Mkdir a)) (\<lambda>r.
     if r < 0 then ftp_reply K p FTP_FILEFAIL ''Create directory operation failed.''
     else
       bind (if a \<noteq> [] \<and> hd a = CHR ''/'' then sprintf 4096 (a @ '' create'')
             else bind (sys K (SysGetcwd 4096)) (\<lambda>r.
               let dir = (if rv r < 0 then [] else cstr (take 4095 (dat r))) in
               if dir = [] then stop OutOfBounds
               else if last dir = CHR ''/'' then sprintf 4096 (dir @ a @ '' created'')
               else sprintf 4096 (dir @ ''/'' @ a @ '' created''))) (\<lambda>text.
       ftp_reply K p FTP_MKDIROK text)))"

definition do_rmd :: "kernel \<Rightarrow> nat \<Rightarrow> (unit, server) prog" where
  "do_rmd K p =
     bind (sess_arg p) (\<lambda>a.
     bind (call K (SysPath Rmdir a)) (\<lambda>r.
     if r < 0 then ftp_reply K p FTP_FILEFAIL ''Remove directory operation failed.''
     else ftp_reply K p FTP_RMDIROK ''Remove directory operation successful.''))"

definition do_dele :: "kernel \<Rightarrow> nat \<Rightarrow> (unit, server) prog" where
  "do_dele K p =
     bind (sess_arg p) (\<lambda>a.
     bind (call K (SysPath Unlink a)) (\<lambda>r.
     if r < 0 then ftp_reply K p FTP_FILEFAIL ''Delete operation failed.''
     else ftp_reply K p FTP_DELEOK ''Delete operation successful.''))"

definition do_rnfr :: "kernel \<Rightarrow> nat \<Rightarrow> (unit, server) prog" where
  "do_rnfr K p =
     bind (sess_arg p) (\<lambda>a.
     seq (upd_sess p (\<lambda>x. x\<lparr>rnfr_name := Some a\<rparr>))
       (ftp_reply K p FTP_RNFROK ''Ready for RNTO''))"

definition do_rnto :: "kernel \<Rightarrow> nat \<Rightarrow> (unit, server) prog" where
  "do_rnto K p =
     bind (get_sess p) (\<lambda>x.
     case rnfr_name x of
       None \<Rightarrow> ftp_reply K p FTP_NEEDRNFR ''RNFR required first.''
     | Some f \<Rightarrow>
         bind (sess_arg p) (\<lambda>a.
         seq (call K (SysRename f a)) (
         seq (ftp_reply K p FTP_RENAMEOK ''Rename successful.'') (
         upd_sess p (\<lambda>x. x\<lparr>rnfr_name := None\<rparr>)))))"

definition do_size :: "kernel \<Rightarrow> nat \<Rightarrow> (unit, server) prog" where
  "do_size K p =
     bind (sess_arg p) (\<lambda>a.
     bind (sys K (SysPath Stat a)) (\<lambda>r.
     if rv r < 0 then ftp_reply K p FTP_FILEFAIL ''SIZE operation failed.''
     else if \<not> isreg (stb r) then ftp_reply K p FTP_FILEFAIL ''SIZE operation failed.''
     else bind (sprintf 1024 (dec_int (st_size (stb r)))) (ftp_reply K p FTP_SIZEOK)))"

section \<open>Session\<close>

definition handleChild :: "kernel \<Rightarrow> nat \<Rightarrow> (unit, server) prog" where
  "handleChild K p = ftp_reply K p FTP_GREET ''(myftpd 0.1)''"

definition do_quit :: "kernel \<Rightarrow> nat \<Rightarrow> (unit, server) prog" where
  "do_quit K p =
     seq (ftp_reply K p FTP_GOODBYE ''Goodbye.'') (seq (closeSess K p) (ret ()))"

definition do_type :: "kernel \<Rightarrow> nat \<Rightarrow> (unit, server) prog" where
  "do_type K p =
     bind (sess_arg p) (\<lambda>a.
     if a = ''A'' then seq (upd_sess p (\<lambda>x. x\<lparr>is_ascii := 1\<rparr>))
       (ftp_reply K p FTP_TYPEOK ''Switching to ASCII mode.'')
     else if a = ''I'' then seq (upd_sess p (\<lambda>x. x\<lparr>is_ascii := 0\<rparr>))
       (ftp_reply K p FTP_TYPEOK ''Switching to Binary mode.'')
     else ftp_reply K p FTP_BADCMD ''Unrecognised TYPE command.'')"

definition do_rest :: "kernel \<Rightarrow> nat \<Rightarrow> (unit, server) prog" where
  "do_rest K p =
     bind (get_sess p) (\<lambda>x.
     bind (lift (str_to_longlong (arg x))) (\<lambda>n.
     seq (upd_sess p (\<lambda>x. x\<lparr>restart_pos := n\<rparr>)) (
     bind (sprintf 1024 (''Restart position accepted ('' @ dec_int n @ '').'')) (
     ftp_reply K p FTP_RESTOK))))"

definition do_abor :: "kernel \<Rightarrow> nat \<Rightarrow> (unit, server) prog" where
  "do_abor K p = ftp_reply K p FTP_ABOR_NOCONN ''No transfer to ABOR''"

definition do_syst :: "kernel \<Rightarrow> nat \<Rightarrow> (unit, server) prog" where
  "do_syst K p = ftp_reply K p FTP_SYSTOK ''UNIX Type: L8''"

definition do_noop :: "kernel \<Rightarrow> nat \<Rightarrow> (unit, server) prog" where
  "do_noop K p = ftp_reply K p FTP_NOOPOK ''NOOP ok.''"

text \<open>Several lines written one after the other.\<close>

primrec send_lines :: "kernel \<Rightarrow> nat \<Rightarrow> string list \<Rightarrow> (unit, server) prog" where
  "send_lines K p [] = ret ()"
| "send_lines K p (l # ls) = seq (send_ctrl K p (l @ [cr, lf])) (send_lines K p ls)"

definition do_feat :: "kernel \<Rightarrow> nat \<Rightarrow> (unit, server) prog" where
  "do_feat K p =
     seq (ftp_lreply K p FTP_FEAT ''Features:'') (
     seq (send_lines K p
       ['' EPRT'', '' EPSV'', '' MDTM'', '' PASV'', '' REST STREAM'', '' SIZE'', '' TVFS'', '' UTF8'']) (
     ftp_reply K p FTP_FEAT ''End''))"

definition do_help :: "kernel \<Rightarrow> nat \<Rightarrow> (unit, server) prog" where
  "do_help K p =
     seq (ftp_lreply K p FTP_HELP ''The following commands are recognized.'') (
     seq (send_lines K p
       ['' ABOR ACCT ALLO APPE CDUP CWD  DELE EPRT EPSV FEAT HELP LIST MDTM MKD'',
        '' MODE NLST NOOP OPTS PASS PASV PORT PWD  QUIT REIN REST RETR RMD  RNFR'',
        '' RNTO SITE SIZE SMNT STAT STOR STOU STRU SYST TYPE USER XCUP XCWD XMKD'',
        '' XPWD XRMD'']) (
     ftp_reply K p FTP_HELP ''Help OK.''))"

text \<open>
  The second test of \<open>do_stat\<close> looks at the upload rate again, and the line with the number
  of clients is formatted but not sent.
\<close>

definition do_stat :: "kernel \<Rightarrow> nat \<Rightarrow> (unit, server) prog" where
  "do_stat K p =
     seq (ftp_lreply K p FTP_STATOK ''FTP server status:'') (
     bind (get_sess p) (\<lambda>x.
     seq (if bw_upload_rate_max x = 0 then
            bind (sprintf 1024 (''     No session upload bandwidth limit'' @ [cr, lf])) (send_ctrl K p)
          else if 0 < bw_upload_rate_max x then
            bind (sprintf 1024 (''     Session upload bandwidth limit in byte/s is ''
              @ dec_nat (unat (bw_upload_rate_max x)) @ [cr, lf])) (send_ctrl K p)
          else ret ()) (
     seq (if bw_download_rate_max x = 0 then
            bind (sprintf 1024 (''     No session download bandwidth limit'' @ [cr, lf])) (send_ctrl K p)
          else if 0 < bw_upload_rate_max x then
            bind (sprintf 1024 (''     Session download bandwidth limit in byte/s is ''
              @ dec_nat (unat (bw_download_rate_max x)) @ [cr, lf])) (send_ctrl K p)
          else ret ()) (
     bind (sprintf 1024 (''     At session startup, client count was ''
       @ dec_nat (unat (num_clients x)) @ [cr, lf])) (\<lambda>text.
     ftp_reply K p FTP_STATOK ''End of status'')))))"

section \<open>SITE\<close>

definition do_site_chmod :: "kernel \<Rightarrow> nat \<Rightarrow> string \<Rightarrow> (unit, server) prog" where
  "do_site_chmod K p chmod_arg =
     bind (lift (strlen chmod_arg)) (\<lambda>n.
     if n = 0 then ftp_reply K p FTP_BADCMD ''SITE CHMOD needs 2 arguments.''
     else bind (lift (str_split chmod_arg (zeros 100) (zeros 100) (CHR '' ''))) (\<lambda>(perm, file).
       bind (lift (strlen file)) (\<lambda>n.
       if n = 0 then ftp_reply K p FTP_BADCMD ''SITE CHMOD needs 2 arguments.''
       else bind (lift (str_octal_to_uint perm)) (\<lambda>mode.
         bind (call K (SysChmod (cstr file) mode)) (\<lambda>r.
         if r < 0 then ftp_reply K p FTP_CHMODOK ''SITE CHMOD command failed.''
         else ftp_reply K p FTP_CHMODOK ''SITE CHMOD command ok.'')))))"

definition do_site_umask :: "kernel \<Rightarrow> nat \<Rightarrow> string \<Rightarrow> (unit, server) prog" where
  "do_site_umask K p umask_arg =
     bind (lift (strlen umask_arg)) (\<lambda>n.
     if n = 0 then
       bind (gets (\<lambda>s. tunable_local_umask (tun s))) (\<lambda>um.
       bind (sprintf 1024 (''Your current UMASK is 0'' @ oct_nat (unat um))) (
       ftp_reply K p FTP_UMASKOK))
     else
       bind (lift (str_octal_to_uint umask_arg)) (\<lambda>um.
       seq (call K (SysUmask um)) (
       bind (sprintf 1024 (''UMASK set to 0'' @ oct_nat (unat um))) (
       ftp_reply K p FTP_UMASKOK))))"

definition do_site :: "kernel \<Rightarrow> nat \<Rightarrow> (unit, server) prog" where
  "do_site K p =
     bind (get_sess p) (\<lambda>x.
     bind (lift (str_split (arg x) (zeros 100) (zeros 100) (CHR '' ''))) (\<lambda>(c, a).
     if cstr c = ''CHMOD'' then do_site_chmod K p a
     else if cstr c = ''UMASK'' then do_site_umask K p a
     else if cstr c = ''HELP'' then ftp_reply K p FTP_SITEHELP ''CHMOD UMASK HELP''
     else ftp_reply K p FTP_BADCMD ''Unknown SITE command.''))"

section \<open>Data connections\<close>

definition do_port :: "kernel \<Rightarrow> nat \<Rightarrow> (unit, server) prog" where
  "do_port K p =
     bind (sess_arg p) (\<lambda>a.
     case scan_uints (CHR '','') 6 a of
       [v2, v3, v4, v5, v0, v1] \<Rightarrow>
         seq (upd_sess p (\<lambda>x. x\<lparr>port_addr :=
           Some (map ucast [v0, v1], map ucast [v2, v3, v4, v5])\<rparr>))
         (ftp_reply K p FTP_PORTOK ''PORT command successful. Consider using PASV.'')
     | _ \<Rightarrow> stop Uninitialised)"

definition getDataLisPort :: "kernel \<Rightarrow> nat \<Rightarrow> (nat, server) prog" where
  "getDataLisPort K p =
     bind (getlocalip K (zeros 16)) (\<lambda>(_, ip).
     bind (tcp_server K (Some (cstr ip)) 0) (\<lambda>fd.
     seq (upd_sess p (\<lambda>x. x\<lparr>pasv_listen_fd := fd\<rparr>)) (
     bind (sys K (SysFd Getsockname fd)) (\<lambda>r.
     if rv r < 0 then stop (Exit 1) else ret (port r mod 65536)))))"

definition pasv_text :: "u32 list \<Rightarrow> nat \<Rightarrow> string" where
  "pasv_text v prt = ''Entering Passive Mode (''
     @ concat (map (\<lambda>n. dec_nat (unat n) @ '','') v) @ dec_nat (prt div 256) @ '',''
     @ dec_nat (prt mod 256) @ '').''"

definition do_pasv :: "kernel \<Rightarrow> nat \<Rightarrow> (unit, server) prog" where
  "do_pasv K p =
     bind (getlocalip K (zeros 16)) (\<lambda>(_, ip).
     bind (getDataLisPort K p) (\<lambda>prt.
     bind (get_sess p) (\<lambda>x.
     bind (getfd_t FDTYPEDATA (pasv_listen_fd x)) (\<lambda>fdt.
     seq (set_info (pasv_listen_fd x) \<lparr>fd_in = Some fdt, ed_sess = Some p\<rparr>) (
     bind (gets epollfd) (\<lambda>ep.
     seq (addFdData K ep (pasv_listen_fd x) (nat (pasv_listen_fd x)) False) (
     let v = scan_uints (CHR ''.'') 4 (cstr ip) in
     if length v < 4 then stop Uninitialised
     else bind (sprintf 1024 (pasv_text v prt)) (ftp_reply K p FTP_PASVOK))))))))"

definition getPasvDataFd :: "nat \<Rightarrow> (int, server) prog" where
  "getPasvDataFd p =
     bind (get_sess p) (\<lambda>x.
     if pasv_listen_fd x = - 1 then ret 0
     else if data_fd x = - 1 then ret 0
     else ret (data_fd x))"

text \<open>Both descriptors of a transfer are taken out of epoll and closed.\<close>

definition drop_data_fds :: "kernel \<Rightarrow> nat \<Rightarrow> (unit, server) prog" where
  "drop_data_fds K p =
     bind (gets epollfd) (\<lambda>ep.
     bind (get_sess p) (\<lambda>x.
     seq (removefd K ep (data_fd x)) (
     seq (removefd K ep (pasv_listen_fd x)) (
     upd_sess p (\<lambda>x. x\<lparr>data_fd := - 1, pasv_listen_fd := - 1\<rparr>)))))"

text \<open>
  \<open>pthread_create\<close> returns a positive error number when it fails, so the test for \<open>-1\<close> is
  never met; \<open>fail\<close> is what the source does then.
\<close>

definition spawn :: "kernel \<Rightarrow> thread \<Rightarrow> (unit, server) prog" where
  "spawn K t =
     bind (call K SysThread) (\<lambda>r.
     if r = - 1 then ret ()
     else if r = 0 then modify (\<lambda>s. s\<lparr>threads := threads s @ [t]\<rparr>)
     else ret ())"

definition do_retr :: "kernel \<Rightarrow> nat \<Rightarrow> (unit, server) prog" where
  "do_retr K p =
     bind (getPasvDataFd p) (\<lambda>fd. if fd = 0 then ret () else spawn K (ThreadRetr p))"

definition do_stor :: "kernel \<Rightarrow> nat \<Rightarrow> (unit, server) prog" where
  "do_stor K p =
     bind (getPasvDataFd p) (\<lambda>fd. if fd = 0 then ret () else spawn K (UploadCommon p 0))"

definition do_appe :: "kernel \<Rightarrow> nat \<Rightarrow> (unit, server) prog" where
  "do_appe K p = bind (getPasvDataFd p) (\<lambda>fd. if fd = 0 then ret () else ret ())"

section \<open>Listings\<close>

text \<open>One line of a detailed listing; \<open>perms\<close> is the static array of \<open>statbuf_get_perms\<close>.\<close>

definition detail_text :: "string \<Rightarrow> statbuf \<Rightarrow> string \<Rightarrow> string \<Rightarrow> string" where
  "detail_text pm b date name =
     pm @ '' '' @ pad_left 3 (dec_int (to_int32 (st_nlink b))) @ '' ''
     @ pad_right 8 (dec_int (to_int32 (st_uid b))) @ '' '' @ pad_right 8 (dec_int (to_int32 (st_gid b)))
     @ '' '' @ pad_left 8 (dec_nat (nat (st_size b mod 2 ^ 64))) @ '' '' @ date @ '' '' @ name"

definition detail_line :: "kernel \<Rightarrow> statbuf \<Rightarrow> string \<Rightarrow> (string, server) prog" where
  "detail_line K b name =
     seq (modify (\<lambda>s. s\<lparr>perms := statbuf_get_perms (st_mode b) (perms s)\<rparr>)) (
     bind (gets perms) (\<lambda>pm.
     bind (statbuf_get_date K b) (\<lambda>date.
     if islnk b then
       bind (sys K (SysReadlink name 1024)) (\<lambda>r.
       let tmp = (if rv r < 0 then [] else take 1024 (dat r)) in
       if length tmp = 1024 \<and> nul \<notin> set tmp then stop OutOfBounds
       else sprintf 1024 (detail_text pm b date name @ '' -> '' @ cstr tmp @ [cr, lf]))
     else sprintf 1024 (detail_text pm b date name @ [cr, lf]))))"

definition list_entry :: "kernel \<Rightarrow> nat \<Rightarrow> int \<Rightarrow> string \<Rightarrow> (unit, server) prog" where
  "list_entry K p detail name =
     bind (get_sess p) (\<lambda>x.
     bind (get_file_name K (dirfd x)) (\<lambda>f.
     bind (sprintf 1024 (show_str f @ ''/'' @ name)) (\<lambda>path.
     bind (sys K (SysPath Lstat path)) (\<lambda>r.
     if rv r < 0 then ret ()
     else if name \<noteq> [] \<and> hd name = CHR ''.'' then ret ()
     else bind (if detail \<noteq> 0 then detail_line K (stb r) name else sprintf 1024 (name @ [cr, lf])) (\<lambda>buf.
       bind (get_sess p) (\<lambda>x.
       seq (writen K (data_fd x) buf) (ret ())))))))"

partial_function (option) list_loop :: "kernel \<Rightarrow> nat \<Rightarrow> int \<Rightarrow> int \<Rightarrow> (unit, server) prog" where
  "list_loop K p detail dir s =
     bind (sys K (SysFd Readdir dir)) (\<lambda>dt.
     if rv dt < 0 then ret ()
     else seq (list_entry K p detail (cstr (dat dt))) (list_loop K p detail dir)) s"

definition list_common :: "kernel \<Rightarrow> nat \<Rightarrow> int \<Rightarrow> (int, server) prog" where
  "list_common K p detail =
     bind (get_sess p) (\<lambda>x.
     bind (get_file_name K (dirfd x)) (\<lambda>f.
     bind (call K (SysOpendir f)) (\<lambda>dir.
     if dir < 0 then ret 0
     else
       seq (list_loop K p detail dir) (
       seq (call K (SysFd Closedir dir)) (ret 1)))))"

definition do_list :: "kernel \<Rightarrow> nat \<Rightarrow> (unit, server) prog" where
  "do_list K p =
     bind (getPasvDataFd p) (\<lambda>fd.
     if fd = 0 then ret ()
     else
       seq (ftp_reply K p FTP_DATACONN ''Here comes the directory listing.'') (
       seq (list_common K p 1) (
       seq (drop_data_fds K p) (
       ftp_reply K p FTP_TRANSFEROK ''Directory send OK.''))))"

definition get_transfer_fd :: "nat \<Rightarrow> (int, server) prog" where
  "get_transfer_fd p = ret 0"

definition do_nlst :: "kernel \<Rightarrow> nat \<Rightarrow> (unit, server) prog" where
  "do_nlst K p =
     bind (get_transfer_fd p) (\<lambda>fd.
     if fd = 0 then ret ()
     else
       seq (ftp_reply K p FTP_DATACONN ''Here comes the directory listing.'') (
       seq (list_common K p 0) (
       bind (get_sess p) (\<lambda>x.
       seq (call K (SysFd Close (data_fd x))) (
       seq (upd_sess p (\<lambda>x. x\<lparr>data_fd := - 1\<rparr>)) (
       ftp_reply K p FTP_TRANSFEROK ''Directory send OK.''))))))"

end
