(* ===== verification/LineReader.thy ===== *)
theory LineReader
  imports SysUtil
begin

text \<open>
  What \<open>readline\<close> of \<^verbatim>\<open>sysutil.cpp\<close> does on a connection, whatever the sizes of the pieces in
  which the bytes arrive: a \<open>stream\<close> is a kernel that hands out the bytes of one string in
  order, by non-empty pieces of its choice, and shows them to \<open>MSG_PEEK\<close> without taking them.
\<close>

section \<open>Streams\<close>

definition delivers :: "nat \<Rightarrow> string \<Rightarrow> sysret \<Rightarrow> bool" where
  "delivers n left r \<longleftrightarrow> 0 \<le> rv r \<and> (\<exists>k. 0 < k \<and> k \<le> n \<and> take n (dat r) = take k left)"

definition stream :: "kernel \<Rightarrow> int \<Rightarrow> string \<Rightarrow> bool" where
  "stream K fd inp \<longleftrightarrow> (\<forall>h n left. inp = taken fd h @ left \<longrightarrow> left \<noteq> [] \<longrightarrow> 0 < n \<longrightarrow>
     delivers n left (K h (SysRead fd n)) \<and> delivers n left (K h (SysPeek fd n)))"

text \<open>
  A client that sends one line, waits for the answer, and sends the next: what can be read or peeked
  at is never more than the line that is due.
\<close>

definition first_line :: "string \<Rightarrow> string" where
  "first_line left = takeWhile (\<lambda>c. c \<noteq> lf) left @ take 1 (dropWhile (\<lambda>c. c \<noteq> lf) left)"

definition line_stream :: "kernel \<Rightarrow> int \<Rightarrow> string \<Rightarrow> bool" where
  "line_stream K fd inp \<longleftrightarrow> (\<forall>h n left. inp = taken fd h @ left \<longrightarrow> left \<noteq> [] \<longrightarrow> 0 < n \<longrightarrow>
     delivers n (first_line left) (K h (SysRead fd n)) \<and> delivers n (first_line left) (K h (SysPeek fd n)))"

text \<open>Up to the end of a line it is a stream, whatever comes after.\<close>

lemma first_line_prefix: "first_line left = take (length (first_line left)) left"
proof -
  let ?P = "\<lambda>c. c \<noteq> lf"
  have "left = first_line left @ drop 1 (dropWhile ?P left)"
    unfolding first_line_def by (metis append.assoc append_take_drop_id takeWhile_dropWhile_id)
  then show ?thesis by (metis append_eq_conv_conj)
qed

lemma first_line_later:
  assumes "lf \<in> set left"
  shows "first_line (left @ later) = first_line left"
proof -
  have "dropWhile (\<lambda>c. c \<noteq> lf) left \<noteq> []" using assms by (auto simp: dropWhile_eq_Nil_conv)
  with assms show ?thesis by (cases "dropWhile (\<lambda>c. c \<noteq> lf) left")
    (auto simp: first_line_def takeWhile_append1 dropWhile_append1)
qed

lemma delivers_first_line:
  assumes "delivers n (first_line left) r" "left \<noteq> []"
  shows "delivers n left r"
proof -
  obtain k where k: "0 \<le> rv r" "0 < k" "k \<le> n" "take n (dat r) = take k (first_line left)"
    using assms(1) by (auto simp: delivers_def)
  have "0 < length (first_line left)" using assms(2) by (cases left) (auto simp: first_line_def)
  moreover have "take k (first_line left) = take (min k (length (first_line left))) left"
    by (subst first_line_prefix) simp
  ultimately show ?thesis using k unfolding delivers_def
    by (intro conjI exI [of _ "min k (length (first_line left))"]) auto
qed

lemma line_stream_until:
  assumes "line_stream K fd (a @ lf # later)"
  shows "stream K fd (a @ [lf])"
  unfolding stream_def
proof (intro allI impI)
  fix h n left
  assume l: "a @ [lf] = taken fd h @ left" "left \<noteq> []" "0 < (n :: nat)"
  then have "last left = lf" by (metis last_appendR last_snoc)
  then have lf: "lf \<in> set left" using l(2) last_in_set by fastforce
  moreover have "a @ lf # later = taken fd h @ left @ later" using l(1) by (metis append.assoc append_Cons append_Nil)
  ultimately have "delivers n (first_line left) (K h (SysRead fd n)) \<and> delivers n (first_line left) (K h (SysPeek fd n))"
    using assms l(2,3) first_line_later [OF lf, of later] unfolding line_stream_def by (metis append_is_Nil_conv)
  then show "delivers n left (K h (SysRead fd n)) \<and> delivers n left (K h (SysPeek fd n))"
    using l(2) by (blast intro: delivers_first_line)
qed

definition reads_only :: "int \<Rightarrow> history \<Rightarrow> bool" where
  "reads_only fd h \<longleftrightarrow> (\<forall>(c, r) \<in> set h. (\<exists>n. c = SysRead fd n) \<or> (\<exists>n. c = SysPeek fd n))"

lemma reads_only_simps [simp]:
  "reads_only fd []"
  "reads_only fd ((c, r) # h) \<longleftrightarrow> ((\<exists>n. c = SysRead fd n) \<or> (\<exists>n. c = SysPeek fd n)) \<and> reads_only fd h"
  "reads_only fd (h @ h') \<longleftrightarrow> reads_only fd h \<and> reads_only fd h'"
  by (auto simp: reads_only_def)

lemma reads_only_sent: "reads_only fd h \<Longrightarrow> sent fd' h = []"
  by (induction h) (auto simp: reads_only_def)

lemma reads_only_taken: "reads_only fd h \<Longrightarrow> fd' \<noteq> fd \<Longrightarrow> taken fd' h = []"
  by (induction h) (auto simp: reads_only_def)

text \<open>One piece of a stream, peeked at or read.\<close>

lemma read_piece:
  assumes K: "stream K fd inp" and inp: "inp = taken fd (trace s) @ left" "left \<noteq> []" and n: "0 < n"
  obtains k where "0 < k" "k \<le> n" "k \<le> length left"
    "read_fd K fd n s = Some (Go (int k, take k left) (after K (SysRead fd n) s))"
    "taken_by fd (SysRead fd n, K (trace s) (SysRead fd n)) = take k left"
proof -
  have "delivers n left (K (trace s) (SysRead fd n))" using K inp n by (auto simp: stream_def)
  then obtain k where k: "0 < k" "k \<le> n" "0 \<le> rv (K (trace s) (SysRead fd n))"
    "take n (dat (K (trace s) (SysRead fd n))) = take k left" by (auto simp: delivers_def)
  then show ?thesis using inp(2)
    by (intro that [of "min k (length left)"])
      (auto simp: read_fd_def sys_run bind_def ret_def received_def min_def)
qed

lemma peek_piece:
  assumes K: "stream K fd inp" and inp: "inp = taken fd (trace s) @ left" "left \<noteq> []" and n: "0 < n"
  obtains k where "0 < k" "k \<le> n" "k \<le> length left"
    "peek_fd K fd n s = Some (Go (int k, take k left) (after K (SysPeek fd n) s))"
proof -
  have "delivers n left (K (trace s) (SysPeek fd n))" using K inp n by (auto simp: stream_def)
  then obtain k where k: "0 < k" "k \<le> n" "0 \<le> rv (K (trace s) (SysPeek fd n))"
    "take n (dat (K (trace s) (SysPeek fd n))) = take k left" by (auto simp: delivers_def)
  then show ?thesis using inp(2)
    by (intro that [of "min k (length left)"])
      (auto simp: peek_fd_def sys_run bind_def ret_def received_def min_def)
qed

lemma recv_peek_piece:
  assumes "stream K fd inp" "inp = taken fd (trace s) @ left" "left \<noteq> []" "0 < n"
    and room: "off + min n (length left) \<le> length buf"
  obtains k where "0 < k" "k \<le> n" "k \<le> length left"
    "recv_peek K fd buf off n s = Some (Go (int k, take off buf @ take k left @ drop (off + k) buf)
       (after K (SysPeek fd n) s))"
proof -
  obtain k where k: "0 < k" "k \<le> n" "k \<le> length left"
    "peek_fd K fd n s = Some (Go (int k, take k left) (after K (SysPeek fd n) s))"
    using peek_piece [OF assms(1-4)] .
  moreover have "off + k \<le> length buf" using k(2,3) room by linarith
  ultimately show ?thesis
    by (intro that [of k]) (simp_all add: recv_peek.simps bind_def gets_def blit_def ret_def)
qed

lemma readn_loop_stream:
  assumes K: "stream K fd inp"
  shows "inp = taken fd (trace s) @ d @ later \<Longrightarrow> off + length d \<le> length buf \<Longrightarrow>
    \<exists>h s'. readn_loop K fd cnt (length d) off buf s
        = Some (Go (int cnt, take off buf @ d @ drop (off + length d) buf) s')
      \<and> moved s h s' \<and> reads_only fd h \<and> taken fd h = d"
proof (induction "length d" arbitrary: d s off buf rule: less_induct)
  case less
  show ?case
  proof (cases "d = []")
    case True
    then have "readn_loop K fd cnt (length d) off buf s = Some (Go (int cnt, buf) s)"
      by (subst readn_loop.simps) (simp add: ret_def)
    then show ?thesis using True by (intro exI [of _ "[]"] exI [of _ s]) simp
  next
    case False
    let ?n = "length d" and ?s = "after K (SysRead fd (length d)) s"
    let ?e = "(SysRead fd ?n, K (trace s) (SysRead fd ?n))"
    have ne: "d @ later \<noteq> []" "0 < ?n" using False by simp_all
    obtain k where k: "0 < k" "k \<le> ?n"
      "read_fd K fd ?n s = Some (Go (int k, take k (d @ later)) ?s)"
      "taken_by fd ?e = take k (d @ later)"
      using read_piece [OF K less.prems(1) ne] by blast
    have tk: "take k (d @ later) = take k d" using k(2) by simp
    let ?buf = "take off buf @ take k d @ drop (off + k) buf"
    have bl: "blit buf off (take k d) = Inr ?buf" using less.prems(2) k(2) by (simp add: blit_def)
    have "length (drop k d) < length d" "inp = taken fd (trace ?s) @ drop k d @ later"
      "off + k + length (drop k d) \<le> length ?buf"
      using k less.prems False tk by (auto simp del: taken_by.simps)
    from less.hyps [OF this] obtain h s' where
      IH: "readn_loop K fd cnt (length (drop k d)) (off + k) ?buf ?s
        = Some (Go (int cnt, take (off + k) ?buf @ drop k d @ drop (off + k + length (drop k d)) ?buf) s')"
        "moved ?s h s'" "reads_only fd h" "taken fd h = drop k d" by blast
    have o1: "take (off + k) ?buf = take off buf @ take k d"
      and o2: "drop (off + k + length (drop k d)) ?buf = drop (off + length d) buf"
      using less.prems(2) k(2) by (simp_all add: ac_simps)
    have out: "take (off + k) ?buf @ drop k d @ drop (off + k + length (drop k d)) ?buf
        = take off buf @ d @ drop (off + length d) buf"
      unfolding o1 o2 by (metis append.assoc append_take_drop_id)
    have "readn_loop K fd cnt ?n off buf s = readn_loop K fd cnt (length (drop k d)) (off + k) ?buf ?s"
      using False k bl tk by (subst readn_loop.simps) (simp add: lift_def ret_def bind_def)
    moreover have "moved s (?e # h) s'" using IH(2) by (rule moved_after_trans)
    moreover have "taken fd (?e # h) = d" using IH(4) k(4) [unfolded tk] by (simp del: taken_by.simps)
    ultimately show ?thesis using IH(1,3) out
      by (intro exI [of _ "?e # h"] exI [of _ s']) simp
  qed
qed

lemma readn_stream:
  assumes "stream K fd inp" "inp = taken fd (trace s) @ d @ later" "off + length d \<le> length buf"
  obtains h s' where "readn K fd buf off (length d) s
      = Some (Go (int (length d), take off buf @ d @ drop (off + length d) buf) s')"
    "moved s h s'" "reads_only fd h" "taken fd h = d"
  using readn_loop_stream [OF assms(1,2,3), of "length d"] by (auto simp: readn_def)

section \<open>A line\<close>

lemma strchr_found:
  assumes "c \<notin> set l" "nul \<notin> set l"
  shows "strchr (l @ c # t) c = Inr (Some (length l))"
  using assms by (induction l) auto

lemma strchr_absent:
  assumes "c \<notin> set l" "nul \<notin> set l" "c \<noteq> nul"
  shows "strchr (l @ nul # t) c = Inr None"
  using assms by (induction l) auto

lemma take_append_cases:
  obtains "k \<le> length a" "take k (a @ x # b) = take k a"
  | "length a < k" "take k (a @ x # b) = a @ x # take (k - Suc (length a)) b"
proof (cases "k \<le> length a")
  case False
  then obtain m where "k = Suc (length a + m)" by (metis add_Suc_right less_imp_Suc_add not_le)
  then show ?thesis using that(2) by simp
qed (use that(1) in auto)

lemma readline_loop_stream:
  assumes K: "stream K fd inp"
  shows "inp = taken fd (trace s) @ line @ lf # later \<Longrightarrow> lf \<notin> set line \<Longrightarrow> nul \<notin> set line \<Longrightarrow>
    buf = got @ zeros m \<Longrightarrow> length (line @ lf # later) < m \<Longrightarrow> m \<le> rest \<Longrightarrow>
    \<exists>h s' t. readline_loop K fd rest tot (length got) buf s
        = Some (Go (int (tot + length line + 1), got @ line @ lf # t) s')
      \<and> terminated t \<and> length (got @ line @ lf # t) = length buf
      \<and> moved s h s' \<and> reads_only fd h \<and> taken fd h = line @ [lf]"
proof (induction "length line" arbitrary: line s got buf m rest tot rule: less_induct)
  case less
  let ?left = "line @ lf # later"
  have buf: "take (length got) buf = got" "length buf = length got + m" using less.prems(4) by simp_all
  obtain k where k: "0 < k" "k \<le> rest" "k \<le> length ?left"
    "recv_peek K fd buf (length got) rest s
       = Some (Go (int k, got @ take k ?left @ drop (length got + k) buf) (after K (SysPeek fd rest) s))"
    using recv_peek_piece [OF K less.prems(1), of rest "length got" buf] buf less.prems(5,6)
    by (auto simp: min_def split: if_splits)
  let ?s = "after K (SysPeek fd rest) s" and ?e = "(SysPeek fd rest, K (trace s) (SysPeek fd rest))"
  have dr: "drop (length got + k) buf = zeros (m - k)" using less.prems(4) by simp
  have km: "k < m" using k(3) less.prems(5) by simp
  have zk: "zeros (m - k) = nul # zeros (m - k - 1)"
    using km by (metis Suc_diff_1 replicate_Suc zero_less_diff zeros_def)
  have left: "inp = taken fd (trace ?s) @ ?left" using less.prems(1) by simp
  show ?case
  proof (cases rule: take_append_cases [of k line lf later])
    case 1
    text \<open>the end of the line is not in this piece\<close>
    let ?c = "take k line" and ?buf = "got @ take k line @ zeros (m - k)"
    have sc: "strchr (?c @ zeros (m - k)) lf = Inr None"
      unfolding zk using less.prems(2,3) by (intro strchr_absent) (auto simp: lf_def nul_def dest: in_set_takeD)
    have lc: "length ?c = k" using 1(1) by simp
    have "inp = taken fd (trace ?s) @ ?c @ (drop k line @ lf # later)" using left by simp
    moreover have "length got + length ?c \<le> length ?buf" by simp
    ultimately obtain h1 s1 where rd: "readn K fd ?buf (length got) (length ?c) ?s
        = Some (Go (int (length ?c), take (length got) ?buf @ ?c @ drop (length got + length ?c) ?buf) s1)"
      "moved ?s h1 s1" "reads_only fd h1" "taken fd h1 = ?c"
      by (rule readn_stream [OF K])
    have rb: "take (length got) ?buf @ ?c @ drop (length got + length ?c) ?buf = (got @ ?c) @ zeros (m - k)"
      using lc by simp
    have pk: "recv_peek K fd buf (length got) rest s = Some (Go (int k, ?buf) ?s)"
      using k(4) unfolding 1(2) dr .
    have ds: "drop (length got) ?buf = ?c @ zeros (m - k)" by simp
    have go: "readline_loop K fd rest tot (length got) buf s
        = readline_loop K fd (rest - k) (tot + k) (length (got @ ?c)) ((got @ ?c) @ zeros (m - k)) s1"
      using k(1,2) rd(1) [unfolded rb, unfolded lc] lc
      by (subst readline_loop.simps) (simp add: pk ds sc lc lift_def ret_def bind_def del: take_append drop_append)
    have a: "length (drop k line) < length line" using k(1) 1(1) by simp
    have b: "inp = taken fd (trace s1) @ drop k line @ lf # later"
      using left rd(2,4) by (simp add: moved_trace)
    have c: "lf \<notin> set (drop k line)" "nul \<notin> set (drop k line)"
      using less.prems(2,3) by (auto dest: in_set_dropD)
    have d: "length (drop k line @ lf # later) < m - k" "m - k \<le> rest - k"
      using less.prems(5,6) 1(1) by simp_all
    obtain h2 s2 t where IH: "readline_loop K fd (rest - k) (tot + k) (length (got @ ?c)) ((got @ ?c) @ zeros (m - k)) s1
        = Some (Go (int (tot + k + length (drop k line) + 1), (got @ ?c) @ drop k line @ lf # t) s2)"
      "terminated t" "length ((got @ ?c) @ drop k line @ lf # t) = length ((got @ ?c) @ zeros (m - k))"
      "moved s1 h2 s2" "reads_only fd h2" "taken fd h2 = drop k line @ [lf]"
      using less.hyps [OF a b c refl d, of "tot + k"] by blast
    have mv: "moved s (?e # h1 @ h2) s2"
      using rd(2) IH(4) by (intro moved_after_trans) (rule moved_trans)
    show ?thesis
      using go IH mv rd(3,4) lc 1(1) buf(2) km
      by (intro exI [of _ "?e # h1 @ h2"] exI [of _ s2] exI [of _ t]) simp
  next
    case 2
    text \<open>the end of the line is in this piece\<close>
    let ?t = "take (k - Suc (length line)) later @ zeros (m - k)"
    let ?buf = "got @ line @ lf # ?t"
    have sc: "strchr (line @ lf # ?t) lf = Inr (Some (length line))"
      using less.prems(2,3) by (rule strchr_found)
    have "inp = taken fd (trace ?s) @ (line @ [lf]) @ later" using left by simp
    moreover have "length got + length (line @ [lf]) \<le> length ?buf" by simp
    ultimately obtain h1 s1 where rd: "readn K fd ?buf (length got) (length (line @ [lf])) ?s
        = Some (Go (int (length (line @ [lf])),
            take (length got) ?buf @ (line @ [lf]) @ drop (length got + length (line @ [lf])) ?buf) s1)"
      "moved ?s h1 s1" "reads_only fd h1" "taken fd h1 = line @ [lf]"
      by (rule readn_stream [OF K])
    have rb: "take (length got) ?buf @ (line @ [lf]) @ drop (length got + length (line @ [lf])) ?buf = ?buf"
      by simp
    have pk: "recv_peek K fd buf (length got) rest s = Some (Go (int k, ?buf) ?s)"
      using k(4) unfolding 2(2) dr by simp
    have ds: "drop (length got) ?buf = line @ lf # ?t" by simp
    have "readline_loop K fd rest tot (length got) buf s
        = Some (Go (int (tot + length line + 1), got @ line @ lf # ?t) s1)"
      using k(1) rd(1) [unfolded rb]
      by (subst readline_loop.simps) (simp add: pk ds sc lift_def ret_def bind_def del: take_append drop_append)
    moreover have "terminated ?t" unfolding zk by simp
    moreover have "moved s (?e # h1) s1" using rd(2) by (rule moved_after_trans)
    moreover have "length (got @ line @ lf # ?t) = length buf"
      using buf(2) k(3) km 2(1) by (simp add: min_def) arith
    ultimately show ?thesis using rd(3,4)
      by (intro exI [of _ "?e # h1"] exI [of _ s1] exI [of _ ?t]) simp
  qed
qed

text \<open>The state after a line: only its bytes have been taken from the connection.\<close>

lemma readline_stream:
  assumes "stream K fd inp" "inp = taken fd (trace s) @ line @ lf # later"
    and "lf \<notin> set line" "nul \<notin> set line" "length (line @ lf # later) < m" "m \<le> len"
  obtains h s' t where "readline K fd (zeros m) len s = Some (Go (int (length line + 1), line @ lf # t) s')"
    "terminated t" "length (line @ lf # t) = m" "moved s h s'" "reads_only fd h" "taken fd h = line @ [lf]"
  using readline_loop_stream [OF assms(1-4), of "zeros m" "[]" m len 0] assms(5,6)
  by (auto simp: readline_def)

section \<open>Properties\<close>

text \<open>C9: \<open>readline\<close> takes exactly the first line from a connection, whatever the sizes of the
  pieces the bytes arrive in, provided that what has been sent fits the buffer: it returns the
  length of the line with its end, the buffer starts with them and stays terminated, the bytes
  after them remain on the connection, and nothing is written.\<close>

theorem readline_takes_line:
  assumes "stream K fd inp" "inp = taken fd (trace s) @ line @ lf # later"
    and "lf \<notin> set line" "nul \<notin> set line" "length (line @ lf # later) < m" "m \<le> len"
  shows "\<exists>s' t. readline K fd (zeros m) len s = Some (Go (int (length line + 1), line @ lf # t) s')
     \<and> terminated t \<and> length (line @ lf # t) = m
     \<and> taken fd (trace s') = taken fd (trace s) @ line @ [lf]
     \<and> (\<forall>fd'. sent fd' (trace s') = sent fd' (trace s))"
proof -
  obtain h s' t where "readline K fd (zeros m) len s = Some (Go (int (length line + 1), line @ lf # t) s')"
    "terminated t" "length (line @ lf # t) = m" "moved s h s'" "reads_only fd h" "taken fd h = line @ [lf]"
    using readline_stream [OF assms] .
  moreover from this have "trace s' = trace s @ h" by (simp add: moved_trace)
  ultimately show ?thesis by (auto simp: reads_only_sent)
qed

text \<open>A connection whose bytes come one at a time.\<close>

definition drip :: "int \<Rightarrow> string \<Rightarrow> kernel" where
  "drip fd inp h c = (answer 0)\<lparr>dat := take 1 (drop (length (taken fd h)) inp)\<rparr>"

lemma byte_stream:
  assumes "\<And>h n. 0 \<le> rv (K h (SysRead fd n)) \<and> dat (K h (SysRead fd n)) = take 1 (drop (length (taken fd h)) inp)"
    and "\<And>h n. 0 \<le> rv (K h (SysPeek fd n)) \<and> dat (K h (SysPeek fd n)) = take 1 (drop (length (taken fd h)) inp)"
  shows "stream K fd inp"
  unfolding stream_def
proof (intro allI impI)
  fix h :: history and n :: nat and left :: string
  assume inp: "inp = taken fd h @ left" "left \<noteq> []" "0 < n"
  have "take n (take 1 left) = take 1 left" using inp(3) by (cases n; cases left) simp_all
  then have "delivers n left r" if "0 \<le> rv r" "dat r = take 1 left" for r
    using that inp(3) unfolding delivers_def by (intro conjI exI [of _ 1]) simp_all
  then show "delivers n left (K h (SysRead fd n)) \<and> delivers n left (K h (SysPeek fd n))"
    using assms [of h n] inp(1) by simp
qed

lemma byte_line_stream:
  assumes "\<And>h n. 0 \<le> rv (K h (SysRead fd n)) \<and> dat (K h (SysRead fd n)) = take 1 (drop (length (taken fd h)) inp)"
    and "\<And>h n. 0 \<le> rv (K h (SysPeek fd n)) \<and> dat (K h (SysPeek fd n)) = take 1 (drop (length (taken fd h)) inp)"
  shows "line_stream K fd inp"
  unfolding line_stream_def
proof (intro allI impI)
  fix h :: history and n :: nat and left :: string
  assume inp: "inp = taken fd h @ left" "left \<noteq> []" "0 < n"
  have "take 1 (first_line left) = take 1 left" using inp(2) by (cases left) (simp_all add: first_line_def)
  moreover have "take n (take 1 left) = take 1 left" using inp(3) by (cases n; cases left) simp_all
  ultimately have "delivers n (first_line left) r" if "0 \<le> rv r" "dat r = take 1 left" for r
    using that inp(3) unfolding delivers_def by (intro conjI exI [of _ 1]) simp_all
  then show "delivers n (first_line left) (K h (SysRead fd n)) \<and> delivers n (first_line left) (K h (SysPeek fd n))"
    using assms [of h n] inp(1) by simp
qed

lemma drip_stream: "stream (drip fd inp) fd inp"
  by (rule byte_stream) (simp_all add: drip_def)

theorem readline_takes_line_witness:
  "\<exists>s' t. readline (drip 7 (''NOOP'' @ [cr] @ lf # ''QUIT'')) 7 (zeros 32) 1024 start
        = Some (Go (int (length (''NOOP'' @ [cr]) + 1), (''NOOP'' @ [cr]) @ lf # t) s')
     \<and> taken 7 (trace s') = ''NOOP'' @ [cr, lf]"
proof -
  have st: "stream (drip 7 (''NOOP'' @ [cr] @ lf # ''QUIT'')) 7 (''NOOP'' @ [cr] @ lf # ''QUIT'')"
    by (rule drip_stream)
  show ?thesis
    using readline_takes_line [OF st, where line = "''NOOP'' @ [cr]" and later = "''QUIT''"
        and s = start and m = 32 and len = 1024]
    by (auto simp: start_def cr_def lf_def nul_def)
qed

end
