(* ===== verification/DataTransfer.thy ===== *)
theory DataTransfer
  imports FtpProto LineReader
begin

text \<open>
  The two functions of \<^verbatim>\<open>ftpproto.cpp\<close> that run on worker threads: \<open>threadRetr\<close> sends a file
  over the data connection, \<open>upload_common\<close> stores what the data connection delivers. A worker
  reads the session it was given when it runs.
\<close>

section \<open>Definitions\<close>

text \<open>\<open>limit_rate\<close> returns at once; the rest of its body is not reached.\<close>

definition limit_rate :: "nat \<Rightarrow> int \<Rightarrow> int \<Rightarrow> (unit, server) prog" where
  "limit_rate p bytes_transfered is_upload = ret ()"

text \<open>The reply goes to the session \<open>p_sess\<close> of \<open>main\<close>, not to \<open>sess\<close>.\<close>

definition check_abor :: "kernel \<Rightarrow> nat \<Rightarrow> (unit, server) prog" where
  "check_abor K p =
     bind (get_sess p) (\<lambda>x.
     if abor_received x \<noteq> 0 then
       seq (upd_sess p (\<lambda>x. x\<lparr>abor_received := 0\<rparr>)) (
       bind (gets p_sess) (\<lambda>q.
       bind (nonnull q) (\<lambda>q.
       ftp_reply K q FTP_ABOROK ''ABOR successful'')))
     else ret ())"

definition start_transfer :: "kernel \<Rightarrow> nat \<Rightarrow> (unit, server) prog" where
  "start_transfer K p =
     bind (get_time_sec K) (\<lambda>sec.
     seq (upd_sess p (\<lambda>x. x\<lparr>bw_transfer_start_sec := sec\<rparr>)) (
     bind get_time_usec (\<lambda>usec.
     upd_sess p (\<lambda>x. x\<lparr>bw_transfer_start_usec := usec\<rparr>))))"

definition opening_text :: "session \<Rightarrow> string \<Rightarrow> int \<Rightarrow> string" where
  "opening_text x a sz = ''Opening '' @ (if is_ascii x \<noteq> 0 then ''ASCII'' else ''BINARY'')
     @ '' mode data connection for '' @ a @ '' ('' @ dec_int sz @ '' bytes).''"

text \<open>\<open>sendfile\<close> sends at most what it is asked for, and raises \<open>SIGPIPE\<close> like \<open>write\<close>.\<close>

definition sendfile :: "kernel \<Rightarrow> int \<Rightarrow> int \<Rightarrow> int \<Rightarrow> (int, server) prog" where
  "sendfile K out_fd in_fd n =
     bind (sys K (SysSendfile out_fd in_fd (nat (n mod 2 ^ 64)))) (\<lambda>r.
     if rv r < 0 then (if eno r = EPIPE then stop Killed else ret (- 1)) else ret (min (rv r) n))"

text \<open>The loop of \<open>threadRetr\<close>: the flag, and the bytes left when it ends.\<close>

partial_function (option) send_loop :: "kernel \<Rightarrow> nat \<Rightarrow> int \<Rightarrow> int \<Rightarrow> (int \<times> int, server) prog" where
  "send_loop K p fd bytes_to_send s =
     (if bytes_to_send = 0 then ret (0, 0) s
      else bind (get_sess p) (\<lambda>x.
        bind (sendfile K (data_fd x) fd (if 4096 < bytes_to_send then 4096 else bytes_to_send)) (\<lambda>n.
        if n = - 1 then ret (2, bytes_to_send)
        else seq (limit_rate p n 0) (
          bind (get_sess p) (\<lambda>x.
          if abor_received x \<noteq> 0 then ret (2, bytes_to_send)
          else send_loop K p fd (bytes_to_send - n))))) s)"

definition finish_transfer :: "kernel \<Rightarrow> nat \<Rightarrow> int \<Rightarrow> int \<Rightarrow> string \<Rightarrow> string \<Rightarrow> (unit, server) prog" where
  "finish_transfer K p fd flag err1 err2 =
     seq (drop_data_fds K p) (
     seq (call K (SysFd Close fd)) (
     bind (get_sess p) (\<lambda>x.
     seq (if flag = 0 \<and> abor_received x = 0 then ftp_reply K p FTP_TRANSFEROK ''Transfer complete.''
          else if flag = 1 then ftp_reply K p FTP_BADSENDFILE err1
          else if flag = 2 then ftp_reply K p FTP_BADSENDNET err2
          else ret ()) (
     check_abor K p))))"

text \<open>The position is a \<open>long\<close> that is stored into an \<open>int\<close> before it is compared.\<close>

definition threadRetr :: "kernel \<Rightarrow> nat \<Rightarrow> (unit, server) prog" where
  "threadRetr K p =
     bind (get_sess p) (\<lambda>x.
     let offset = restart_pos x; fail = ftp_reply K p FTP_FILEFAIL ''Failed to open file.'' in
     seq (upd_sess p (\<lambda>x. x\<lparr>restart_pos := 0\<rparr>)) (
     bind (sess_arg p) (\<lambda>a.
     bind (call K (SysOpenat (dirfd x) a False)) (\<lambda>fd.
     if fd = - 1 then fail
     else bind (lock_file_read K fd) (\<lambda>r.
     if r = - 1 then fail
     else bind (sys K (SysFd Fstat fd)) (\<lambda>st.
     if rv st < 0 then stop Uninitialised
     else if \<not> isreg (stb st) then fail
     else bind (if offset \<noteq> 0 then call K (SysLseek fd offset) else ret 0) (\<lambda>r.
     if offset \<noteq> 0 \<and> to_int32 r = - 1 then fail
     else
       let sz = st_size (stb st) in
       bind (sprintf 1024 (opening_text x a sz)) (\<lambda>text.
       seq (ftp_reply K p FTP_DATACONN text) (
       seq (start_transfer K p) (
       bind (send_loop K p fd (if sz < offset then 0 else sz - offset)) (\<lambda>(flag, left).
       finish_transfer K p fd (if left = 0 then 0 else flag)
         ''Failure reading from local file.'' ''Failure writting to network stream.'')))))))))))"

partial_function (option) upload_loop :: "kernel \<Rightarrow> nat \<Rightarrow> int \<Rightarrow> (int, server) prog" where
  "upload_loop K p fd s =
     bind (get_sess p) (\<lambda>x.
     bind (read_fd K (data_fd x) 1024) (\<lambda>(n, buf).
     if n = - 1 then bind (gets errno) (\<lambda>e. if e = EINTR then upload_loop K p fd else ret 2)
     else if n = 0 then ret 0
     else seq (limit_rate p n 1) (
       bind (get_sess p) (\<lambda>x.
       if abor_received x \<noteq> 0 then ret 2
       else bind (writen K fd buf) (\<lambda>m. if m \<noteq> n then ret 1 else upload_loop K p fd))))) s"

definition upload_common :: "kernel \<Rightarrow> nat \<Rightarrow> int \<Rightarrow> (unit, server) prog" where
  "upload_common K p is_append =
     bind (get_sess p) (\<lambda>x.
     let offset = restart_pos x; fail = ftp_reply K p FTP_UPLOADFAIL ''Could not create file.'' in
     seq (upd_sess p (\<lambda>x. x\<lparr>restart_pos := 0\<rparr>)) (
     bind (sess_arg p) (\<lambda>a.
     bind (call K (SysOpenat (dirfd x) a True)) (\<lambda>fd.
     if fd = - 1 then fail
     else bind (lock_file_write K fd) (\<lambda>r.
     if r = - 1 then fail
     else bind (if is_append = 0 \<and> offset = 0 then
                  seq (call K (SysFtruncate fd 0)) (call K (SysLseek fd 0))
                else if is_append = 0 \<and> offset \<noteq> 0 then call K (SysLseek fd offset)
                else call K (SysLseek fd 0)) (\<lambda>r.
     if r < 0 then fail
     else bind (sys K (SysFd Fstat fd)) (\<lambda>st.
     if rv st < 0 then stop Uninitialised
     else if \<not> isreg (stb st) then fail
     else
       bind (sprintf 1024 (opening_text x a (st_size (stb st)))) (\<lambda>text.
       seq (ftp_reply K p FTP_DATACONN text) (
       seq (start_transfer K p) (
       bind (upload_loop K p fd) (\<lambda>flag.
       finish_transfer K p fd flag
         ''Failure writting to local file.'' ''Failure reading from network stream.'')))))))))))"

definition run_thread :: "kernel \<Rightarrow> thread \<Rightarrow> (unit, server) prog" where
  "run_thread K t = (case t of
     ThreadRetr p \<Rightarrow> threadRetr K p
   | UploadCommon p is_append \<Rightarrow> upload_common K p is_append)"

section \<open>Files as the calls leave them\<close>

text \<open>
  What a history does to an open file: its bytes and the position of the descriptor. A write
  replaces the bytes at the position, up to what was accepted.
\<close>

fun file_step :: "int \<Rightarrow> syscall \<times> sysret \<Rightarrow> string \<times> nat \<Rightarrow> string \<times> nat" where
  "file_step fd (SysFtruncate fd' n, r) (c, i) =
     (if fd' = fd \<and> 0 \<le> rv r then (take (nat n) c, i) else (c, i))"
| "file_step fd (SysLseek fd' n, r) (c, i) = (if fd' = fd \<and> 0 \<le> rv r then (c, nat n) else (c, i))"
| "file_step fd (SysWrite fd' d, r) (c, i) =
     (if fd' = fd then (let d = take (nat (rv r)) d in
        (take i c @ d @ drop (i + length d) c, i + length d)) else (c, i))"
| "file_step fd _ st = st"

definition file_after :: "int \<Rightarrow> history \<Rightarrow> string \<times> nat \<Rightarrow> string \<times> nat" where
  "file_after fd h = fold (file_step fd) h"

text \<open>What a history of \<open>sendfile\<close> calls sends from a file with the bytes \<open>c\<close>: the bytes and the position.\<close>

fun send_step :: "int \<Rightarrow> int \<Rightarrow> string \<Rightarrow> syscall \<times> sysret \<Rightarrow> string \<times> nat \<Rightarrow> string \<times> nat" where
  "send_step out fd c (SysLseek fd' n, r) (acc, i) = (if fd' = fd \<and> 0 \<le> rv r then (acc, nat n) else (acc, i))"
| "send_step out fd c (SysSendfile o1 fd' n, r) (acc, i) =
     (if o1 = out \<and> fd' = fd \<and> 0 \<le> rv r then
        (let k = min (nat (rv r)) n in (acc @ take k (drop i c), i + k)) else (acc, i))"
| "send_step out fd c _ st = st"

definition sent_from :: "int \<Rightarrow> int \<Rightarrow> string \<Rightarrow> history \<Rightarrow> string \<times> nat \<Rightarrow> string \<times> nat" where
  "sent_from out fd c h = fold (send_step out fd c) h"

lemma file_after_simps [simp]:
  "file_after fd [] st = st"
  "file_after fd (h @ h') st = file_after fd h' (file_after fd h st)"
  "file_after fd (e # h) st = file_after fd h (file_step fd e st)"
  by (simp_all add: file_after_def)

lemma sent_from_simps [simp]:
  "sent_from out fd c [] st = st"
  "sent_from out fd c (h @ h') st = sent_from out fd c h' (sent_from out fd c h st)"
  "sent_from out fd c (e # h) st = sent_from out fd c h (send_step out fd c e st)"
  by (simp_all add: sent_from_def)

text \<open>Calls that only write to \<open>fd\<close> and read from \<open>dfd\<close>.\<close>

definition copies :: "int \<Rightarrow> int \<Rightarrow> history \<Rightarrow> bool" where
  "copies dfd fd h \<longleftrightarrow> (\<forall>(c, r) \<in> set h. (\<exists>n. c = SysRead dfd n) \<or> (\<exists>d. c = SysWrite fd d))"

lemma copies_simps [simp]:
  "copies dfd fd []"
  "copies dfd fd ((c, r) # h) \<longleftrightarrow> ((\<exists>n. c = SysRead dfd n) \<or> (\<exists>d. c = SysWrite fd d)) \<and> copies dfd fd h"
  "copies dfd fd (h @ h') \<longleftrightarrow> copies dfd fd h \<and> copies dfd fd h'"
  by (auto simp: copies_def)

lemma writes_only_copies: "writes_only fd h \<Longrightarrow> copies dfd fd h"
  by (auto simp: writes_only_def copies_def)

lemma copies_sent: "copies dfd fd h \<Longrightarrow> fd' \<noteq> fd \<Longrightarrow> sent fd' h = []"
  by (induction h) (auto simp: copies_def)

lemma take_min_length: "take (min (length d) n) d = take n d"
  by (simp add: min_def)

lemma copies_file:
  "copies dfd fd h \<Longrightarrow> i \<le> length c \<Longrightarrow>
   file_after fd h (c, i) = (take i c @ sent fd h @ drop (i + length (sent fd h)) c, i + length (sent fd h))"
proof (induction h arbitrary: c i)
  case (Cons e h)
  obtain cl r where e: "e = (cl, r)" by (cases e)
  consider n where "cl = SysRead dfd n" | d where "cl = SysWrite fd d" using Cons.prems e by auto
  then show ?case
  proof cases
    case 1
    then show ?thesis using Cons e by simp
  next
    case (2 d)
    let ?d = "take (nat (rv r)) d"
    let ?c = "take i c @ ?d @ drop (i + length ?d) c"
    have "copies dfd fd h" "i + length ?d \<le> length ?c" using Cons.prems e by auto
    from Cons.IH [OF this] show ?thesis using Cons.prems(2) e 2 by (simp add: Let_def ac_simps take_min_length)
  qed
qed simp

lemma writes_other_file: "writes_only fd' h \<Longrightarrow> fd' \<noteq> fd \<Longrightarrow> file_after fd h st = st"
  by (induction h arbitrary: st) (auto simp: writes_only_def)

lemma writes_only_sent_from: "writes_only fd' h \<Longrightarrow> sent_from out fd c h st = st"
  by (induction h arbitrary: st) (auto simp: writes_only_def)

section \<open>The loops\<close>

lemma get_sess_run [simp]: "sessions s p = Some x \<Longrightarrow> get_sess p s = Some (Go x s)"
  by (simp add: get_sess_def bind_def gets_def lift_def ret_def)

definition stream_eof :: "kernel \<Rightarrow> int \<Rightarrow> string \<Rightarrow> bool" where
  "stream_eof K fd inp \<longleftrightarrow> stream K fd inp
     \<and> (\<forall>h n. taken fd h = inp \<longrightarrow> 0 \<le> rv (K h (SysRead fd n)) \<and> dat (K h (SysRead fd n)) = [])"

lemma upload_loop_stream:
  assumes K: "stream_eof K dfd inp" "writes_progress K" and ne: "dfd \<noteq> fd"
  shows "sessions s p = Some x \<Longrightarrow> data_fd x = dfd \<Longrightarrow> abor_received x = 0 \<Longrightarrow>
    inp = taken dfd (trace s) @ left \<Longrightarrow>
    \<exists>h e. upload_loop K p fd s = Some (Go 0 (grow h e s)) \<and> copies dfd fd h \<and> sent fd h = left
      \<and> taken dfd h = left"
proof (induction "length left" arbitrary: left s rule: less_induct)
  case less
  have st: "stream K dfd inp" using K(1) by (simp add: stream_eof_def)
  let ?s = "after K (SysRead dfd 1024) s" and ?e = "(SysRead dfd 1024, K (trace s) (SysRead dfd 1024))"
  show ?case
  proof (cases "left = []")
    case True
    with K(1) less.prems(4) have "0 \<le> rv (snd ?e)" "dat (snd ?e) = []"
      by (auto simp: stream_eof_def)
    then have "upload_loop K p fd s = Some (Go 0 ?s)" using less.prems
      by (subst upload_loop.simps) (simp add: bind_def read_fd_def sys_run ret_def received_def)
    with True after_grow [of K "SysRead dfd 1024" s] show ?thesis
      using \<open>dat (snd ?e) = []\<close> by (intro exI [of _ "[?e]"] exI [of _ "errno ?s"]) simp
  next
    case False
    obtain k where k: "0 < k" "k \<le> length left"
      "read_fd K dfd 1024 s = Some (Go (int k, take k left) ?s)" "taken_by dfd ?e = take k left"
      using read_piece [OF st less.prems(4) False, of 1024] by auto
    obtain h1 e1 where w: "writen K fd (take k left) ?s = Some (Go (int k) (grow h1 e1 ?s))"
      "writes_only fd h1" "sent fd h1 = take k left"
      using writen_loop_progress [OF K(2), of fd "length (take k left)" "take k left" ?s] k(2)
      by (auto simp: writen_def moved_grow)
    let ?s2 = "grow h1 e1 ?s"
    have "upload_loop K p fd s = upload_loop K p fd ?s2"
      using less.prems k(1,3) w(1)
      by (subst upload_loop.simps) (simp add: bind_def seq_def limit_rate_def ret_def)
    moreover have "length (drop k left) < length left" using k False by simp
    moreover have "inp = taken dfd (trace ?s2) @ drop k left"
      using less.prems(4) k(4) w(2) by (simp add: writes_only_taken del: taken_by.simps)
    ultimately obtain h2 e2 where IH: "upload_loop K p fd s = Some (Go 0 (grow h2 e2 ?s2))"
      "copies dfd fd h2" "sent fd h2 = drop k left" "taken dfd h2 = drop k left"
      using less.hyps [of "drop k left" ?s2] less.prems(1-3) by auto
    have "grow h2 e2 ?s2 = grow (?e # h1 @ h2) e2 s"
      by (subst after_grow) simp
    moreover have "taken dfd (?e # h1 @ h2) = left"
      using k(4) w(2) IH(4) by (simp add: writes_only_taken del: taken_by.simps)
    ultimately show ?thesis using IH(1-3) w(2,3)
      by (intro exI [of _ "?e # h1 @ h2"] exI [of _ e2]) (simp add: writes_only_copies)
  qed
qed

text \<open>A kernel whose \<open>sendfile\<close> sends at least one byte of those asked for.\<close>

definition sendfile_progress :: "kernel \<Rightarrow> bool" where
  "sendfile_progress K \<longleftrightarrow> (\<forall>h o1 i n. 0 < n \<longrightarrow> 0 < rv (K h (SysSendfile o1 i n)))"

definition sendfiles_only :: "int \<Rightarrow> int \<Rightarrow> history \<Rightarrow> bool" where
  "sendfiles_only out fd h \<longleftrightarrow> (\<forall>(c, r) \<in> set h. \<exists>n. c = SysSendfile out fd n \<and> 0 < n \<and> n \<le> 4096)"

lemma sendfiles_only_sent: "sendfiles_only out fd h \<Longrightarrow> sent fd' h = []"
  by (induction h) (auto simp: sendfiles_only_def)

lemma sendfile_run:
  assumes "0 < rv (K (trace s) (SysSendfile o1 i n))"
  shows "0 < n \<Longrightarrow> n \<le> 4096 \<Longrightarrow> sendfile K o1 i (int n) s
    = Some (Go (min (rv (K (trace s) (SysSendfile o1 i n))) (int n)) (after K (SysSendfile o1 i n) s))"
  using assms by (simp add: sendfile_def bind_def sys_run ret_def nat_mod_as_int)

lemma send_loop_all:
  assumes K: "sendfile_progress K"
  shows "sessions s p = Some x \<Longrightarrow> data_fd x = out \<Longrightarrow> abor_received x = 0 \<Longrightarrow>
    \<exists>h e. send_loop K p fd (int n) s = Some (Go (0, 0) (grow h e s)) \<and> sendfiles_only out fd h
      \<and> sent_from out fd c h (acc, i) = (acc @ take n (drop i c), i + n)"
proof (induction n arbitrary: s acc i rule: less_induct)
  case (less n)
  show ?case
  proof (cases "n = 0")
    case True
    then have "send_loop K p fd (int n) s = Some (Go (0, 0) (grow [] (errno s) s))"
      by (subst send_loop.simps) (simp add: ret_def grow_def)
    with True show ?thesis by (intro exI [of _ "[]"] exI [of _ "errno s"]) (simp add: sendfiles_only_def)
  next
    case False
    let ?m = "min 4096 n"
    let ?e = "(SysSendfile out fd ?m, K (trace s) (SysSendfile out fd ?m))"
    let ?s = "after K (SysSendfile out fd ?m) s"
    define k where "k = min (nat (rv (snd ?e))) ?m"
    have r: "0 < rv (snd ?e)" using K False by (simp add: sendfile_progress_def)
    then have k: "0 < k" "k \<le> n" "int k = min (rv (snd ?e)) (int ?m)" using False by (auto simp: k_def)
    have sf: "sendfile K out fd (if 4096 < int n then 4096 else int n) s = Some (Go (int k) ?s)"
    proof -
      have "(if 4096 < int n then 4096 else int n) = int ?m" by (simp add: min_def)
      then show ?thesis using sendfile_run [of K s out fd ?m] r False k(3) by simp
    qed
    have "send_loop K p fd (int n) s = send_loop K p fd (int (n - k)) ?s"
      using False k(1,2) less.prems sf
      by (subst send_loop.simps) (simp add: bind_def seq_def limit_rate_def ret_def of_nat_diff)
    moreover have "n - k < n" using k(1) False by simp
    ultimately obtain h e where IH: "send_loop K p fd (int n) s = Some (Go (0, 0) (grow h e ?s))"
      "sendfiles_only out fd h"
      "sent_from out fd c h (acc @ take k (drop i c), i + k)
        = ((acc @ take k (drop i c)) @ take (n - k) (drop (i + k) c), i + k + (n - k))"
      using less.IH [of "n - k" ?s "acc @ take k (drop i c)" "i + k"] less.prems by auto
    have "take k (drop i c) @ take (n - k) (drop (i + k) c) = take n (drop i c)"
      using k(2) by (metis add.commute drop_drop le_add_diff_inverse take_add)
    moreover have "grow h e ?s = grow (?e # h) e s" by (subst after_grow) simp
    moreover have "send_step out fd c ?e (acc, i) = (acc @ take k (drop i c), i + k)"
      using r by (simp add: k_def Let_def)
    ultimately show ?thesis using IH k(2) False
      by (intro exI [of _ "?e # h"] exI [of _ e]) (simp add: sendfiles_only_def del: send_step.simps)
  qed
qed

text \<open>A file that has become shorter than its size was: \<open>sendfile\<close> sends nothing and the loop never ends.\<close>

lemmas send_loop_induct = send_loop.raw_induct [rotated, consumes 1, case_names step]

lemma send_loop_stuck:
  assumes "send_loop K p fd n s = Some y" "\<forall>h o1 i m. rv (K h (SysSendfile o1 i m)) = 0"
    and "n \<noteq> 0" "0 \<le> n" "sessions s p = Some x" "abor_received x = 0"
  shows False
  using assms
proof (induction rule: send_loop_induct)
  case (step loop K p fd n s y)
  let ?m = "if 4096 < n then 4096 else n"
  have m: "min 0 ?m = 0" using step.prems(3) by simp
  have "sendfile K (data_fd x) fd ?m s
      = Some (Go 0 (after K (SysSendfile (data_fd x) fd (nat (?m mod 2 ^ 64))) s))"
    using step.prems(1) m by (simp add: sendfile_def bind_def sys_run ret_def)
  with step.hyps step.prems have "loop K p fd n (after K (SysSendfile (data_fd x) fd (nat (?m mod 2 ^ 64))) s) = Some y"
    by (simp add: bind_def seq_def limit_rate_def ret_def)
  from step.IH [OF this] step.prems show ?case by simp
qed

section \<open>Weakest preconditions of the loops\<close>

lemma wp_upload_loop [wp_intro]:
  assumes "stream_eof K dfd (got @ inp)" "writes_progress K" "dfd \<noteq> fd"
    and "case sessions s p of None \<Rightarrow> False | Some x \<Rightarrow> data_fd x = dfd \<and> abor_received x = 0
      \<and> taken dfd (trace s) = got \<and> (\<forall>h e. copies dfd fd h \<longrightarrow> sent fd h = inp \<longrightarrow> taken dfd h = inp \<longrightarrow>
        Q 0 (grow h e s))"
  shows "wp (upload_loop K p fd) Q s"
proof -
  obtain x where "sessions s p = Some x" "data_fd x = dfd" "abor_received x = 0" "got @ inp = taken dfd (trace s) @ inp"
    and Q: "\<And>h e. copies dfd fd h \<Longrightarrow> sent fd h = inp \<Longrightarrow> taken dfd h = inp \<Longrightarrow> Q 0 (grow h e s)"
    using assms(4) by (auto split: option.splits)
  from upload_loop_stream [OF assms(1-3) this(1-4)] Q show ?thesis by (auto simp: wp_ex)
qed

lemma wp_send_loop [wp_intro]:
  assumes "sendfile_progress K" "0 \<le> n"
    and "case sessions s p of None \<Rightarrow> False | Some x \<Rightarrow> abor_received x = 0
      \<and> (\<forall>h e. sendfiles_only (data_fd x) fd h \<longrightarrow>
        sent_from (data_fd x) fd c h ([], i) = (take (nat n) (drop i c), i + nat n) \<longrightarrow>
        Q (0, 0) (grow h e s))"
  shows "wp (send_loop K p fd n) Q s"
proof -
  obtain x where x: "sessions s p = Some x" "abor_received x = 0"
    and Q: "\<And>h e. sendfiles_only (data_fd x) fd h \<Longrightarrow>
        sent_from (data_fd x) fd c h ([], i) = (take (nat n) (drop i c), i + nat n) \<Longrightarrow>
        Q (0, 0) (grow h e s)"
    using assms(3) by (auto split: option.splits)
  from send_loop_all [OF assms(1) x(1) refl x(2), of fd "nat n" c "[]" i] Q assms(2)
  show ?thesis by (auto simp: wp_ex)
qed

lemma wp_lock [simp]:
  assumes "0 \<le> rv (K (trace s) (SysLock fd w))"
  shows "wp (lock_internal K fd w) Q s = Q (rv (K (trace s) (SysLock fd w))) (after K (SysLock fd w) s)"
  using assms by (subst wp_def, subst lock_internal.simps)
    (simp add: bind_def call_def sys_run gets_def ret_def)

lemma wp_get_time_sec [simp]:
  "wp (get_time_sec K) Q s = (let r = K (trace s) SysGettimeofday in 0 \<le> rv r \<and>
     Q (tv_sec r) (after K SysGettimeofday s\<lparr>curr_time := (tv_sec r, tv_usec r)\<rparr>))"
  by (auto simp: get_time_sec_def Let_def)

section \<open>Whole transfers\<close>

text \<open>
  A kernel that opens the file \<open>a\<close> of the directory that is open as \<open>d\<close>, as the descriptor \<open>fd\<close>: a
  regular file of the given status, with the lock, the position and the truncation granted. For a name
  that is not absolute this needs a client that has logged in, since \<open>d\<close> is \<open>-1\<close> before; nothing is
  assumed of other directories and names.
\<close>

definition file_ready :: "kernel \<Rightarrow> int \<Rightarrow> string \<Rightarrow> int \<Rightarrow> statbuf \<Rightarrow> bool" where
  "file_ready K d a fd b \<longleftrightarrow> 0 \<le> fd \<and> isreg b \<and> 0 \<le> st_size b \<and> st_size b < 2 ^ 63 \<and> (\<forall>h.
     (\<forall>w. rv (K h (SysOpenat d a w)) = fd) \<and> (\<forall>w. rv (K h (SysLock fd w)) = 0)
     \<and> rv (K h (SysFd Fstat fd)) = 0 \<and> stb (K h (SysFd Fstat fd)) = b
     \<and> (\<forall>n \<ge> 0. rv (K h (SysLseek fd n)) = n) \<and> rv (K h (SysFtruncate fd 0)) = 0
     \<and> 0 \<le> rv (K h SysGettimeofday))"

lemma file_ready_simps:
  assumes "file_ready K d a fd b"
  shows "rv (K h (SysOpenat d a w)) = fd" "fd \<noteq> - 1" "isreg b" "0 \<le> st_size b"
    "rv (K h (SysLock fd w)) = 0" "rv (K h (SysFd Fstat fd)) = 0" "stb (K h (SysFd Fstat fd)) = b"
    "0 \<le> n \<Longrightarrow> rv (K h (SysLseek fd n)) = n" "rv (K h (SysFtruncate fd 0)) = 0"
    "0 \<le> rv (K h SysGettimeofday)"
  using assms by (auto simp: file_ready_def)

lemma length_dec_int: "\<bar>n\<bar> < 2 ^ 63 \<Longrightarrow> length (dec_int n) \<le> 20"
proof -
  assume "\<bar>n\<bar> < 2 ^ 63"
  then have "nat \<bar>n\<bar> < 10 ^ Suc 18" by simp
  then have "length (dec_nat (nat \<bar>n\<bar>)) \<le> 19"
    using show_base_length [of 10 "nat \<bar>n\<bar>" 18] by (simp add: dec_nat_def)
  then show "length (dec_int n) \<le> 20" by (simp add: dec_int_def abs_if split: if_splits)
qed

lemma opening_length:
  assumes "file_ready K d f fd b" "length a < 900"
  shows "length (opening_text x a (st_size b)) < 1000"
proof -
  have "\<bar>st_size b\<bar> < 2 ^ 63" using assms(1) by (simp add: file_ready_def)
  from length_dec_int [OF this] assms(2) show ?thesis by (simp add: opening_text_def)
qed

lemma after_upd [simp]: "trace (s\<lparr>curr_time := v\<rparr>) = trace s"
  by (cases s) simp

text \<open>A session that can start a transfer, and what a transfer leaves of it.\<close>

definition can_transfer :: "session \<Rightarrow> int \<Rightarrow> bool" where
  "can_transfer x fd \<longleftrightarrow> terminated (arg x) \<and> length (cstr (arg x)) < 900 \<and> abor_received x = 0
     \<and> 0 \<le> restart_pos x \<and> distinct [fd, data_fd x, ctrl_fd x]"

section \<open>The ends of a transfer\<close>

text \<open>Calls that move no data: they write to \<open>c\<close> at most.\<close>

fun harmless_call :: "int \<Rightarrow> syscall \<Rightarrow> bool" where
  "harmless_call c (SysWrite fd d) = (fd = c)"
| "harmless_call c (SysRead fd n) = False"
| "harmless_call c (SysLseek fd n) = False"
| "harmless_call c (SysFtruncate fd n) = False"
| "harmless_call c (SysSendfile o1 i n) = False"
| "harmless_call c _ = True"

definition harmless :: "int \<Rightarrow> history \<Rightarrow> bool" where
  "harmless c h \<longleftrightarrow> (\<forall>(cl, r) \<in> set h. harmless_call c cl)"

lemma harmless_simps [simp]:
  "harmless c []"
  "harmless c ((cl, r) # h) \<longleftrightarrow> harmless_call c cl \<and> harmless c h"
  "harmless c (h @ h') \<longleftrightarrow> harmless c h \<and> harmless c h'"
  by (auto simp: harmless_def)

lemma writes_only_harmless: "writes_only c h \<Longrightarrow> harmless c h"
  by (auto simp: writes_only_def harmless_def)

lemma harmless_step:
  assumes "harmless_call c cl" "fd \<noteq> c"
  shows "file_step fd (cl, r) st = st" "send_step out i b (cl, r) st = st"
    "taken_by fd' (cl, r) = []" "sent_by fd (cl, r) = []"
  using assms by (cases st; cases cl; simp)+

lemma harmless_effect:
  assumes "harmless c h" "fd \<noteq> c"
  shows "file_after fd h st = st" "sent_from out i b h st = st" "taken fd' h = []" "sent fd h = []"
  using assms by (induction h) (auto simp: harmless_step)

lemma start_transfer_spec:
  assumes "sessions s p = Some x" "\<forall>h. 0 \<le> rv (K h SysGettimeofday)"
  shows "wp (start_transfer K p) (\<lambda>_ s'. \<exists>h a b. trace s' = trace s @ h \<and> harmless c h \<and> sent c h = []
     \<and> sessions s' = (sessions s)(p \<mapsto> x\<lparr>bw_transfer_start_sec := a, bw_transfer_start_usec := b\<rparr>)
     \<and> p_sess s' = p_sess s) s"
  using assms by (auto simp: start_transfer_def Let_def get_time_usec_def)

lemma finish_transfer_spec:
  assumes "sessions s p = Some x" "writes_progress K" "abor_received x = 0"
  shows "wp (finish_transfer K p fd 0 e1 e2) (\<lambda>_ s'. \<exists>h. trace s' = trace s @ h
     \<and> harmless (ctrl_fd x) h \<and> sent (ctrl_fd x) h = reply_text 226 ''Transfer complete.''
     \<and> sessions s' = (sessions s)(p \<mapsto> x\<lparr>data_fd := - 1, pasv_listen_fd := - 1\<rparr>)) s"
  using assms
  by (auto simp: finish_transfer_def drop_data_fds_def removefd_def check_abor_def writes_only_harmless
      intro!: wp_ftp_reply)

lemma upload_tail_spec:
  assumes K: "writes_progress K" "stream_eof K (data_fd x) (taken (data_fd x) (trace s) @ inp)" "\<forall>h. 0 \<le> rv (K h SysGettimeofday)"
    and x: "sessions s p = Some x" "abor_received x = 0" "distinct [fd, data_fd x, ctrl_fd x]"
      "length text < 1000"
  shows "wp (seq (ftp_reply K p 150 text) (seq (start_transfer K p) (bind (upload_loop K p fd)
      (\<lambda>flag. finish_transfer K p fd flag e1 e2)))) (\<lambda>_ s'. \<exists>h a b. trace s' = trace s @ h
     \<and> (\<forall>c i. i \<le> length c \<longrightarrow>
          file_after fd h (c, i) = (take i c @ inp @ drop (i + length inp) c, i + length inp))
     \<and> sent (ctrl_fd x) h = reply_text 150 text @ reply_text 226 ''Transfer complete.''
     \<and> sessions s' p = Some (x\<lparr>bw_transfer_start_sec := a, bw_transfer_start_usec := b,
          data_fd := - 1, pasv_listen_fd := - 1\<rparr>)) s"
proof -
  have ne: "data_fd x \<noteq> fd" "fd \<noteq> ctrl_fd x" "data_fd x \<noteq> ctrl_fd x" "ctrl_fd x \<noteq> fd" using x(3) by auto
  show ?thesis
    using x ne
    apply (auto intro!: wp_ftp_reply [OF K(1)])
    apply (rule wp_mono, rule start_transfer_spec [where c = "ctrl_fd x"])
      apply simp
     apply (rule K(3))
    apply (clarsimp)
    apply (rule wp_upload_loop [OF K(2,1)])
     apply simp
    apply (clarsimp simp: writes_only_taken harmless_effect)
    apply (rule wp_mono, rule finish_transfer_spec)
       apply simp
      apply (rule K(1))
     apply simp
    apply (auto simp: copies_file copies_sent harmless_effect writes_other_file)
    apply blast
    done
qed

lemma retr_tail_spec:
  assumes K: "writes_progress K" "sendfile_progress K" "\<forall>h. 0 \<le> rv (K h SysGettimeofday)"
    and x: "sessions s p = Some x" "abor_received x = 0" "fd \<noteq> ctrl_fd x"
      "length text < 1000" "0 \<le> n"
  shows "wp (seq (ftp_reply K p 150 text) (seq (start_transfer K p) (bind (send_loop K p fd n)
      (\<lambda>(flag, left). finish_transfer K p fd (if left = 0 then 0 else flag) e1 e2)))) (\<lambda>_ s'. \<exists>h a b.
     trace s' = trace s @ h
     \<and> sent_from (data_fd x) fd c h ([], i) = (take (nat n) (drop i c), i + nat n)
     \<and> sent (ctrl_fd x) h = reply_text 150 text @ reply_text 226 ''Transfer complete.''
     \<and> sessions s' p = Some (x\<lparr>bw_transfer_start_sec := a, bw_transfer_start_usec := b,
          data_fd := - 1, pasv_listen_fd := - 1\<rparr>)) s"
proof -
  show ?thesis
    using x
    apply (auto intro!: wp_ftp_reply [OF K(1)])
    apply (rule wp_mono, rule start_transfer_spec [where c = "ctrl_fd x"])
      apply simp
     apply (rule K(3))
    apply clarsimp
    apply (rule wp_send_loop [OF K(2), where c = c and i = i])
     apply simp
    apply clarsimp
    apply (rule wp_mono, rule finish_transfer_spec)
       apply simp
      apply (rule K(1))
     apply simp
    apply (auto simp: harmless_effect writes_only_sent_from sendfiles_only_sent)
    apply blast
    done
qed

lemma wp_upload_tail:
  assumes K: "writes_progress K" "stream_eof K dfd (got @ inp)" "\<forall>h. 0 \<le> rv (K h SysGettimeofday)"
    and x: "case sessions s p of None \<Rightarrow> False | Some x \<Rightarrow> dfd = data_fd x \<and> abor_received x = 0
      \<and> distinct [fd, data_fd x, ctrl_fd x] \<and> taken (data_fd x) (trace s) = got \<and> length text < 1000
      \<and> (\<forall>s' h a b. trace s' = trace s @ h \<longrightarrow> (\<forall>c i. i \<le> length c \<longrightarrow>
          file_after fd h (c, i) = (take i c @ inp @ drop (i + length inp) c, i + length inp)) \<longrightarrow>
        sent (ctrl_fd x) h = reply_text 150 text @ reply_text 226 ''Transfer complete.'' \<longrightarrow>
        sessions s' p = Some (x\<lparr>bw_transfer_start_sec := a, bw_transfer_start_usec := b,
          data_fd := - 1, pasv_listen_fd := - 1\<rparr>) \<longrightarrow> Q s')"
  shows "wp (ftp_reply K p 150 text) (\<lambda>_. wp (seq (start_transfer K p) (bind (upload_loop K p fd)
      (\<lambda>flag. finish_transfer K p fd flag e1 e2))) (\<lambda>_. Q)) s"
proof -
  obtain x where "sessions s p = Some x" "dfd = data_fd x" "abor_received x = 0"
    "distinct [fd, data_fd x, ctrl_fd x]" "got = taken (data_fd x) (trace s)" "length text < 1000"
    using x by (auto split: option.splits)
  from upload_tail_spec [OF K(1) K(2) [unfolded this(2,5)] K(3) this(1,3,4,6), of e1 e2] x this
  show ?thesis by (auto elim!: wp_mono simp del: wp_bind) blast
qed

lemma wp_retr_tail:
  assumes K: "writes_progress K" "sendfile_progress K" "\<forall>h. 0 \<le> rv (K h SysGettimeofday)"
    and x: "case sessions s p of None \<Rightarrow> False | Some x \<Rightarrow> abor_received x = 0
      \<and> fd \<noteq> ctrl_fd x \<and> length text < 1000 \<and> 0 \<le> n
      \<and> (\<forall>s' h. trace s' = trace s @ h \<longrightarrow>
        sent_from (data_fd x) fd c h ([], i) = (take (nat n) (drop i c), i + nat n) \<longrightarrow>
        sent (ctrl_fd x) h = reply_text 150 text @ reply_text 226 ''Transfer complete.'' \<longrightarrow>
        (\<exists>a b. sessions s' p = Some (x\<lparr>bw_transfer_start_sec := a, bw_transfer_start_usec := b,
          data_fd := - 1, pasv_listen_fd := - 1\<rparr>)) \<longrightarrow> Q s')"
  shows "wp (ftp_reply K p 150 text) (\<lambda>_. wp (seq (start_transfer K p) (bind (send_loop K p fd n)
      (\<lambda>(flag, left). finish_transfer K p fd (if left = 0 then 0 else flag) e1 e2))) (\<lambda>_. Q)) s"
proof -
  obtain x where "sessions s p = Some x" "abor_received x = 0" "fd \<noteq> ctrl_fd x" "length text < 1000" "0 \<le> n"
    using x by (auto split: option.splits)
  from retr_tail_spec [OF K this, where c = c and i = i and ?e1.0 = e1 and ?e2.0 = e2] x this
  show ?thesis by (auto elim!: wp_mono simp del: wp_bind)
qed

lemma writes_only_no_close: "writes_only fd h \<Longrightarrow> (SysFd f fd', r) \<notin> set h"
  by (auto simp: writes_only_def)

lemma to_int32_minus_one: "to_int32 n = - 1 \<longleftrightarrow> n mod 2 ^ 32 = 2 ^ 32 - 1"
proof -
  have m: "sint (- 1 :: u32) = - 1" "word_of_int (- 1) = (- 1 :: u32)" by simp_all
  have "to_int32 n = - 1 \<longleftrightarrow> (word_of_int n :: u32) = word_of_int (- 1)"
    unfolding to_int32_def m(2) using m(1) signed_word_eqI by metis
  also have "\<dots> \<longleftrightarrow> take_bit 32 n = take_bit 32 (- 1)" by (simp only: word_of_int_eq_iff) simp
  also have "\<dots> \<longleftrightarrow> n mod 2 ^ 32 = 2 ^ 32 - 1" unfolding take_bit_eq_mod by simp
  finally show ?thesis .
qed

text \<open>A download from the restart position to the end of the file.\<close>

lemma threadRetr_spec:
  assumes "file_ready K (dirfd x) (cstr (arg x)) fd b" "writes_progress K" "sendfile_progress K"
    and "sessions s p = Some x" "can_transfer x fd" "st_size b = int (length c)"
    and "restart_pos x mod 2 ^ 32 \<noteq> 2 ^ 32 - 1"
  shows "wp (threadRetr K p) (\<lambda>_ s'. \<exists>h. trace s' = trace s @ h
     \<and> sent_from (data_fd x) fd c h ([], 0)
       = (drop (nat (restart_pos x)) c, max (nat (restart_pos x)) (length c))
     \<and> sent (ctrl_fd x) h = reply_text 150 (opening_text x (cstr (arg x)) (st_size b))
         @ reply_text 226 ''Transfer complete.''
     \<and> map_option data_fd (sessions s' p) = Some (- 1)
     \<and> map_option restart_pos (sessions s' p) = Some 0) s"
proof -
  note K = file_ready_simps [OF assms(1)]
  have x: "terminated (arg x)" "abor_received x = 0" "0 \<le> restart_pos x" "fd \<noteq> ctrl_fd x"
    and l: "length (opening_text x (cstr (arg x)) (st_size b)) < 1000"
    using assms(5) opening_length [OF assms(1)] by (auto simp: can_transfer_def)
  have r: "to_int32 (restart_pos x) \<noteq> - 1" using assms(7) to_int32_minus_one by blast
  show ?thesis
    using x l assms(4,6,7) r
    by (auto simp: threadRetr_def K lock_file_read_def Let_def
      intro!: wp_retr_tail [OF assms(2,3), where c = c and i = "nat (restart_pos x)"])
qed

text \<open>An upload at the restart position.\<close>

lemma upload_spec:
  assumes "file_ready K (dirfd x) (cstr (arg x)) fd b" "writes_progress K" "stream_eof K (data_fd x) (taken (data_fd x) (trace s) @ inp)"
    and "sessions s p = Some x" "can_transfer x fd"
    and "nat (restart_pos x) \<le> length c"
  shows "wp (upload_common K p 0) (\<lambda>_ s'. \<exists>h. trace s' = trace s @ h
     \<and> fst (file_after fd h (c, 0)) = (if restart_pos x = 0 then inp
        else take (nat (restart_pos x)) c @ inp @ drop (nat (restart_pos x) + length inp) c)
     \<and> sent (ctrl_fd x) h = reply_text 150 (opening_text x (cstr (arg x)) (st_size b))
         @ reply_text 226 ''Transfer complete.''
     \<and> map_option data_fd (sessions s' p) = Some (- 1)
     \<and> map_option restart_pos (sessions s' p) = Some 0) s"
proof -
  note K = file_ready_simps [OF assms(1)]
  have x: "terminated (arg x)" "abor_received x = 0" "\<not> restart_pos x < 0" "distinct [fd, data_fd x, ctrl_fd x]"
    and l: "length (opening_text x (cstr (arg x)) (st_size b)) < 1000"
    using assms(5) opening_length [OF assms(1)] by (auto simp: can_transfer_def)
  show ?thesis
    using x l assms(4,6)
    by (auto simp: upload_common_def K lock_file_write_def Let_def
      intro!: wp_upload_tail [OF assms(2,3)])
qed

section \<open>Properties\<close>

text \<open>C11: a finished \<open>STOR\<close> stores exactly the bytes that came over the data connection,
  whatever the pieces in which they were read and written: a new upload replaces the contents of
  the file, one after \<open>REST n\<close> overwrites from byte \<open>n\<close> on. The client gets 150 and 226 and the
  data connection is gone from the session.\<close>

theorem upload_stores_stream:
  assumes "file_ready K (dirfd x) (cstr (arg x)) fd b" "writes_progress K" "stream_eof K (data_fd x) (taken (data_fd x) (trace s) @ inp)"
    and "sessions s p = Some x" "can_transfer x fd"
    and "nat (restart_pos x) \<le> length c"
  shows "wp (upload_common K p 0) (\<lambda>_ s'.
     fst (file_after fd (since s s') (c, 0)) = (if restart_pos x = 0 then inp
        else take (nat (restart_pos x)) c @ inp @ drop (nat (restart_pos x) + length inp) c)
     \<and> sent (ctrl_fd x) (since s s') = reply_text 150 (opening_text x (cstr (arg x)) (st_size b))
         @ reply_text 226 ''Transfer complete.''
     \<and> map_option data_fd (sessions s' p) = Some (- 1)
     \<and> map_option restart_pos (sessions s' p) = Some 0) s"
  by (rule wp_mono [OF upload_spec [OF assms]]) (auto simp: since_eq)

text \<open>A kernel for small transfers: bytes come and go one at a time on the descriptors.\<close>

definition small_kernel :: "string \<Rightarrow> int \<Rightarrow> kernel" where
  "small_kernel inp n h c = (case c of
     SysOpenat d a w \<Rightarrow> answer 9
   | SysLseek fd o1 \<Rightarrow> answer o1
   | SysFd f fd \<Rightarrow> (answer 0)\<lparr>stb := \<lparr>st_mode = 0x81A4, st_size = n, st_nlink = 1, st_uid = 0,
       st_gid = 0, st_mtime = 0\<rparr>\<rparr>
   | SysLock fd w \<Rightarrow> answer 0
   | SysFtruncate fd k \<Rightarrow> answer 0
   | SysGettimeofday \<Rightarrow> answer 0
   | SysRead fd k \<Rightarrow> (answer 0)\<lparr>dat := take 1 (drop (length (taken fd h)) inp)\<rparr>
   | SysPeek fd k \<Rightarrow> (answer 0)\<lparr>dat := take 1 (drop (length (taken fd h)) inp)\<rparr>
   | _ \<Rightarrow> answer 1)"

lemma small_kernel_ok:
  "0 \<le> n \<Longrightarrow> n < 2 ^ 63 \<Longrightarrow> file_ready (small_kernel inp n) d a 9 (stb (small_kernel inp n [] (SysFd Fstat 9)))"
  "writes_progress (small_kernel inp n)" "sendfile_progress (small_kernel inp n)"
  "stream_eof (small_kernel inp n) fd inp"
proof -
  show "0 \<le> n \<Longrightarrow> n < 2 ^ 63 \<Longrightarrow> file_ready (small_kernel inp n) d a 9 (stb (small_kernel inp n [] (SysFd Fstat 9)))"
    by (simp add: file_ready_def small_kernel_def isreg_def)
  show "writes_progress (small_kernel inp n)" "sendfile_progress (small_kernel inp n)"
    by (simp_all add: writes_progress_def sendfile_progress_def small_kernel_def)
  have "stream (small_kernel inp n) fd inp"
    by (rule byte_stream) (simp_all add: small_kernel_def)
  then show "stream_eof (small_kernel inp n) fd inp"
    by (simp add: stream_eof_def small_kernel_def)
qed

definition ready_session :: session where
  "ready_session = init_session\<lparr>ctrl_fd := 5, data_fd := 7, pasv_listen_fd := 6, dirfd := 4,
     arg := ''a.txt'' @ [nul]\<rparr>"

definition ready_server :: "session \<Rightarrow> server" where
  "ready_server x = init_server\<lparr>sessions := [0 \<mapsto> x], sess_brk := 1\<rparr>"

lemma ready_server_simps [simp]:
  "sessions (ready_server x) 0 = Some x" "trace (ready_server x) = []"
  by (simp_all add: ready_server_def)

lemma ready_session_simps [simp]:
  "data_fd ready_session = 7" "ctrl_fd ready_session = 5" "restart_pos ready_session = 0"
  "can_transfer ready_session 9"
  by (simp_all add: ready_session_def init_session_def can_transfer_def nul_def terminated_def)

theorem upload_stores_stream_witness:
  "wp (upload_common (small_kernel ''new'' 0) 0 0)
     (\<lambda>_ s'. fst (file_after 9 (since (ready_server (ready_session\<lparr>restart_pos := 2\<rparr>)) s') (''abcdefg'', 0)) = ''abnewfg'')
     (ready_server (ready_session\<lparr>restart_pos := 2\<rparr>))"
proof -
  have "can_transfer (ready_session\<lparr>restart_pos := 2\<rparr>) 9"
    using ready_session_simps(4) by (simp add: can_transfer_def)
  moreover have "file_ready (small_kernel ''new'' 0) d a 9 (stb (small_kernel ''new'' 0 [] (SysFd Fstat 9)))" for d a
    by (rule small_kernel_ok(1)) simp_all
  moreover have "stream_eof (small_kernel ''new'' 0) 7 (taken 7 (trace (ready_server (ready_session\<lparr>restart_pos := 2\<rparr>))) @ ''new'')"
    using small_kernel_ok(4) by simp
  ultimately show ?thesis
    by (intro wp_mono [OF upload_stores_stream [OF _ small_kernel_ok(2),
            where inp = "''new''" and x = "ready_session\<lparr>restart_pos := 2\<rparr>" and c = "''abcdefg''"]]) auto
qed

text \<open>C10: a finished \<open>RETR\<close> sends the file from the restart position to its end, whatever the
  pieces \<open>sendfile\<close> sends, and asks for nothing behind the end: the position of the file is the end
  of it, or the restart position when that is later. The client gets 150 and 226 and the data
  connection is gone from the session.\<close>

theorem retr_sends_file:
  assumes "file_ready K (dirfd x) (cstr (arg x)) fd b" "writes_progress K" "sendfile_progress K"
    and "sessions s p = Some x" "can_transfer x fd" "st_size b = int (length c)"
    and "restart_pos x mod 2 ^ 32 \<noteq> 2 ^ 32 - 1"
  shows "wp (threadRetr K p) (\<lambda>_ s'.
     sent_from (data_fd x) fd c (since s s') ([], 0)
       = (drop (nat (restart_pos x)) c, max (nat (restart_pos x)) (length c))
     \<and> sent (ctrl_fd x) (since s s') = reply_text 150 (opening_text x (cstr (arg x)) (st_size b))
         @ reply_text 226 ''Transfer complete.''
     \<and> map_option data_fd (sessions s' p) = Some (- 1)
     \<and> map_option restart_pos (sessions s' p) = Some 0) s"
  by (rule wp_mono [OF threadRetr_spec [OF assms]]) (auto simp: since_def)

theorem retr_sends_file_witness:
  "wp (threadRetr (small_kernel [] 5) 0)
     (\<lambda>_ s'. sent_from 7 9 ''hello'' (since (ready_server (ready_session\<lparr>restart_pos := 3\<rparr>)) s') ([], 0) = (''lo'', 5))
     (ready_server (ready_session\<lparr>restart_pos := 3\<rparr>))"
proof -
  have "can_transfer (ready_session\<lparr>restart_pos := 3\<rparr>) 9"
    using ready_session_simps(4) by (simp add: can_transfer_def)
  moreover have "file_ready (small_kernel [] 5) d a 9 (stb (small_kernel [] 5 [] (SysFd Fstat 9)))" for d a
    by (rule small_kernel_ok(1)) simp_all
  ultimately show ?thesis
    by (intro wp_mono [OF retr_sends_file [OF _ small_kernel_ok(2,3),
            where x = "ready_session\<lparr>restart_pos := 3\<rparr>" and c = "''hello''"]])
      (auto simp: small_kernel_def)
qed

text \<open>C32: the position of the file is cut to 32 bits before it is compared with \<open>-1\<close>, so a
  restart position that is \<open>2^32 - 1\<close> modulo \<open>2^32\<close> is refused with 550 although the kernel
  accepted it; the opened file and the data connection are left open.\<close>

theorem retr_refuses_valid_position:
  assumes "file_ready K (dirfd x) (cstr (arg x)) fd b" "writes_progress K" "sessions s p = Some x" "can_transfer x fd"
    and "restart_pos x mod 2 ^ 32 = 2 ^ 32 - 1"
  shows "wp (threadRetr K p) (\<lambda>_ s'.
     sent (ctrl_fd x) (since s s') = reply_text 550 ''Failed to open file.''
     \<and> SysLseek fd (restart_pos x) \<in> fst ` set (since s s')
     \<and> (\<forall>fd'. SysFd Close fd' \<notin> fst ` set (since s s'))
     \<and> map_option data_fd (sessions s' p) = Some (data_fd x)) s"
proof -
  note K = file_ready_simps [OF assms(1)]
  have x: "terminated (arg x)" "0 \<le> restart_pos x" "fd \<noteq> ctrl_fd x"
    using assms(4) by (auto simp: can_transfer_def)
  have r: "to_int32 (restart_pos x) = - 1" "restart_pos x \<noteq> 0"
    using assms(5) to_int32_minus_one by auto
  show ?thesis
    using x assms(3) r
    by (auto simp: threadRetr_def K lock_file_read_def Let_def since_def
writes_only_no_close
      intro!: wp_ftp_reply [OF assms(2)])
qed

theorem retr_refuses_valid_position_witness:
  "wp (threadRetr (small_kernel [] 5) 0) (\<lambda>_ s'.
     sent 5 (since (ready_server (ready_session\<lparr>restart_pos := 4294967295\<rparr>)) s')
       = reply_text 550 ''Failed to open file.'')
     (ready_server (ready_session\<lparr>restart_pos := 4294967295\<rparr>))"
proof -
  have "can_transfer (ready_session\<lparr>restart_pos := 4294967295\<rparr>) 9"
    using ready_session_simps(4) by (simp add: can_transfer_def)
  moreover have "file_ready (small_kernel [] 5) d a 9 (stb (small_kernel [] 5 [] (SysFd Fstat 9)))" for d a
    by (rule small_kernel_ok(1)) simp_all
  ultimately show ?thesis
    by (intro wp_mono [OF retr_refuses_valid_position [OF _ small_kernel_ok(2),
            where x = "ready_session\<lparr>restart_pos := 4294967295\<rparr>"]])
      (auto simp: small_kernel_def)
qed

text \<open>C31: a file that has been cut down to the restart position or less, after its size was read, makes
  the worker spin for ever: \<open>sendfile\<close> is at the end of the file from the first call on and returns 0, and
  the number of bytes to send stays.\<close>

theorem retr_shrunk_file_hangs:
  assumes "file_ready K (dirfd x) (cstr (arg x)) fd b" "writes_progress K" "sessions s p = Some x" "can_transfer x fd"
    and "restart_pos x mod 2 ^ 32 \<noteq> 2 ^ 32 - 1" "restart_pos x < st_size b"
    and "\<forall>h o1 i n. rv (K h (SysSendfile o1 i n)) = 0"
  shows "hangs (threadRetr K p) s"
proof -
  note K = file_ready_simps [OF assms(1)]
  have x: "terminated (arg x)" "abor_received x = 0" "0 \<le> restart_pos x"
    and l: "length (opening_text x (cstr (arg x)) (st_size b)) < 1000"
    using assms(4) opening_length [OF assms(1)] by (auto simp: can_transfer_def)
  have r: "to_int32 (restart_pos x) \<noteq> - 1" using assms(5) to_int32_minus_one by blast
  have loop: "hangs (bind (send_loop K p fd n) f) t"
    if "n \<noteq> 0" "0 \<le> n" "case sessions t p of None \<Rightarrow> False | Some y \<Rightarrow> abor_received y = 0"
    for n t and f :: "int \<times> int \<Rightarrow> (unit, server) prog"
    using send_loop_stuck [OF _ assms(7) that(1,2)] that(3)
    by (cases "send_loop K p fd n t") (auto simp: hangs_def split: option.splits, blast)
  show ?thesis
    using x l assms(3,6) r
    by (auto simp: threadRetr_def K lock_file_read_def Let_def start_transfer_def get_time_usec_def loop
      intro!: hangs_bind hangs_seq wp_ftp_reply [OF assms(2)])
qed

theorem retr_shrunk_file_hangs_witness:
  "hangs (threadRetr (\<lambda>h c. case c of SysSendfile o1 i n \<Rightarrow> answer 0 | _ \<Rightarrow> small_kernel [] 5 h c) 0)
     (ready_server ready_session)"
proof (rule retr_shrunk_file_hangs)
  show "file_ready (\<lambda>h c. case c of SysSendfile o1 i n \<Rightarrow> answer 0 | _ \<Rightarrow> small_kernel [] 5 h c)
      (dirfd ready_session) (cstr (arg ready_session)) 9
      (stb (small_kernel [] 5 [] (SysFd Fstat 9)))"
    by (simp add: file_ready_def small_kernel_def isreg_def)
  show "writes_progress (\<lambda>h c. case c of SysSendfile o1 i n \<Rightarrow> answer 0 | _ \<Rightarrow> small_kernel [] 5 h c)"
    by (simp add: writes_progress_def small_kernel_def)
  show "restart_pos ready_session < st_size (stb (small_kernel [] 5 [] (SysFd Fstat 9)))"
    by (simp add: small_kernel_def)
qed simp_all

end
