(* ===== verification/Dispatch.thy ===== *)
theory Dispatch
  imports DataTransfer
begin

text \<open>
  From bytes on a connection to the command handlers: the command table and \<open>processCtrlRead\<close>,
  \<open>processDataRead\<close>, \<open>processRead\<close> and \<open>processWrite\<close> of \<^verbatim>\<open>ftpproto.cpp\<close>.
\<close>

section \<open>Definitions\<close>

type_synonym handler = "kernel \<Rightarrow> nat \<Rightarrow> (unit, server) prog"

text \<open>The name of \<open>ABOR\<close> after the two Telnet signals.\<close>

definition telnet_abor :: string where
  "telnet_abor = [CHR 0xFF, CHR 0xF4, CHR 0xFF, CHR 0xF2] @ ''ABOR''"

definition ctrl_cmds :: "(string \<times> handler option) list" where
  "ctrl_cmds =
     [(''USER'', Some do_user), (''PASS'', Some do_pass), (''CWD'', Some do_cwd), (''XCWD'', Some do_cwd),
      (''CDUP'', Some do_cdup), (''XCUP'', Some do_cdup), (''QUIT'', Some do_quit),
      (''ACCT'', None), (''SMNT'', None), (''REIN'', None),
      (''PORT'', Some do_port), (''PASV'', Some do_pasv), (''TYPE'', Some do_type),
      (''STRU'', None), (''MODE'', None),
      (''RETR'', Some do_retr), (''STOR'', Some do_stor), (''APPE'', Some do_appe),
      (''LIST'', Some do_list), (''NLST'', Some do_nlst), (''REST'', Some do_rest),
      (''ABOR'', Some do_abor), (telnet_abor, Some do_abor),
      (''PWD'', Some do_pwd), (''XPWD'', Some do_pwd), (''MKD'', Some do_mkd), (''XMKD'', Some do_mkd),
      (''RMD'', Some do_rmd), (''XRMD'', Some do_rmd), (''DELE'', Some do_dele),
      (''RNFR'', Some do_rnfr), (''RNTO'', Some do_rnto), (''SITE'', Some do_site),
      (''SYST'', Some do_syst), (''FEAT'', Some do_feat), (''SIZE'', Some do_size),
      (''STAT'', Some do_stat), (''NOOP'', Some do_noop), (''HELP'', Some do_help),
      (''STOU'', None), (''ALLO'', None)]"

definition STATUS_NONE :: int where "STATUS_NONE = 0"

text \<open>The loop over the table: the first entry with the name decides.\<close>

definition dispatch :: "kernel \<Rightarrow> nat \<Rightarrow> string \<Rightarrow> (unit, server) prog" where
  "dispatch K p name = (case map_of ctrl_cmds name of
     Some (Some cmd_handler) \<Rightarrow> cmd_handler K p
   | Some None \<Rightarrow> ftp_reply K p FTP_COMMANDNOTIMPL ''Unimplement command.''
   | None \<Rightarrow> ftp_reply K p FTP_BADCMD ''Unknown command.'')"

definition processCtrlRead :: "kernel \<Rightarrow> nat \<Rightarrow> (int, server) prog" where
  "processCtrlRead K p =
     seq (upd_sess p (\<lambda>x. x\<lparr>cmdline := zeros MAX_COMMAND, cmd := zeros MAX_COMMAND, arg := zeros MAX_ARG\<rparr>)) (
     bind (get_sess p) (\<lambda>x.
     bind (readline K (ctrl_fd x) (cmdline x) MAX_COMMAND_LINE) (\<lambda>(n, buf).
     seq (upd_sess p (\<lambda>x. x\<lparr>cmdline := buf\<rparr>)) (
     if n = - 1 then stop (Exit 1)
     else if n = 0 then seq (closeSess K p) (ret 0)
     else
       bind (lift (str_trim_crlf buf)) (\<lambda>line.
       seq (upd_sess p (\<lambda>x. x\<lparr>cmdline := line\<rparr>)) (
       bind (get_sess p) (\<lambda>x.
       bind (lift (str_split line (cmd x) (arg x) (CHR '' ''))) (\<lambda>(c, a).
       bind (lift (str_upper c)) (\<lambda>c.
       seq (upd_sess p (\<lambda>x. x\<lparr>cmd := c, arg := a\<rparr>)) (
       bind (lift (cstring c)) (\<lambda>name.
       seq (dispatch K p name) (ret STATUS_NONE))))))))))))"

definition processDataRead :: "kernel \<Rightarrow> nat \<Rightarrow> (int, server) prog" where
  "processDataRead K p =
     bind (get_sess p) (\<lambda>x.
     if pasv_listen_fd x = - 1 then stop (Exit 1)
     else bind (call K (SysFd Accept (pasv_listen_fd x))) (\<lambda>fd.
       if fd < 0 then ret (- 1)
       else seq (upd_sess p (\<lambda>x. x\<lparr>data_fd := fd\<rparr>)) (ret 0)))"

text \<open>\<open>processRead\<close> and \<open>processWrite\<close> get the index of the entry of \<open>sessinfo\<close>.\<close>

definition get_fdt :: "ptr \<Rightarrow> (fd_t, server) prog" where
  "get_fdt q = bind (nonnull q) (\<lambda>q. bind (gets fdts) (\<lambda>h. lift (deref h q)))"

definition processRead :: "kernel \<Rightarrow> edata_t \<Rightarrow> (int, server) prog" where
  "processRead K ed =
     bind (get_fdt (fd_in ed)) (\<lambda>f.
     bind (nonnull (ed_sess ed)) (\<lambda>p.
     if fd_type f = FDTYPECTRL then processCtrlRead K p else processDataRead K p))"

definition processWrite :: "kernel \<Rightarrow> edata_t \<Rightarrow> (int, server) prog" where
  "processWrite K ed = ret 0"

section \<open>Reading a request\<close>

lemma telnet_abor_length [simp]: "length telnet_abor = 8"
  by (simp add: telnet_abor_def)

lemma upd_sess_run [simp]:
  "sessions s p = Some x \<Longrightarrow> upd_sess p f s = Some (Go () (s\<lparr>sessions := (sessions s)(p \<mapsto> f x)\<rparr>))"
  by (simp add: upd_sess_def modify_def)

lemma lift_run [simp]: "lift (Inr x) s = Some (Go x s)" "lift (Inl e) s = Some (Stop e s)"
  by (simp_all add: ret_def stop_def)

lemma seq_run [simp]: "m s = Some (Go x s') \<Longrightarrow> seq m n s = n s'"
  by (simp add: seq_def)

text \<open>
  A request \<open>c a\<close> that fits the buffers: \<open>processCtrlRead\<close> takes exactly its line, and goes on
  as the handler of the upper-case name, with the argument in the session.
\<close>

definition request_line :: "string \<Rightarrow> string \<Rightarrow> string" where
  "request_line c a = c @ (if a = [] then [] else CHR '' '' # a) @ [cr, lf]"

definition wf_request :: "string \<Rightarrow> string \<Rightarrow> bool" where
  "wf_request c a \<longleftrightarrow> CHR '' '' \<notin> set c \<and> {nul, cr, lf} \<inter> set (c @ a) = {}"

definition filled :: "session \<Rightarrow> string \<Rightarrow> string \<Rightarrow> string \<Rightarrow> session" where
  "filled x l c a = x\<lparr>cmdline := l, cmd := map toupper c @ zeros (MAX_COMMAND - length c),
     arg := a @ zeros (MAX_ARG - length a)\<rparr>"

lemma str_upper_zeros:
  assumes "nul \<notin> set c" "0 < n"
  shows "str_upper (c @ zeros n) = Inr (map toupper c @ zeros n)"
proof -
  obtain m where z: "zeros n = nul # m" using assms(2) by (cases n) (auto simp: zeros_def)
  from assms(1) show ?thesis unfolding z by (induction c) auto
qed

lemma toupper_nul: "nul \<notin> set c \<Longrightarrow> nul \<notin> set (map toupper c)"
  by (metis image_iff set_map toupper_not_nul)

lemma zeros_Suc: "zeros (Suc n) = nul # zeros n"
  by (simp add: zeros_def)

text \<open>Trimming and splitting the buffer that holds a request.\<close>

lemma split_request_buffer:
  assumes wf: "wf_request c a" and t: "terminated t" and fits: "length c + length a < 30"
  obtains l where "str_trim_crlf (request_line c a @ t) = Inr l"
    "str_split l (zeros MAX_COMMAND) (zeros MAX_ARG) (CHR '' '')
      = Inr (c @ zeros (MAX_COMMAND - length c), a @ zeros (MAX_ARG - length a))"
proof -
  let ?l = "c @ (if a = [] then [] else CHR '' '' # a)"
  have n: "nul \<notin> set c" "nul \<notin> set a" "cr \<notin> set c" "cr \<notin> set a" "lf \<notin> set c" "lf \<notin> set a"
    "CHR '' '' \<notin> set c" using wf by (auto simp: wf_request_def)
  have d: "nul \<noteq> cr" "nul \<noteq> lf" "CHR '' '' \<noteq> nul" "CHR '' '' \<noteq> cr" "CHR '' '' \<noteq> lf"
    by (simp_all add: nul_def cr_def lf_def)
  have tt: "terminated (request_line c a @ t)" using t by (simp add: terminated_def)
  then obtain l where l: "str_trim_crlf (request_line c a @ t) = Inr l" "terminated l"
    "cstr l = takeWhile (\<lambda>x. x \<noteq> cr \<and> x \<noteq> lf) (cstr (request_line c a @ t))"
    by (rule str_trim_crlf_spec)
  have "cstr (request_line c a @ t) = request_line c a @ cstr t"
    using n d by (simp add: cstr_def request_line_def takeWhile_append)
  moreover have "takeWhile (\<lambda>x. x \<noteq> cr \<and> x \<noteq> lf) (request_line c a @ cstr t) = ?l"
  proof -
    have "\<forall>x \<in> set ?l. x \<noteq> cr \<and> x \<noteq> lf" using n d by auto
    then have "takeWhile (\<lambda>x. x \<noteq> cr \<and> x \<noteq> lf) (?l @ cr # lf # cstr t) = ?l"
      by (subst takeWhile_append2) auto
    then show ?thesis by (simp add: request_line_def)
  qed
  ultimately have cl: "cstr l = ?l" using l(3) by simp
  have "str_split l (zeros MAX_COMMAND) (zeros MAX_ARG) (CHR '' '')
      = Inr (c @ zeros (MAX_COMMAND - length c), a @ zeros (MAX_ARG - length a))"
  proof (cases "a = []")
    case True
    have "length c < MAX_COMMAND" using fits by (simp add: MAX_COMMAND_def)
    moreover from this have "nul # zeros (MAX_COMMAND - Suc (length c)) = zeros (MAX_COMMAND - length c)"
      by (metis Suc_diff_Suc zeros_Suc)
    ultimately show ?thesis
      using str_split_fresh_none [OF l(2) d(3), of MAX_COMMAND "zeros MAX_ARG"] True cl n(7) by simp
  next
    case False
    have len: "length c + 1 < MAX_COMMAND" "length a < MAX_ARG"
      using fits by (simp_all add: MAX_COMMAND_def MAX_ARG_def)
    moreover from len(2) have "nul # zeros (MAX_ARG - Suc (length a)) = zeros (MAX_ARG - length a)"
      by (metis Suc_diff_Suc zeros_Suc)
    moreover have "cstr l = c @ CHR '' '' # a" using cl False by simp
    ultimately show ?thesis
      using str_split_fresh [OF l(2) _ d(3) n(7), of a MAX_COMMAND MAX_ARG] by simp
  qed
  with l(1) show ?thesis by (rule that)
qed

lemma read_request:
  assumes K: "stream K fd inp" and inp: "inp = taken fd (trace s) @ request_line c a @ later"
    and wf: "wf_request c a" and fits: "length (request_line c a @ later) < MAX_COMMAND"
  obtains h e t where "readline K fd (zeros MAX_COMMAND) MAX_COMMAND_LINE s
      = Some (Go (int (length (request_line c a)), request_line c a @ t) (grow h e s))"
    "terminated t" "reads_only fd h" "taken fd h = request_line c a"
proof -
  define line where "line = c @ (if a = [] then [] else CHR '' '' # a) @ [cr]"
  have rl: "request_line c a = line @ [lf]" by (simp add: request_line_def line_def)
  have "lf \<notin> set line" "nul \<notin> set line"
    using wf by (auto simp: wf_request_def line_def lf_def cr_def nul_def)
  moreover have "inp = taken fd (trace s) @ line @ lf # later" using inp rl by simp
  moreover have "length (line @ lf # later) < MAX_COMMAND" "MAX_COMMAND \<le> MAX_COMMAND_LINE"
    using fits rl by (simp_all add: MAX_COMMAND_def MAX_COMMAND_LINE_def)
  ultimately obtain h s' t where "readline K fd (zeros MAX_COMMAND) MAX_COMMAND_LINE s
      = Some (Go (int (length line + 1), line @ lf # t) s')"
    "terminated t" "moved s h s'" "reads_only fd h" "taken fd h = line @ [lf]"
    using readline_stream [OF K] by metis
  then show ?thesis using that rl by (auto simp: moved_grow)
qed

text \<open>With a client that waits for its answers, every request is the last one so far.\<close>

lemma line_stream_request:
  assumes "line_stream K fd inp" "inp = got @ request_line c a @ later"
  shows "stream K fd (got @ request_line c a)"
  using assms line_stream_until [of K fd "got @ c @ (if a = [] then [] else CHR '' '' # a) @ [cr]" later]
  by (simp add: request_line_def)

lemma request_dispatched_run:
  assumes K: "stream K (ctrl_fd x) inp" and inp: "inp = taken (ctrl_fd x) (trace s) @ request_line c a @ later"
    and wf: "wf_request c a" and fits: "length (request_line c a @ later) < MAX_COMMAND"
    and x: "sessions s p = Some x"
  obtains h e l where "reads_only (ctrl_fd x) h" "taken (ctrl_fd x) h = request_line c a"
    "processCtrlRead K p s = bind (dispatch K p (map toupper c)) (\<lambda>_. ret STATUS_NONE)
       (grow h e (s\<lparr>sessions := (sessions s)(p \<mapsto> filled x l c a)\<rparr>))"
proof -
  let ?x = "x\<lparr>cmdline := zeros MAX_COMMAND, cmd := zeros MAX_COMMAND, arg := zeros MAX_ARG\<rparr>"
  let ?s = "s\<lparr>sessions := (sessions s)(p \<mapsto> ?x)\<rparr>"
  have "inp = taken (ctrl_fd x) (trace ?s) @ request_line c a @ later" using inp by simp
  from read_request [OF K this wf fits] obtain h e t
    where r: "readline K (ctrl_fd x) (zeros MAX_COMMAND) MAX_COMMAND_LINE ?s
        = Some (Go (int (length (request_line c a)), request_line c a @ t) (grow h e ?s))"
      "terminated t" "reads_only (ctrl_fd x) h" "taken (ctrl_fd x) h = request_line c a" .
  have pos: "0 < length (request_line c a)" by (simp add: request_line_def)
  have len: "length c + length a < 30"
    using fits by (simp add: request_line_def MAX_COMMAND_def split: if_splits)
  obtain l where l: "str_trim_crlf (request_line c a @ t) = Inr l"
    "str_split l (zeros MAX_COMMAND) (zeros MAX_ARG) (CHR '' '')
      = Inr (c @ zeros (MAX_COMMAND - length c), a @ zeros (MAX_ARG - length a))"
    using split_request_buffer [OF wf r(2) len] .
  have n: "nul \<notin> set c" using wf by (auto simp: wf_request_def)
  have m: "0 < MAX_COMMAND - length c" using len by (simp add: MAX_COMMAND_def)
  have u: "str_upper (c @ zeros (MAX_COMMAND - length c)) = Inr (map toupper c @ zeros (MAX_COMMAND - length c))"
    using n m by (rule str_upper_zeros)
  have "terminated (map toupper c @ zeros (MAX_COMMAND - length c))"
    using m by (simp add: terminated_def zeros_def)
  then have cs: "cstring (map toupper c @ zeros (MAX_COMMAND - length c)) = Inr (map toupper c)"
    using toupper_nul [OF n] by simp
  have "processCtrlRead K p s = bind (dispatch K p (map toupper c)) (\<lambda>_. ret STATUS_NONE)
       (grow h e (s\<lparr>sessions := (sessions s)(p \<mapsto> filled x l c a)\<rparr>))"
    using x r(1) l u cs pos
    by (simp add: processCtrlRead_def filled_def) (simp add: seq_def ret_def)
  with r(3,4) that show ?thesis by metis
qed

section \<open>Commands with a fixed answer\<close>

text \<open>The answer of the commands that look at nothing, of those the table has no handler for, and
  of unknown ones.\<close>

definition feat_text :: string where
  "feat_text = lreply_text 211 ''Features:''
     @ concat (map (\<lambda>l. l @ [cr, lf]) ['' EPRT'', '' EPSV'', '' MDTM'', '' PASV'', '' REST STREAM'',
         '' SIZE'', '' TVFS'', '' UTF8'']) @ reply_text 211 ''End''"

definition help_text :: string where
  "help_text = lreply_text 214 ''The following commands are recognized.''
     @ concat (map (\<lambda>l. l @ [cr, lf])
        ['' ABOR ACCT ALLO APPE CDUP CWD  DELE EPRT EPSV FEAT HELP LIST MDTM MKD'',
         '' MODE NLST NOOP OPTS PASS PASV PORT PWD  QUIT REIN REST RETR RMD  RNFR'',
         '' RNTO SITE SIZE SMNT STAT STOR STOU STRU SYST TYPE USER XCUP XCWD XMKD'',
         '' XPWD XRMD'']) @ reply_text 214 ''Help OK.''"

definition static_answers :: "(string \<times> string) list" where
  "static_answers =
     [(''NOOP'', reply_text 200 ''NOOP ok.''), (''SYST'', reply_text 215 ''UNIX Type: L8''),
      (''ABOR'', reply_text 225 ''No transfer to ABOR''),
      (telnet_abor, reply_text 225 ''No transfer to ABOR''),
      (''FEAT'', feat_text), (''HELP'', help_text)]"

definition static_answer :: "string \<Rightarrow> string option" where
  "static_answer name = (case map_of ctrl_cmds name of
     None \<Rightarrow> Some (reply_text 500 ''Unknown command.'')
   | Some None \<Rightarrow> Some (reply_text 502 ''Unimplement command.'')
   | Some (Some _) \<Rightarrow> map_of static_answers name)"

lemma wp_send_lines [wp_intro]:
  assumes "writes_progress K"
  shows "(case sessions s p of None \<Rightarrow> False | Some x \<Rightarrow> (\<forall>h e. writes_only (ctrl_fd x) h \<longrightarrow>
      sent (ctrl_fd x) h = concat (map (\<lambda>l. l @ [cr, lf]) ls) \<longrightarrow> Q () (grow h e s)))
    \<Longrightarrow> wp (send_lines K p ls) Q s"
proof (induction ls arbitrary: s)
  case Nil
  then have "Q () (grow [] (errno s) s)" by (auto split: option.splits)
  then show ?case by (simp add: grow_def)
next
  case (Cons l ls)
  obtain x where x: "sessions s p = Some x" and Q: "\<And>h e. writes_only (ctrl_fd x) h \<Longrightarrow>
      sent (ctrl_fd x) h = concat (map (\<lambda>l. l @ [cr, lf]) (l # ls)) \<Longrightarrow> Q () (grow h e s)"
    using Cons.prems by (auto split: option.splits)
  show ?case using x by (auto intro!: wp_send_ctrl [OF assms] Cons.IH Q)
qed

lemma wp_multi_reply:
  assumes K: "writes_progress K" and l: "length (lreply_text n t1) < 1024" "length (reply_text n t2) < 1024"
    and Q: "case sessions s p of None \<Rightarrow> False | Some x \<Rightarrow> (\<forall>h e. writes_only (ctrl_fd x) h \<longrightarrow>
      sent (ctrl_fd x) h = lreply_text n t1 @ concat (map (\<lambda>l. l @ [cr, lf]) ls) @ reply_text n t2 \<longrightarrow>
      Q () (grow h e s))"
  shows "wp (seq (ftp_lreply K p n t1) (seq (send_lines K p ls) (ftp_reply K p n t2))) Q s"
  using l Q by (auto split: option.splits intro!: wp_ftp_lreply [OF K] wp_send_lines [OF K] wp_ftp_reply [OF K])

lemma map_of_static:
  "map_of ctrl_cmds ''NOOP'' = Some (Some do_noop)" "map_of ctrl_cmds ''SYST'' = Some (Some do_syst)"
  "map_of ctrl_cmds ''ABOR'' = Some (Some do_abor)" "map_of ctrl_cmds telnet_abor = Some (Some do_abor)"
  "map_of ctrl_cmds ''FEAT'' = Some (Some do_feat)" "map_of ctrl_cmds ''HELP'' = Some (Some do_help)"
  by (simp_all add: ctrl_cmds_def telnet_abor_def)

lemma dispatch_static:
  assumes "writes_progress K" "static_answer name = Some t" "sessions s p = Some x"
    and Q: "\<And>h e. writes_only (ctrl_fd x) h \<Longrightarrow> sent (ctrl_fd x) h = t \<Longrightarrow> Q () (grow h e s)"
  shows "wp (dispatch K p name) Q s"
proof (cases "map_of ctrl_cmds name")
  case None
  then show ?thesis using assms
    by (auto simp: dispatch_def static_answer_def intro!: wp_ftp_reply Q)
next
  case (Some o1)
  show ?thesis
  proof (cases o1)
    case None
    then show ?thesis using assms Some
      by (auto simp: dispatch_def static_answer_def intro!: wp_ftp_reply Q)
  next
    case (Some f)
    with \<open>map_of ctrl_cmds name = Some o1\<close> assms(2) have "map_of static_answers name = Some t"
      by (simp add: static_answer_def)
    then have "(name, t) \<in> set static_answers" by (rule map_of_SomeD)
    then consider "name = ''NOOP''" "t = reply_text 200 ''NOOP ok.''"
      | "name = ''SYST''" "t = reply_text 215 ''UNIX Type: L8''"
      | "name \<in> {''ABOR'', telnet_abor}" "t = reply_text 225 ''No transfer to ABOR''"
      | "name = ''FEAT''" "t = feat_text" | "name = ''HELP''" "t = help_text"
      by (auto simp: static_answers_def)
    then show ?thesis
    proof cases
      case 1
      then show ?thesis using assms(3)
        by (auto simp: dispatch_def map_of_static do_noop_def intro!: wp_ftp_reply [OF assms(1)] Q)
    next
      case 2
      then show ?thesis using assms(3)
        by (auto simp: dispatch_def map_of_static do_syst_def intro!: wp_ftp_reply [OF assms(1)] Q)
    next
      case 3
      then show ?thesis using assms(3)
        by (auto simp: dispatch_def map_of_static do_abor_def intro!: wp_ftp_reply [OF assms(1)] Q)
    next
      case 4
      have "dispatch K p name = do_feat K p" using 4 by (simp add: dispatch_def map_of_static)
      then show ?thesis unfolding do_feat_def 4(2) feat_text_def FTP_FEAT_def
        using assms(3) Q by (simp only:) (rule wp_multi_reply [OF assms(1)], simp_all add: 4 feat_text_def)
    next
      case 5
      have "dispatch K p name = do_help K p" using 5 by (simp add: dispatch_def map_of_static)
      then show ?thesis unfolding do_help_def 5(2) help_text_def FTP_HELP_def
        using assms(3) Q by (simp only:) (rule wp_multi_reply [OF assms(1)], simp_all add: 5 help_text_def)
    qed
  qed
qed

text \<open>A history that exchanges bytes on one descriptor only.\<close>

definition talks :: "int \<Rightarrow> history \<Rightarrow> bool" where
  "talks fd h \<longleftrightarrow> (\<forall>fd'. fd' \<noteq> fd \<longrightarrow> sent fd' h = [] \<and> taken fd' h = [])"

lemma static_request:
  assumes "stream K (ctrl_fd x) inp" "inp = taken (ctrl_fd x) (trace s) @ request_line c a @ later"
    and "wf_request c a" "length (request_line c a @ later) < MAX_COMMAND" "sessions s p = Some x"
    and "writes_progress K" "static_answer (map toupper c) = Some t"
  shows "wp (processCtrlRead K p) (\<lambda>r s'. r = STATUS_NONE \<and> (\<exists>h e l.
     s' = grow h e (s\<lparr>sessions := (sessions s)(p \<mapsto> filled x l c a)\<rparr>)
     \<and> sent (ctrl_fd x) h = t \<and> taken (ctrl_fd x) h = request_line c a \<and> talks (ctrl_fd x) h)) s" (is "wp _ ?Q _")
proof -
  obtain h e l where r: "reads_only (ctrl_fd x) h" "taken (ctrl_fd x) h = request_line c a"
    "processCtrlRead K p s = bind (dispatch K p (map toupper c)) (\<lambda>_. ret STATUS_NONE)
       (grow h e (s\<lparr>sessions := (sessions s)(p \<mapsto> filled x l c a)\<rparr>))" (is "_ = bind ?m ?f ?s")
    using request_dispatched_run [OF assms(1-5)] by metis
  have x: "sessions ?s p = Some (filled x l c a)" "ctrl_fd (filled x l c a) = ctrl_fd x"
    by (simp_all add: filled_def)
  have "?Q STATUS_NONE (grow h' e' ?s)"
    if "sent (ctrl_fd x) h' = t" "writes_only (ctrl_fd x) h'" for h' e'
    using that r(1,2)
    by (intro conjI refl exI [of _ "h @ h'"] exI [of _ e'] exI [of _ l])
      (auto simp: talks_def reads_only_sent reads_only_taken writes_only_sent writes_only_taken)
  then have "wp (bind ?m ?f) ?Q ?s"
    unfolding wp_bind wp_ret by (intro dispatch_static [OF assms(6,7) x(1), unfolded x(2)])
  then show ?thesis unfolding wp_def r(3) .
qed

section \<open>Properties\<close>

text \<open>C8: a request line that fits the buffers is taken from the connection exactly, whatever
  the pieces it arrives in; the upper-case command selects the handler, which finds the argument
  in the session.\<close>

theorem request_dispatched:
  assumes "stream K (ctrl_fd x) inp" "inp = taken (ctrl_fd x) (trace s) @ request_line c a @ later"
    and "wf_request c a" "length (request_line c a @ later) < MAX_COMMAND" "sessions s p = Some x"
  shows "\<exists>h e l. processCtrlRead K p s = bind (dispatch K p (map toupper c)) (\<lambda>_. ret STATUS_NONE)
       (grow h e (s\<lparr>sessions := (sessions s)(p \<mapsto> filled x l c a)\<rparr>))
     \<and> reads_only (ctrl_fd x) h \<and> taken (ctrl_fd x) h = request_line c a"
  using request_dispatched_run [OF assms] by metis

theorem request_dispatched_witness:
  "\<exists>h e l. processCtrlRead (drip 5 (request_line ''type'' ''A'')) 0 (ready_server ready_session)
     = bind (dispatch (drip 5 (request_line ''type'' ''A'')) 0 ''TYPE'') (\<lambda>_. ret STATUS_NONE)
       (grow h e ((ready_server ready_session)\<lparr>sessions := (sessions (ready_server ready_session))
          (0 \<mapsto> filled ready_session l ''type'' ''A'')\<rparr>))
     \<and> taken 5 h = request_line ''type'' ''A''"
proof -
  have "map toupper ''type'' = ''TYPE''" by code_simp
  moreover have "stream (drip 5 (request_line ''type'' ''A'')) (ctrl_fd ready_session) (request_line ''type'' ''A'')"
    using drip_stream by simp
  ultimately show ?thesis
    using request_dispatched [of "drip 5 (request_line ''type'' ''A'')" ready_session "request_line ''type'' ''A''"
        "ready_server ready_session" "''type''" "''A''" "[]" 0]
    by (auto simp: wf_request_def nul_def cr_def lf_def MAX_COMMAND_def request_line_def)
qed

text \<open>C36: a request for a command with a fixed answer, in any case of letters, gets exactly this
  answer: the five of the table that look at nothing, 502 for those without a handler, 500 for an
  unknown name. The request is consumed and only the buffers of the session change.\<close>

theorem static_commands_answered:
  assumes "stream K (ctrl_fd x) inp" "inp = taken (ctrl_fd x) (trace s) @ request_line c a @ later"
    and "wf_request c a" "length (request_line c a @ later) < MAX_COMMAND" "sessions s p = Some x"
    and "writes_progress K" "static_answer (map toupper c) = Some t"
  shows "wp (processCtrlRead K p) (\<lambda>r s'. r = STATUS_NONE \<and> sent (ctrl_fd x) (since s s') = t
     \<and> taken (ctrl_fd x) (since s s') = request_line c a
     \<and> (\<exists>l. sessions s' = (sessions s)(p \<mapsto> filled x l c a))) s"
  by (rule wp_mono [OF static_request [OF assms]]) (auto simp: since_def)

theorem static_commands_answered_witness:
  "wp (processCtrlRead (small_kernel (request_line ''mode'' ''S'') 0) 0)
     (\<lambda>r s'. sent 5 (since (ready_server ready_session) s') = reply_text 502 ''Unimplement command.'')
     (ready_server ready_session)"
proof -
  have m: "toupper (CHR ''m'') = CHR ''M''" "toupper (CHR ''o'') = CHR ''O''"
    "toupper (CHR ''d'') = CHR ''D''" "toupper (CHR ''e'') = CHR ''E''" by code_simp+
  have "static_answer ''MODE'' = Some (reply_text 502 ''Unimplement command.'')"
    by (simp add: static_answer_def ctrl_cmds_def telnet_abor_def)
  moreover have "stream (small_kernel (request_line ''mode'' ''S'') 0) (ctrl_fd ready_session) (request_line ''mode'' ''S'')"
    using small_kernel_ok(4) by (simp add: stream_eof_def)
  ultimately show ?thesis
    by (intro wp_mono [OF static_commands_answered [OF _ _ _ _ _ small_kernel_ok(2),
            where x = ready_session and later = "[]" and c = "''mode''" and a = "''S''"]])
      (auto simp: m wf_request_def nul_def cr_def lf_def MAX_COMMAND_def request_line_def)
qed

text \<open>C29: the line is read with room for 1024 bytes into a buffer of 32: whenever the first
  segment of a request is longer than 32 bytes, the server writes past the end of the buffer,
  whatever the bytes are.\<close>

theorem long_segment_overflows:
  assumes "sessions s p = Some x" "0 \<le> rv (K (trace s) (SysPeek (ctrl_fd x) 1024))"
    and "32 < length (dat (K (trace s) (SysPeek (ctrl_fd x) 1024)))"
  shows "ends (processCtrlRead K p) OutOfBounds s"
proof -
  let ?s = "s\<lparr>sessions := (sessions s)(p \<mapsto> x\<lparr>cmdline := zeros MAX_COMMAND, cmd := zeros MAX_COMMAND,
      arg := zeros MAX_ARG\<rparr>)\<rparr>"
  let ?d = "take 1024 (dat (K (trace s) (SysPeek (ctrl_fd x) 1024)))"
  have bl: "blit (zeros 32) 0 ?d = Inl OutOfBounds" using assms(3) by (simp add: blit_def)
  have "recv_peek K (ctrl_fd x) (zeros 32) 0 1024 ?s = Some (Stop OutOfBounds (after K (SysPeek (ctrl_fd x) 1024) ?s))"
    using assms(2) bl
    by (subst recv_peek.simps) (simp add: bind_def peek_fd_def sys_run ret_def received_def gets_def stop_def)
  then have "readline K (ctrl_fd x) (zeros 32) 1024 ?s
      = Some (Stop OutOfBounds (after K (SysPeek (ctrl_fd x) 1024) ?s))"
    unfolding readline_def by (subst readline_loop.simps) (simp add: bind_def)
  then show ?thesis using assms(1)
    by (simp add: processCtrlRead_def ends_def MAX_COMMAND_def MAX_COMMAND_LINE_def)
qed

theorem long_segment_overflows_witness:
  "ends (processCtrlRead (\<lambda>_ _. (answer 0)\<lparr>dat := ''CWD /var/www/html/project/releases/current'' @ [cr, lf]\<rparr>) 0)
     OutOfBounds (ready_server ready_session)"
  by (rule long_segment_overflows [where x = ready_session]) simp_all

text \<open>
  A connection on which a part \<open>l\<close> of a line has come and the rest has not: the next look at
  it reports \<open>EAGAIN\<close>, since the descriptor does not block.
\<close>

definition stalled :: "kernel \<Rightarrow> int \<Rightarrow> string \<Rightarrow> bool" where
  "stalled K fd l \<longleftrightarrow> (\<forall>h n.
     (taken fd h = [] \<longrightarrow> 0 \<le> rv (K h (SysPeek fd n)) \<and> dat (K h (SysPeek fd n)) = l
        \<and> 0 \<le> rv (K h (SysRead fd n)) \<and> dat (K h (SysRead fd n)) = l)
     \<and> (taken fd h = l \<longrightarrow> rv (K h (SysPeek fd n)) = - 1 \<and> eno (K h (SysPeek fd n)) = EAGAIN))"

lemma recv_peek_got:
  assumes "0 \<le> rv (K (trace s) (SysPeek fd n))" "dat (K (trace s) (SysPeek fd n)) = d" "length d \<le> n"
    and "blit b off d = Inr b'"
  shows "recv_peek K fd b off n s = Some (Go (int (length d), b') (after K (SysPeek fd n) s))"
  using assms by (subst recv_peek.simps)
    (simp add: bind_def peek_fd_def sys_run ret_def received_def gets_def)

lemma recv_peek_failed:
  assumes "rv (K (trace s) (SysPeek fd n)) < 0" "eno (K (trace s) (SysPeek fd n)) \<noteq> EINTR" "off \<le> length b"
  shows "recv_peek K fd b off n s = Some (Go (- 1, b) (after K (SysPeek fd n) s))"
  using assms by (subst recv_peek.simps)
    (simp add: bind_def peek_fd_def sys_run ret_def received_def gets_def blit_def)

lemma readn_got:
  assumes "0 \<le> rv (K (trace s) (SysRead fd n))" "dat (K (trace s) (SysRead fd n)) = d" "n = length d" "d \<noteq> []"
    and "blit b off d = Inr b'"
  shows "readn K fd b off n s = Some (Go (int n, b') (after K (SysRead fd n) s))"
proof -
  have "readn_loop K fd n 0 (off + n) b' t = Some (Go (int n, b') t)" for t
    by (subst readn_loop.simps) (simp add: ret_def)
  then show ?thesis using assms unfolding readn_def
    by (subst readn_loop.simps) (simp add: bind_def ret_def read_fd_def sys_run received_def)
qed

text \<open>A part of a line is taken, and the next look fails.\<close>

lemma readline_stalled:
  fixes s :: server
  assumes "stalled K fd l" "l \<noteq> []" "length l < 32" "lf \<notin> set l" "nul \<notin> set l" "taken fd (trace s) = []"
  shows "\<exists>b s'. readline K fd (zeros 32) 1024 s = Some (Go (- 1, b) s') \<and> sessions s' = sessions s"
proof -
  let ?n = "length l" and ?b = "l @ zeros (32 - length l)"
  let ?s1 = "after K (SysPeek fd 1024) s"
  let ?s2 = "after K (SysRead fd ?n) ?s1"
  let ?s3 = "after K (SysPeek fd (1024 - ?n)) ?s2"
  note st = assms(1) [unfolded stalled_def, rule_format]
  have r: "0 \<le> rv (K (trace ?s1) (SysRead fd ?n))" "dat (K (trace ?s1) (SysRead fd ?n)) = l"
    using st [of "trace ?s1"] assms(6) by simp_all
  then have "taken fd (trace ?s2) = l" using assms(6) by simp
  then have e: "rv (K (trace ?s2) (SysPeek fd m)) = - 1" "eno (K (trace ?s2) (SysPeek fd m)) = EAGAIN" for m
    using st [of "trace ?s2"] by simp_all
  have p1: "recv_peek K fd (zeros 32) 0 1024 s = Some (Go (int ?n, ?b) ?s1)"
    using st [of "trace s"] assms(3,6) by (intro recv_peek_got) (simp_all add: blit_def)
  have bl: "blit ?b 0 l = Inr ?b" by (simp add: blit_def)
  have r1: "readn K fd ?b 0 ?n ?s1 = Some (Go (int ?n, ?b) ?s2)"
    using r assms(2) bl by (intro readn_got) simp_all
  have p2: "recv_peek K fd ?b ?n (1024 - ?n) ?s2 = Some (Go (- 1, ?b) ?s3)"
    using e by (intro recv_peek_failed) simp_all
  have "32 - ?n = Suc (31 - ?n)" using assms(3) by simp
  then have "strchr ?b lf = Inr None"
    using assms(4,5) by (simp only: zeros_Suc, intro strchr_absent) (simp_all add: lf_def nul_def)
  moreover have "readline_loop K fd (1024 - ?n) ?n ?n ?b ?s2 = Some (Go (- 1, ?b) ?s3)"
    using p2 by (subst readline_loop.simps) (simp add: bind_def ret_def)
  ultimately have "readline K fd (zeros 32) 1024 s = Some (Go (- 1, ?b) ?s3)"
    unfolding readline_def using p1 r1 assms(2,3)
    by (subst readline_loop.simps) (simp add: bind_def ret_def)
  then show ?thesis by simp
qed

text \<open>C30: a client that sends a part of a command line and pauses ends the whole server: the
  part is consumed, the next look finds nothing yet, and the error ends the process with status 1.\<close>

theorem partial_line_ends_server:
  assumes "stalled K (ctrl_fd x) l" "l \<noteq> []" "length l < 32" "lf \<notin> set l" "nul \<notin> set l"
    and "sessions s p = Some x" "taken (ctrl_fd x) (trace s) = []"
  shows "ends (processCtrlRead K p) (Exit 1) s"
proof -
  let ?s = "s\<lparr>sessions := (sessions s)(p \<mapsto> x\<lparr>cmdline := zeros MAX_COMMAND, cmd := zeros MAX_COMMAND,
      arg := zeros MAX_ARG\<rparr>)\<rparr>"
  obtain b s' where "readline K (ctrl_fd x) (zeros 32) 1024 ?s = Some (Go (- 1, b) s')" "sessions s' = sessions ?s"
    using readline_stalled [OF assms(1-5), of ?s] assms(7) by auto
  then show ?thesis using assms(6)
    by (simp add: processCtrlRead_def ends_def MAX_COMMAND_def MAX_COMMAND_LINE_def stop_def)
qed

theorem partial_line_ends_server_witness:
  "ends (processCtrlRead (\<lambda>h c. if taken 5 h = [] then (answer 0)\<lparr>dat := ''NO''\<rparr>
      else (answer (- 1))\<lparr>eno := EAGAIN\<rparr>) 0) (Exit 1) (ready_server ready_session)"
  by (rule partial_line_ends_server [where x = ready_session and l = "''NO''"])
    (simp_all add: stalled_def lf_def nul_def)

end
