(* ===== verification/Frame.thy ===== *)
theory Frame
  imports Dispatch
begin

text \<open>
  How far the state can move under a program, whatever the kernel answers and however the program
  ends. The rules follow the structure of programs, so that a handler is one line. They are proved
  once for an order on states (locale \<open>moving\<close>) and used for what a program keeps, here, and for
  what it may only increase (theory Admission). The result here: a command leaves every session
  but its own, the list, the counters and the tunables as they were.
\<close>

section \<open>Rules\<close>

named_theorems keeps_intro \<open>how far a program moves the state\<close>

fun final :: "('a, 's) outcome \<Rightarrow> 's" where
  "final (Stop e s) = s"
| "final (Go x s) = s"

definition moves :: "('s \<Rightarrow> 's \<Rightarrow> bool) \<Rightarrow> ('a, 's) prog \<Rightarrow> bool" where
  "moves R m \<longleftrightarrow> (\<forall>s r. m s = Some r \<longrightarrow> R s (final r))"

lemma movesI: "(\<And>s r. m s = Some r \<Longrightarrow> R s (final r)) \<Longrightarrow> moves R m"
  by (simp add: moves_def)

lemma movesE: "m s = Some r \<Longrightarrow> moves R m \<Longrightarrow> R s (final r)"
  by (simp add: moves_def)

lemma movesE_if: "(if b then m s else n s) = Some r \<Longrightarrow> moves R m \<Longrightarrow> moves R n \<Longrightarrow> R s (final r)"
  by (auto simp: moves_def split: if_splits)

lemma moves_weaken: "moves R m \<Longrightarrow> (\<And>s s'. R s s' \<Longrightarrow> R' s s') \<Longrightarrow> moves R' m"
  by (auto simp: moves_def)

lemmas moves_loop = movesE movesE_if

locale moving =
  fixes R :: "'s \<Rightarrow> 's \<Rightarrow> bool"
  assumes stay: "R s s" and trans: "R s t \<Longrightarrow> R t u \<Longrightarrow> R s u"
begin

lemma moves_ret [keeps_intro]: "moves R (ret x)"
  and moves_stop [keeps_intro]: "moves R (stop e)"
  and moves_gets [keeps_intro]: "moves R (gets g)"
  by (auto simp: moves_def ret_def stop_def gets_def stay)

lemma moves_lift [keeps_intro]: "moves R (lift r)"
  by (cases r) (simp_all add: moves_ret moves_stop)

lemma moves_modify [keeps_intro]: "(\<And>s. R s (h s)) \<Longrightarrow> moves R (modify h)"
  by (simp add: moves_def modify_def)

lemma moves_bind [keeps_intro]:
  assumes "moves R m" "\<And>x. moves R (n x)" shows "moves R (bind m n)"
proof (rule movesI)
  fix s r assume "bind m n s = Some r"
  then show "R s (final r)"
  proof (cases rule: bind_cases)
    case (1 e s')
    with assms(1) show ?thesis by (fastforce simp: moves_def)
  next
    case (2 x s')
    with assms show ?thesis by (auto dest!: movesE intro: trans)
  qed
qed

lemma moves_seq [keeps_intro]: "moves R m \<Longrightarrow> moves R n \<Longrightarrow> moves R (seq m n)"
  by (simp add: seq_def moves_bind)

lemma moves_onlyif [keeps_intro]: "moves R m \<Longrightarrow> moves R (onlyif b m)"
  by (simp add: onlyif_def moves_ret)

end

lemma moves_if [keeps_intro]: "(b \<Longrightarrow> moves R m) \<Longrightarrow> (\<not> b \<Longrightarrow> moves R n) \<Longrightarrow> moves R (if b then m else n)"
  by simp

lemma moves_option [keeps_intro]:
  "moves R m \<Longrightarrow> (\<And>x. moves R (n x)) \<Longrightarrow> moves R (case o1 of None \<Rightarrow> m | Some x \<Rightarrow> n x)"
  by (cases o1) auto

lemma moves_list [keeps_intro]:
  "moves R m \<Longrightarrow> (\<And>x xs. moves R (n x xs)) \<Longrightarrow> moves R (case l of [] \<Rightarrow> m | x # xs \<Rightarrow> n x xs)"
  by (cases l) auto

lemma moves_prod [keeps_intro]: "(\<And>a b. moves R (m a b)) \<Longrightarrow> moves R (case p of (a, b) \<Rightarrow> m a b)"
  by (cases p) simp

lemma moves_Let [keeps_intro]: "(\<And>y. moves R (m y)) \<Longrightarrow> moves R (let y = x in m y)"
  by simp

text \<open>What a program keeps: a view of the state that is the same afterwards.\<close>

abbreviation keeps :: "('s \<Rightarrow> 'b) \<Rightarrow> ('a, 's) prog \<Rightarrow> bool" where
  "keeps f m \<equiv> moves (\<lambda>s s'. f s' = f s) m"

interpretation same: moving "\<lambda>s s'. f s' = f s" for f :: "'s \<Rightarrow> 'b"
  by unfold_locales auto

text \<open>
  The operations of \<open>Kernel\<close> and \<open>SysUtil\<close> change the state of the kernel only, where they add to
  the calls that were made.
\<close>

definition rest :: "'z kstate_scheme \<Rightarrow> 'z" where
  "rest s = kstate.more s"

definition calls :: "'z kstate_scheme \<Rightarrow> 'z kstate_scheme \<Rightarrow> bool" where
  "calls s s' \<longleftrightarrow> rest s' = rest s \<and> (\<exists>h. trace s' = trace s @ h)"

interpretation calling: moving calls
  by unfold_locales (auto simp: calls_def)

lemma keeps_sys [keeps_intro]: "moves calls (sys K c)"
  by (auto simp: moves_def sys_def calls_def rest_def Let_def)

lemma keeps_call [keeps_intro]: "moves calls (call K c)"
  unfolding call_def by (intro keeps_intro)

lemma keeps_write_fd [keeps_intro]: "moves calls (write_fd K fd d)"
  unfolding write_fd_def by (intro keeps_intro)

lemma keeps_read_fd [keeps_intro]: "moves calls (read_fd K fd n)"
  unfolding read_fd_def by (intro keeps_intro)

lemma keeps_peek_fd [keeps_intro]: "moves calls (peek_fd K fd n)"
  unfolding peek_fd_def by (intro keeps_intro)

lemma keeps_writen_loop [keeps_intro]: "moves calls (writen_loop K fd cnt b)"
  by (rule movesI, erule writen_loop.raw_induct [rotated], erule moves_loop)
    (rule keeps_intro | (rule movesI, blast))+

lemma keeps_readn_loop [keeps_intro]: "moves calls (readn_loop K fd cnt n off b)"
  by (rule movesI, erule readn_loop.raw_induct [rotated], erule moves_loop)
    (rule keeps_intro | (rule movesI, blast))+

lemma keeps_recv_peek [keeps_intro]: "moves calls (recv_peek K fd b off len)"
  by (rule movesI, erule recv_peek.raw_induct [rotated], erule moves_loop)
    (rule keeps_intro | (rule movesI, blast))+

lemma keeps_readn [keeps_intro]: "moves calls (readn K fd b off cnt)"
  unfolding readn_def by (rule keeps_intro)

lemma keeps_readline_loop [keeps_intro]: "moves calls (readline_loop K fd n tot off b)"
  by (rule movesI, erule readline_loop.raw_induct [rotated], erule moves_loop)
    (rule keeps_intro | (rule movesI, blast))+

lemma keeps_lock_internal [keeps_intro]: "moves calls (lock_internal K fd excl)"
  by (rule movesI, erule lock_internal.raw_induct [rotated], erule moves_loop)
    (rule keeps_intro | (rule movesI, blast))+

lemma keeps_sysutil [keeps_intro]:
  "moves calls (writen K fd b)" "moves calls (readline K fd b len)"
  "moves calls (lock_file_read K fd)" "moves calls (lock_file_write K fd)"
  "moves calls (get_time_sec K)" "moves calls get_time_usec" "moves calls (fail_exit K c)"
  unfolding writen_def readline_def lock_file_read_def lock_file_write_def get_time_sec_def
    get_time_usec_def fail_exit_def
  by (rule keeps_intro | simp add: calls_def rest_def)+

lemma keeps_sockets [keeps_intro]:
  "moves calls (tcp_server K host prt)" "moves calls (getlocalip K ip)"
  "moves calls (get_file_name K fd)" "moves calls (statbuf_get_date K st)"
  unfolding tcp_server_def getlocalip_def get_file_name_def statbuf_get_date_def
  by (rule keeps_intro)+

lemma rest_eqD:
  "rest s = rest s' \<Longrightarrow> s' = s\<lparr>trace := trace s', errno := errno s', curr_time := curr_time s'\<rparr>"
  by (rule kstate.equality) (simp_all add: rest_def)

lemma calls_server:
  fixes s s' :: server
  assumes "calls s s'" shows "sessions s' = sessions s" "\<exists>h. trace s' = trace s @ h"
proof -
  from assms have "rest s = rest s'" by (simp add: calls_def)
  from arg_cong [OF rest_eqD [OF this], of sessions] show "sessions s' = sessions s" by simp
qed (use assms in \<open>simp add: calls_def\<close>)

text \<open>A view of the server that does not look at the kernel is kept by every operation of \<open>SysUtil\<close>.\<close>

definition server_view :: "(server \<Rightarrow> 'b) \<Rightarrow> bool" where
  "server_view f \<longleftrightarrow> (\<forall>s s'. rest s = rest s' \<longrightarrow> f s = f s')"

lemma keeps_view: "server_view f \<Longrightarrow> moves calls m \<Longrightarrow> keeps f m"
  unfolding server_view_def moves_def calls_def by blast

lemma server_viewI:
  assumes "\<And>s t e c. f (s\<lparr>trace := t, errno := e, curr_time := c\<rparr>) = f s" shows "server_view f"
  unfolding server_view_def
proof (intro allI impI)
  fix s s' assume "rest s = rest (s' :: server)"
  from arg_cong [OF rest_eqD [OF this], of f] assms show "f s = f s'" by simp
qed

lemmas kernel_keeps = keeps_sys keeps_call keeps_write_fd keeps_read_fd keeps_sysutil keeps_sockets

section \<open>The code of one session\<close>

text \<open>
  The handlers and the workers change the server by a few operations: they update their session,
  but not the descriptor and the buffers of its request line, start workers, and, where they close
  the session or open it for data (\<open>closeSess\<close>, \<open>do_pasv\<close>), free it, allocate and free descriptor
  records and fill entries of \<open>sessinfo\<close>. Whatever relation on servers allows these holds across
  every handler. It is used for what a session leaves alone (here), for the types (theory Typing),
  and for the tables (theory Tables).
\<close>

definition request_part :: "session \<Rightarrow> int \<times> string \<times> string \<times> string" where
  "request_part x = (ctrl_fd x, cmdline x, cmd x, arg x)"

lemma request_part_update [simp, keeps_intro]:
  "request_part (x\<lparr>uid := a\<rparr>) = request_part x" "request_part (x\<lparr>dirfd := b\<rparr>) = request_part x"
  "request_part (x\<lparr>rnfr_name := c\<rparr>) = request_part x" "request_part (x\<lparr>is_ascii := b\<rparr>) = request_part x"
  "request_part (x\<lparr>restart_pos := b\<rparr>) = request_part x" "request_part (x\<lparr>port_addr := d\<rparr>) = request_part x"
  "request_part (x\<lparr>pasv_listen_fd := b\<rparr>) = request_part x" "request_part (x\<lparr>data_fd := b\<rparr>) = request_part x"
  "request_part (x\<lparr>data_fd := b, pasv_listen_fd := b'\<rparr>) = request_part x"
  "request_part (x\<lparr>abor_received := b\<rparr>) = request_part x" "request_part (x\<lparr>num_this_ip := a\<rparr>) = request_part x"
  "request_part (x\<lparr>bw_transfer_start_sec := b\<rparr>) = request_part x"
  "request_part (x\<lparr>bw_transfer_start_usec := b\<rparr>) = request_part x"
  by (simp_all add: request_part_def)

fun owner :: "thread \<Rightarrow> nat" where
  "owner (ThreadRetr p) = p"
| "owner (UploadCommon p a) = p"

locale session_base = moving R for R :: "server \<Rightarrow> server \<Rightarrow> bool" +
  fixes p :: nat
  assumes kernel: "calls s s' \<Longrightarrow> R s s'"
    and upd: "sessions s p = Some x \<Longrightarrow> request_part y = request_part x \<Longrightarrow>
      R s (s\<lparr>sessions := (sessions s)(p \<mapsto> y)\<rparr>)"
    and perms: "R s (s\<lparr>perms := b\<rparr>)"
    and thread: "owner t = p \<Longrightarrow> R s (s\<lparr>threads := threads s @ [t]\<rparr>)"
begin

lemmas moves_globals [keeps_intro] = perms thread

lemma moves_calls: "moves calls m \<Longrightarrow> moves R m"
  by (erule moves_weaken) (rule kernel)

lemmas moves_kernel [keeps_intro] = kernel_keeps [THEN moves_calls]

lemma moves_session_ops [keeps_intro]:
  "moves R (nonnull ptr)" "moves R (get_sess q)" "moves R (get_info fd)" "moves R (sprintf n t)"
  unfolding nonnull_def get_sess_def get_info_def sprintf_def by (rule keeps_intro)+

lemma moves_upd_sess [keeps_intro]: "(\<And>x. request_part (f x) = request_part x) \<Longrightarrow> moves R (upd_sess p f)"
  by (rule movesI) (auto simp: upd_sess_def get_sess_def gets_def lift_def stop_def ret_def modify_def deref_def
    stay upd elim!: bind_cases split: option.splits)

lemma moves_epoll [keeps_intro]:
  "moves R (setnonblocking K fd)" "moves R (addFdData K ep fd i b)"
  "moves R (removefd K ep fd)" "moves R (modfd K ep fd b)"
  unfolding setnonblocking_def addFdData_def removefd_def modfd_def by (rule keeps_intro)+

lemma moves_replies [keeps_intro]:
  "moves R (send_ctrl K q b)" "moves R (ftp_reply K q n t)"
  "moves R (ftp_lreply K q n t)"
  unfolding ftp_reply_def ftp_lreply_def send_ctrl_def by (rule keeps_intro)+

lemma moves_getDataLisPort [keeps_intro]: "moves R (getDataLisPort K p)"
  unfolding getDataLisPort_def by (rule keeps_intro)+

lemma moves_list_entry [keeps_intro]: "moves R (list_entry K q detail name)"
  unfolding list_entry_def detail_line_def Let_def by (rule keeps_intro)+

lemma moves_list_loop [keeps_intro]: "moves R (list_loop K q detail dir)"
  by (rule movesI, erule list_loop.raw_induct [rotated], erule moves_loop)
    (rule keeps_intro | (rule movesI, blast))+

lemma moves_sendfile [keeps_intro]: "moves R (sendfile K o1 i n)"
  unfolding sendfile_def by (rule keeps_intro)+

lemma moves_limit_rate [keeps_intro]: "moves R (limit_rate q n u)"
  unfolding limit_rate_def by (rule keeps_intro)

lemma moves_send_loop [keeps_intro]: "moves R (send_loop K q fd n)"
  by (rule movesI, erule send_loop.raw_induct [rotated], erule moves_loop)
    (rule keeps_intro | (rule movesI, blast))+

lemma moves_upload_loop [keeps_intro]: "moves R (upload_loop K q fd)"
  by (rule movesI, erule upload_loop.raw_induct [rotated], erule moves_loop)
    (rule keeps_intro | (rule movesI, blast))+

end

text \<open>Everything but PASV, the one command that opens a socket.\<close>

locale session_rest = session_base R p for R p +
  fixes K :: kernel
  assumes close [keeps_intro]: "moves R (closeSess K p)"
begin

lemma moves_send_lines [keeps_intro]: "moves R (send_lines K q ls)"
  by (induction ls) (simp_all add: keeps_intro)

lemma moves_sess_arg [keeps_intro]: "moves R (sess_arg q)"
  unfolding sess_arg_def by (rule keeps_intro)+

lemma moves_login [keeps_intro]: "moves R (do_user K p)" "moves R (do_pass K p)"
  unfolding do_user_def do_pass_def by (rule keeps_intro)+

lemma moves_directories [keeps_intro]:
  "moves R (do_cwd K p)" "moves R (do_cdup K p)" "moves R (do_pwd K p)"
  "moves R (do_mkd K p)" "moves R (do_rmd K p)" "moves R (do_dele K p)"
  "moves R (do_rnfr K p)" "moves R (do_rnto K p)" "moves R (do_size K p)"
  unfolding do_cwd_def do_cdup_def do_pwd_def do_mkd_def do_rmd_def do_dele_def do_rnfr_def do_rnto_def
    do_size_def Let_def
  by (rule keeps_intro)+

lemma moves_session_commands [keeps_intro]:
  "moves R (do_quit K p)" "moves R (do_type K p)" "moves R (do_rest K p)"
  "moves R (do_abor K p)" "moves R (do_syst K p)" "moves R (do_noop K p)"
  "moves R (do_feat K p)" "moves R (do_help K p)" "moves R (do_stat K p)"
  unfolding do_quit_def do_type_def do_rest_def do_abor_def do_syst_def do_noop_def do_feat_def
    do_help_def do_stat_def
  by (rule keeps_intro)+

lemma moves_site [keeps_intro]:
  "moves R (do_site_chmod K p a)" "moves R (do_site_umask K p a)"
  "moves R (do_site K p)"
  unfolding do_site_def do_site_chmod_def do_site_umask_def by (rule keeps_intro)+

lemma moves_data_connections [keeps_intro]:
  "moves R (do_port K p)" "moves R (getPasvDataFd p)"
  "moves R (drop_data_fds K p)" "owner t = p \<Longrightarrow> moves R (spawn K t)"
  unfolding do_port_def getPasvDataFd_def drop_data_fds_def spawn_def Let_def
  by (rule keeps_intro | assumption)+

lemma moves_transfers [keeps_intro]:
  "moves R (list_common K p detail)" "moves R (do_list K p)" "moves R (do_nlst K p)"
  "moves R (do_retr K p)" "moves R (do_stor K p)" "moves R (do_appe K p)"
  unfolding list_common_def do_list_def do_nlst_def do_retr_def do_stor_def do_appe_def get_transfer_fd_def
  by (rule keeps_intro owner.simps)+

text \<open>Workers.\<close>

lemma moves_check_abor [keeps_intro]: "moves R (check_abor K p)"
  unfolding check_abor_def by (rule keeps_intro)+

lemma moves_start_transfer [keeps_intro]: "moves R (start_transfer K p)"
  unfolding start_transfer_def by (rule keeps_intro)+

lemma moves_finish_transfer [keeps_intro]: "moves R (finish_transfer K p fd flag e1 e2)"
  unfolding finish_transfer_def by (rule keeps_intro)+

lemma moves_workers [keeps_intro]:
  "moves R (threadRetr K p)" "moves R (upload_common K p a)"
  unfolding threadRetr_def upload_common_def Let_def by (rule keeps_intro)+

lemma moves_run_thread: "owner t = p \<Longrightarrow> moves R (run_thread K t)"
  by (cases t) (auto simp: run_thread_def intro: keeps_intro)

lemma moves_ctrl_cmds: "(name, Some f) \<in> set ctrl_cmds \<Longrightarrow> name \<noteq> ''PASV'' \<Longrightarrow> moves R (f K p)"
  unfolding ctrl_cmds_def by (auto intro: keeps_intro)

lemma moves_dispatch_other: "name \<noteq> ''PASV'' \<Longrightarrow> moves R (dispatch K p name)"
proof (cases "map_of ctrl_cmds name")
  case (Some h)
  then show ?thesis if "name \<noteq> ''PASV''" using that
    by (cases h) (auto simp: dispatch_def intro: keeps_intro moves_ctrl_cmds dest: map_of_SomeD)
qed (simp add: dispatch_def keeps_intro)

lemma moves_processDataRead [keeps_intro]: "moves R (processDataRead K p)"
  unfolding processDataRead_def by (rule keeps_intro)+

lemma moves_get_fdt [keeps_intro]: "moves R (get_fdt q)"
  unfolding get_fdt_def by (rule keeps_intro)+

end

lemma dispatch_PASV: "dispatch K p ''PASV'' = do_pasv K p"
  by (simp add: dispatch_def ctrl_cmds_def)

locale session_code = session_rest R p K for R p K +
  assumes pasv [keeps_intro]: "moves R (do_pasv K p)"
begin

lemma moves_dispatch [keeps_intro]: "moves R (dispatch K p name)"
  by (cases "name = ''PASV''") (simp_all add: moves_dispatch_other dispatch_PASV pasv)

end

text \<open>A relation that allows any change of the tables allows closing a session and opening it for data.\<close>

locale session_store = session_base R p for R p +
  assumes free: "R s (s\<lparr>sessions := (sessions s)(p := None)\<rparr>)"
    and new_fdt: "R s (s\<lparr>fdts := (fdts s)(fdt_brk s \<mapsto> v), fdt_brk := Suc (fdt_brk s)\<rparr>)"
    and drop_fdt: "R s (s\<lparr>fdts := (fdts s)(q := None)\<rparr>)"
    and info: "R s (s\<lparr>sessinfo := (sessinfo s)[i := d]\<rparr>)"
begin

lemma moves_store [keeps_intro]: "moves R (free_sess p)" "moves R (free_fdt ptr)"
  unfolding free_sess_def free_fdt_def by (rule keeps_intro free drop_fdt)+

lemma moves_getfd_t [keeps_intro]: "moves R (getfd_t ty fd)"
  by (rule movesI) (simp add: getfd_t_def bind_def gets_def seq_def modify_def ret_def new_fdt)

lemma moves_set_info [keeps_intro]: "moves R (set_info fd d)"
  by (rule movesI) (auto simp: set_info_def gets_def lift_def stop_def ret_def modify_def poke_at_def
    stay info elim!: bind_cases split: sum.splits if_splits)

lemma moves_closeSess [keeps_intro]: "moves R (closeSess K p)"
  unfolding closeSess_def Let_def by (rule keeps_intro)+

lemma moves_do_pasv [keeps_intro]: "moves R (do_pasv K p)"
  unfolding do_pasv_def Let_def by (rule keeps_intro)+

end

sublocale session_store < session_code R p K for K
  by unfold_locales (rule moves_closeSess moves_do_pasv)+

section \<open>A command and the rest of the server\<close>

text \<open>What no command of the session \<open>p\<close> changes.\<close>

definition frame :: "nat \<Rightarrow> server \<Rightarrow> (nat \<Rightarrow> session option) \<times> nat \<times> lru \<times> counters \<times> tunables \<times> int \<times> ptr \<times> nat" where
  "frame p s = ((sessions s)(p := None), sess_brk s, conns s, cnts s, tun s, epollfd s, p_sess s,
     length (sessinfo s))"

lemma frame_view: "server_view (frame p)"
  by (rule server_viewI) (simp add: frame_def)

lemma frame_updates [simp]:
  "frame p (s\<lparr>sessions := (sessions s)(p := v)\<rparr>) = frame p s"
  "frame p (s\<lparr>fdts := a, fdt_brk := b\<rparr>) = frame p s" "frame p (s\<lparr>fdts := a\<rparr>) = frame p s"
  "frame p (s\<lparr>sessinfo := (sessinfo s)[i := d]\<rparr>) = frame p s"
  "frame p (s\<lparr>perms := c\<rparr>) = frame p s" "frame p (s\<lparr>threads := ts\<rparr>) = frame p s"
  by (simp_all add: frame_def)

interpretation framed: session_store "\<lambda>s s'. frame p s' = frame p s" p for p
proof unfold_locales
  show "frame p s' = frame p s" if "calls s s'" for s s'
    using that frame_view [of p] unfolding calls_def server_view_def by metis
qed (rule frame_updates)+

lemma keeps_upd_sess [keeps_intro]: "keeps (frame p) (upd_sess p f)"
  unfolding upd_sess_def get_sess_def by (rule keeps_intro | simp add: frame_def)+

lemmas keeps_session_ops = framed.moves_session_ops framed.moves_store framed.moves_getfd_t keeps_upd_sess
lemmas keeps_set_info = framed.moves_set_info
lemmas keeps_epoll = framed.moves_epoll
lemmas keeps_closeSess = framed.moves_closeSess
lemmas keeps_replies = framed.moves_replies
lemmas keeps_run_thread = framed.moves_run_thread
lemmas keeps_processDataRead = framed.moves_processDataRead
lemmas keeps_get_fdt = framed.moves_get_fdt

section \<open>Requests\<close>

lemma keeps_processCtrlRead [keeps_intro]: "keeps (frame p) (processCtrlRead K p)"
  unfolding processCtrlRead_def by (rule keeps_intro)+

lemma keeps_processRead: "ed_sess ed = Some p \<Longrightarrow> keeps (frame p) (processRead K ed)"
  unfolding processRead_def nonnull_def by (simp, (rule keeps_intro)+)

text \<open>C3: whatever a client sends and whatever the kernel answers, the work on its request leaves
  every other session, the connection list, the counters, the tunables and the descriptor of epoll
  exactly as they were; so does a worker of the session.\<close>

theorem requests_touch_own_session:
  assumes "processRead K ed s = Some r \<and> ed_sess ed = Some p \<and> s' = final r
    \<or> run_thread K t s = Some u \<and> owner t = p \<and> s' = final u"
  shows "(\<forall>q. q \<noteq> p \<longrightarrow> sessions s' q = sessions s q) \<and> conns s' = conns s
    \<and> cnts s' = cnts s \<and> tun s' = tun s \<and> epollfd s' = epollfd s"
proof -
  have "frame p s' = frame p s"
    using assms movesE [OF _ keeps_processRead] movesE [OF _ keeps_run_thread] by blast
  then show ?thesis by (auto simp: frame_def fun_eq_iff) metis
qed

lemma wp_readline_eof:
  assumes "0 \<le> rv (K (trace s) (SysPeek fd len))" "dat (K (trace s) (SysPeek fd len)) = []"
  shows "wp (readline K fd b len) Q s = Q (0, b) (after K (SysPeek fd len) s)"
proof -
  have "recv_peek K fd b 0 len s = Some (Go (0, b) (after K (SysPeek fd len) s))"
    using assms by (subst recv_peek.simps)
      (simp add: bind_def peek_fd_def sys_run ret_def received_def gets_def blit_def)
  then have "readline K fd b len s = Some (Go (0, b) (after K (SysPeek fd len) s))"
    unfolding readline_def by (subst readline_loop.simps) (simp add: bind_def ret_def)
  then show ?thesis by (simp add: wp_def)
qed

text \<open>Two clients, for the witness: the first one hangs up.\<close>

definition two_clients :: server where
  "two_clients = (ready_server ready_session)\<lparr>sessions := [0 \<mapsto> ready_session, 1 \<mapsto> ready_session\<lparr>ctrl_fd := 6\<rparr>],
     fdts := [0 \<mapsto> \<lparr>fd_type = FDTYPECTRL, fd_fd = 5\<rparr>]\<rparr>"

theorem requests_touch_own_session_witness:
  "\<exists>r. processRead (\<lambda>_ _. answer 0) \<lparr>fd_in = Some 0, ed_sess = Some 0\<rparr> two_clients = Some r
     \<and> sessions (final r) 0 = None \<and> sessions (final r) 1 = Some (ready_session\<lparr>ctrl_fd := 6\<rparr>)"
proof -
  let ?K = "\<lambda>_ _. answer 0" and ?ed = "\<lparr>fd_in = Some 0, ed_sess = Some 0\<rparr>"
  have "wp (processRead ?K ?ed) (\<lambda>r s'. sessions s' 0 = None) two_clients"
    by (auto simp: processRead_def two_clients_def get_fdt_def processCtrlRead_def wp_readline_eof
        in_table_def MAX_SESSIONS_def ready_server_def init_server_def without_def intro!: wp_closeSess)
  then obtain x s' where r: "processRead ?K ?ed two_clients = Some (Go x s')" "sessions s' 0 = None"
    by (auto simp: wp_ex)
  from requests_touch_own_session [OF disjI1, of ?K ?ed two_clients "Go x s'" 0] r
  have "sessions (final (Go x s')) 0 = None \<and> sessions (final (Go x s')) 1 = Some (ready_session\<lparr>ctrl_fd := 6\<rparr>)"
    by (simp add: two_clients_def)
  with r(1) show ?thesis by blast
qed

end
