(* ===== verification/EventLoop.thy ===== *)
theory EventLoop
  imports Dispatch
begin

text \<open>
  The event loop of \<^verbatim>\<open>ftpepoll.cpp\<close>: admission of connections, timeouts, and one iteration of
  the loop of \<open>main\<close>. The whole server is a step relation: an iteration of the main thread, or a
  worker that was created and has not run yet, whole, in any order.
\<close>

section \<open>The connection list of the server\<close>

definition on_conns :: "(lru \<Rightarrow> lru res) \<Rightarrow> (unit, server) prog" where
  "on_conns f = bind (gets conns) (\<lambda>c. bind (lift (f c)) (\<lambda>c. modify (\<lambda>s. s\<lparr>conns := c\<rparr>)))"

definition get_node :: "nat \<Rightarrow> (toNode, server) prog" where
  "get_node q = bind (gets conns) (\<lambda>c. lift (deref (lnodes c) q))"

text \<open>The functions of the list with the clock they read; \<open>refreshTimeout\<close> reads it only when the
  table has a node.\<close>

definition refresh_conn :: "kernel \<Rightarrow> int \<Rightarrow> (int, server) prog" where
  "refresh_conn K fd =
     bind (gets conns) (\<lambda>c.
     bind (lift (bnd (fd_index fd) (peek_at (map_fd_toNode c)))) (\<lambda>np.
     if np = None then ret (- 1)
     else bind (get_time_sec K) (\<lambda>now.
       bind (lift (refreshTimeout fd now c)) (\<lambda>(r, c).
       seq (modify (\<lambda>s. s\<lparr>conns := c\<rparr>)) (ret r)))))"

definition add_conn :: "kernel \<Rightarrow> nat \<Rightarrow> (unit, server) prog" where
  "add_conn K p =
     bind (get_time_sec K) (\<lambda>sec.
     bind (get_sess p) (\<lambda>x.
     on_conns (addtoNode p (ctrl_fd x) sec)))"

definition removeToNode :: "kernel \<Rightarrow> nat \<Rightarrow> (unit, server) prog" where
  "removeToNode K rmNode =
     bind (get_node rmNode) (\<lambda>n.
     bind (get_sess (nd_sess n)) (\<lambda>x.
     seq (on_conns (set_map_fd (ctrl_fd x) None)) (
     seq (closeSess K (nd_sess n)) (
     seq (on_conns (unlinkNode rmNode)) (
     on_conns (free_node rmNode))))))"

section \<open>Timeouts\<close>

partial_function (option) expire_loop :: "kernel \<Rightarrow> (unit, server) prog" where
  "expire_loop K s =
     bind (gets (\<lambda>s. pLRU (conns s))) (\<lambda>l.
     case l of
       None \<Rightarrow> ret ()
     | Some q \<Rightarrow>
         bind (get_time_sec K) (\<lambda>now.
         bind (gets (\<lambda>s. isTimeout (tunable_idle_session_timeout (tun s)) now q (conns s))) (\<lambda>b.
         bind (lift b) (\<lambda>b.
         if b then seq (removeToNode K q) (expire_loop K) else ret ())))) s"

text \<open>The time to wait is computed as \<open>unsigned\<close> and stored into an \<open>int\<close>.\<close>

definition epoll_wait_timeout ::
  "kernel \<Rightarrow> int \<Rightarrow> nat \<Rightarrow> (int \<times> (bool \<times> bool \<times> bool \<times> epoll_data) list, server) prog" where
  "epoll_wait_timeout K epfd maxevents =
     bind (gets (\<lambda>s. pLRU (conns s))) (\<lambda>l.
     case l of
       None \<Rightarrow> Epoll_wait K epfd maxevents (- 1)
     | Some q \<Rightarrow>
         bind (gets (\<lambda>s. tunable_idle_session_timeout (tun s))) (\<lambda>idle.
         bind (get_time_sec K) (\<lambda>now.
         bind (get_node q) (\<lambda>n.
         let waitTime = sint (idle - word_of_int (sessTime now n)) in
         bind (Epoll_wait K epfd maxevents waitTime) (\<lambda>(num, events).
         if num < 0 then ret (num, events)
         else if 0 < num then ret (num, events)
         else seq (expire_loop K) (ret (0, [])))))))"

section \<open>Admission\<close>

definition TOOMANYCONNTOT :: int where "TOOMANYCONNTOT = -1"
definition TOOMANYCONNPERIP :: int where "TOOMANYCONNPERIP = -2"

definition isValid :: "kernel \<Rightarrow> nat \<Rightarrow> (int, server) prog" where
  "isValid K p =
     bind (get_sess p) (\<lambda>x.
     bind (gets tun) (\<lambda>t.
     if 0 < tunable_max_clients t \<and> tunable_max_clients t < num_clients x then
       seq (ftp_reply K p FTP_TOO_MANY_USERS ''There are too many users. Try later.'') (
       seq (closeSess K p) (ret TOOMANYCONNTOT))
     else if 0 < tunable_max_per_ip t \<and> tunable_max_per_ip t < num_this_ip x then
       seq (ftp_reply K p FTP_IP_LIMIT ''There are too many connections from your IP. Try later.'') (
       seq (closeSess K p) (ret TOOMANYCONNPERIP))
     else ret 0))"

definition on_cnts :: "(counters \<Rightarrow> ('a \<times> counters) res) \<Rightarrow> ('a, server) prog" where
  "on_cnts f = bind (gets cnts) (\<lambda>c. bind (lift (f c)) (\<lambda>(x, c).
     seq (modify (\<lambda>s. s\<lparr>cnts := c\<rparr>)) (ret x)))"

definition beginSession :: "kernel \<Rightarrow> nat \<Rightarrow> (unit, server) prog" where
  "beginSession K p = handleChild K p"

definition handleNewConn :: "kernel \<Rightarrow> int \<Rightarrow> u32 \<Rightarrow> (int, server) prog" where
  "handleNewConn K connfd ip =
     bind (new_sess init_session) (\<lambda>p.
     bind (gets (\<lambda>s. s_children (cnts s))) (\<lambda>n.
     seq (upd_sess p (\<lambda>x. x\<lparr>num_clients := n, ctrl_fd := connfd\<rparr>)) (
     bind (isValid K p) (\<lambda>rc.
     if rc < 0 then ret rc
     else
       seq (on_cnts (\<lambda>c. Inr ((), c\<lparr>s_children := s_children c + 1\<rparr>))) (
       bind (on_cnts (\<lambda>c. bnd (handle_ip_count (s_ip_count_hash c) (u32_bytes ip)) (\<lambda>(n, h).
         Inr (n, c\<lparr>s_ip_count_hash := h\<rparr>)))) (\<lambda>cnt.
       seq (upd_sess p (\<lambda>x. x\<lparr>num_this_ip := cnt\<rparr>)) (
       bind (getfd_t FDTYPECTRL connfd) (\<lambda>fdt.
       seq (set_info connfd \<lparr>fd_in = Some fdt, ed_sess = Some p\<rparr>) (
       bind (gets epollfd) (\<lambda>ep.
       seq (addFdData K ep connfd (nat connfd) False) (
       seq (beginSession K p) (
       seq (add_conn K p) (
       ret 0)))))))))))))"

section \<open>The loop of main\<close>

definition MAXEVENTNUM :: nat where "MAXEVENTNUM = 80"
definition STATUS_WRITE :: int where "STATUS_WRITE = 1"
definition STATUS_READ :: int where "STATUS_READ = 2"
definition STATUS_RM :: int where "STATUS_RM = 3"

partial_function (option) accept_loop :: "kernel \<Rightarrow> int \<Rightarrow> (unit, server) prog" where
  "accept_loop K listenfd s =
     bind (sys K (SysFd Accept listenfd)) (\<lambda>r.
     if rv r = - 1 then bind (gets errno) (\<lambda>e. if e = EAGAIN then ret () else stop (Exit 0))
     else seq (handleNewConn K (rv r) (num r)) (accept_loop K listenfd)) s"

definition handle_event ::
  "kernel \<Rightarrow> int \<Rightarrow> bool \<times> bool \<times> bool \<times> epoll_data \<Rightarrow> (unit, server) prog" where
  "handle_event K listenfd ev = (case ev of (epollin, epollout, epollhup, d) \<Rightarrow>
     bind (case d of
             Data_fd _ \<Rightarrow> stop OutOfBounds
           | Data_ptr i \<Rightarrow> bind (gets sessinfo) (\<lambda>a. lift (peek_at a i))) (\<lambda>pedat.
     bind (get_fdt (fd_in pedat)) (\<lambda>f.
     let sockfd = fd_fd f in
     bind (gets epollfd) (\<lambda>ep.
     if sockfd = listenfd then accept_loop K listenfd
     else if epollin then
       seq (refresh_conn K sockfd) (
       bind (processRead K pedat) (\<lambda>res.
       if res = STATUS_WRITE then modfd K ep sockfd True
       else if res = STATUS_RM then removefd K ep sockfd
       else ret ()))
     else if epollout then
       bind (processWrite K pedat) (\<lambda>res.
       if res = STATUS_READ then modfd K ep sockfd False
       else if res = STATUS_RM then removefd K ep sockfd
       else ret ())
     else if epollhup then
       bind (nonnull (ed_sess pedat)) (\<lambda>p. seq (closeSess K p) (ret ()))
     else ret ()))))"

fun handle_events ::
  "kernel \<Rightarrow> int \<Rightarrow> (bool \<times> bool \<times> bool \<times> epoll_data) list \<Rightarrow> (unit, server) prog" where
  "handle_events K listenfd [] = ret ()"
| "handle_events K listenfd (ev # rest) = seq (handle_event K listenfd ev) (handle_events K listenfd rest)"

definition main_iter :: "kernel \<Rightarrow> int \<Rightarrow> (unit, server) prog" where
  "main_iter K listenfd =
     bind (gets epollfd) (\<lambda>ep.
     bind (epoll_wait_timeout K ep MAXEVENTNUM) (\<lambda>(eventnum, events).
     handle_events K listenfd (take (nat eventnum) events)))"

text \<open>The part of \<open>main\<close> before the loop; \<open>conf\<close> is the contents of the configuration file. The
  handler of a signal is named.\<close>

definition SIGCHLD :: int where
  "SIGCHLD = 17"

definition main_init :: "kernel \<Rightarrow> string option \<Rightarrow> (int, server) prog" where
  "main_init K conf =
     bind (gets tun) (\<lambda>t.
     bind (lift (parseconf_load_file conf t)) (\<lambda>t.
     seq (modify (\<lambda>s. s\<lparr>tun := t\<rparr>)) (
     bind (call K SysGetuid) (\<lambda>uid.
     if uid \<noteq> 0 then stop (Exit 1)
     else
       bind (new_sess init_session) (\<lambda>p.
       seq (modify (\<lambda>s. s\<lparr>p_sess := Some p\<rparr>)) (
       seq (upd_sess p (\<lambda>x. x\<lparr>bw_upload_rate_max := tunable_upload_max_rate t,
         bw_download_rate_max := tunable_download_max_rate t\<rparr>)) (
       bind (lift (hash_alloc 256 hash_func)) (\<lambda>h1.
       bind (lift (hash_alloc 256 hash_func)) (\<lambda>h2.
       seq (modify (\<lambda>s. s\<lparr>cnts := (cnts s)\<lparr>s_ip_count_hash := h1, s_pid_ip_hash := h2\<rparr>\<rparr>)) (
       seq (call K (SysUnix ''signal'' [SIGCHLD] [''handle_sigchld''])) (
       bind (tcp_server K (tunable_listen_address t) (unat (tunable_listen_port t) mod 65536)) (\<lambda>listenfd.
       bind (Epoll_create K) (\<lambda>ep.
       seq (modify (\<lambda>s. s\<lparr>epollfd := ep\<rparr>)) (
       bind (getfd_t 0 listenfd) (\<lambda>fdt.
       seq (set_info listenfd \<lparr>fd_in = Some fdt, ed_sess = None\<rparr>) (
       seq (addFdData K ep listenfd (nat listenfd) False) (
       ret listenfd)))))))))))))))))"

text \<open>The server: the main thread goes round its loop once, or a waiting worker runs.\<close>

inductive server_step :: "kernel \<Rightarrow> int \<Rightarrow> server \<Rightarrow> server \<Rightarrow> bool" for K listenfd where
  main: "main_iter K listenfd s = Some (Go () s') \<Longrightarrow> server_step K listenfd s s'"
| worker: "threads s = ts @ t # us \<Longrightarrow> run_thread K t (s\<lparr>threads := ts @ us\<rparr>) = Some (Go () s') \<Longrightarrow>
    server_step K listenfd s s'"

inductive_cases server_stepE: "server_step K listenfd s s'"

text \<open>The states a server that was started with the configuration \<open>conf\<close> can get into.\<close>

inductive reachable :: "kernel \<Rightarrow> string option \<Rightarrow> int \<Rightarrow> server \<Rightarrow> bool" for K conf where
  started: "main_init K conf init_server = Some (Go listenfd s) \<Longrightarrow> reachable K conf listenfd s"
| stepped: "reachable K conf listenfd s \<Longrightarrow> server_step K listenfd s s' \<Longrightarrow> reachable K conf listenfd s'"

end
