(* ===== verification/Timeouts.thy ===== *)
theory Timeouts
  imports Frame EventLoop
begin

text \<open>
  How the tables of the server hang together (\<open>server_ok\<close>), and what a timeout does: in a server
  whose tables agree, the loop of \<open>epoll_wait_timeout\<close> ends, closes exactly the connections that
  have been idle for too long, and leaves tables that agree. A request that closes its own session
  leaves its node in the list, and the next timeout uses the session after it was freed.
\<close>

section \<open>Nodes off the list\<close>

lemma deref_node: "lru_rep c ps \<Longrightarrow> q \<in> set ps \<Longrightarrow> \<exists>n. lnodes c q = Some n"
  by (drule (1) lru_rep_payload) (auto simp: payload_def)

lemma free_off_list:
  assumes "lru_rep c ps" "q \<notin> set ps" "lnodes c q = Some n"
  shows "\<exists>c'. free_node q c = Inr c' \<and> lru_rep c' ps \<and> payload c' = (payload c)(q := None)
    \<and> map_fd_toNode c' = map_fd_toNode c \<and> lbrk c' = lbrk c"
proof -
  let ?c = "c\<lparr>lnodes := (lnodes c)(q := None)\<rparr>"
  have "lprev ?c p = lprev c p \<and> lnext ?c p = lnext c p" if "p \<in> set ps" for p
    using that assms(2) by (auto simp: lprev_def lnext_def)
  then have "lru_rep ?c ps"
    using assms(1) dseg_cong [of ps "lprev ?c" "lprev c" "lnext ?c" "lnext c"] by (simp add: lru_rep_def)
  moreover have "payload ?c = (payload c)(q := None)" by (auto simp: payload_def)
  ultimately show ?thesis using assms(3) by (auto simp: free_node_def)
qed

text \<open>The list without its last node and without the entry of the table for it.\<close>

lemma drop_last_node:
  assumes inv: "lru_inv c (ps @ [q])" and fd: "fd_ok fd"
    and tab: "\<And>i. i < MAX_SESSIONS \<Longrightarrow> map_fd_toNode c ! i = Some q \<Longrightarrow> i = nat fd"
  shows "\<exists>c1 c2 c3. set_map_fd fd None c = Inr c1 \<and> unlinkNode q c1 = Inr c2 \<and> free_node q c2 = Inr c3
    \<and> lru_inv c3 ps \<and> map_fd_toNode c3 = (map_fd_toNode c)[nat fd := None]
    \<and> (\<forall>r. r \<noteq> q \<longrightarrow> payload c3 r = payload c r) \<and> payload c3 q = None"
proof -
  let ?c1 = "c\<lparr>map_fd_toNode := (map_fd_toNode c)[nat fd := None]\<rparr>"
  have len: "length (map_fd_toNode c) = MAX_SESSIONS" and rep: "lru_rep c (ps @ [q])"
    and rc: "by_recency (node_time c) (ps @ [q])" using inv by (simp_all add: lru_inv_def)
  have q: "q \<notin> set ps" using lru_rep_distinct [OF rep] by simp
  have c1: "set_map_fd fd None c = Inr ?c1" using fd len by (simp add: set_map_fd_def fd_ok_def)
  obtain c2 where c2: "unlinkNode q ?c1 = Inr c2" "lru_rep c2 ps" "payload c2 = payload c"
      "map_fd_toNode c2 = map_fd_toNode ?c1" "lbrk c2 = lbrk c"
    using lru_unlink [of ?c1 "ps @ [q]" q] rep q by (auto simp: remove1_append)
  obtain n where "lnodes c2 q = Some n"
    using lru_rep_payload [OF rep, of q] fun_cong [OF c2(3), of q] by (auto simp: payload_def)
  from free_off_list [OF c2(2) q this] obtain c3 where c3: "free_node q c2 = Inr c3" "lru_rep c3 ps"
    "payload c3 = (payload c2)(q := None)" "map_fd_toNode c3 = map_fd_toNode c2" "lbrk c3 = lbrk c2" by blast
  have t: "node_time c3 r = node_time c r" if "r \<in> set ps" for r
    using that q by (auto simp: node_time_def c3(3) c2(3))
  have "by_recency (node_time c3) ps"
    using rc t by (auto simp: by_recency_def sorted_wrt_append intro: sorted_wrt_mono_rel [rotated])
  moreover have "r \<in> set ps" if "Some r \<in> set (map_fd_toNode c3)" for r
  proof -
    from that obtain i where i: "i < MAX_SESSIONS" "(map_fd_toNode c)[nat fd := None] ! i = Some r"
      by (auto simp: c3(4) c2(4) in_set_conv_nth len)
    then have "map_fd_toNode c ! i = Some r" "i \<noteq> nat fd" using len fd by (auto simp: nth_list_update fd_ok_def split: if_splits)
    moreover from this i(1) len have "Some r \<in> set (map_fd_toNode c)" by (metis nth_mem)
    ultimately show ?thesis using inv tab i(1) by (auto simp: lru_inv_def)
  qed
  moreover have "r < lbrk c3" if "payload c3 r \<noteq> None" for r
    using that inv c3(3,5) c2(3,5) by (auto simp: lru_inv_def split: if_splits)
  ultimately have "lru_inv c3 ps" using c3 c2(4) len by (simp add: lru_inv_def)
  then show ?thesis using c1 c2 c3 by auto
qed

section \<open>Tables that agree\<close>

text \<open>
  A node of the list belongs to a live session; its descriptor leads back to the node, and
  through \<open>sessinfo\<close> to the session and to a record of the descriptor.
\<close>

definition node_ok :: "server \<Rightarrow> nat \<Rightarrow> nat \<Rightarrow> session \<Rightarrow> bool" where
  "node_ok s q p x \<longleftrightarrow> map_option fst (payload (conns s) q) = Some p \<and> sessions s p = Some x
     \<and> fd_ok (ctrl_fd x)
     \<and> (\<forall>i < MAX_SESSIONS. map_fd_toNode (conns s) ! i = Some q \<longleftrightarrow> i = nat (ctrl_fd x))
     \<and> (\<exists>f. sessinfo s ! nat (ctrl_fd x) = \<lparr>fd_in = Some f, ed_sess = Some p\<rparr>
          \<and> fdts s f = Some \<lparr>fd_type = FDTYPECTRL, fd_fd = ctrl_fd x\<rparr>)"

definition server_ok :: "server \<Rightarrow> nat list \<Rightarrow> bool" where
  "server_ok s ps \<longleftrightarrow> lru_inv (conns s) ps \<and> length (sessinfo s) = MAX_SESSIONS
     \<and> (\<forall>q \<in> set ps. \<exists>p x. node_ok s q p x)
     \<and> (\<forall>p. sessions s p \<noteq> None \<longrightarrow> p < sess_brk s) \<and> (\<forall>f. fdts s f \<noteq> None \<longrightarrow> f < fdt_brk s)"

text \<open>The session of a node.\<close>

definition sess_of :: "server \<Rightarrow> nat \<Rightarrow> nat" where
  "sess_of s q = (case payload (conns s) q of Some (p, t) \<Rightarrow> p | None \<Rightarrow> 0)"

lemma node_ok_sess: "node_ok s q p x \<Longrightarrow> sess_of s q = p"
  by (auto simp: node_ok_def sess_of_def)

text \<open>Different nodes have different sessions, on different descriptors.\<close>

lemma node_ok_apart:
  assumes "node_ok s q p x" "node_ok s r p' x'" "q \<noteq> r"
  shows "ctrl_fd x \<noteq> ctrl_fd x'" "nat (ctrl_fd x) \<noteq> nat (ctrl_fd x')" "p \<noteq> p'"
    "fd_in (sessinfo s ! nat (ctrl_fd x)) \<noteq> fd_in (sessinfo s ! nat (ctrl_fd x'))"
proof -
  have m: "map_fd_toNode (conns s) ! nat (ctrl_fd x) = Some q" "map_fd_toNode (conns s) ! nat (ctrl_fd x') = Some r"
    and f: "fd_ok (ctrl_fd x)" "fd_ok (ctrl_fd x')"
    using assms(1,2) by (auto simp: node_ok_def fd_ok_def)
  from m assms(3) show n: "nat (ctrl_fd x) \<noteq> nat (ctrl_fd x')" by auto
  then show c: "ctrl_fd x \<noteq> ctrl_fd x'" by auto
  with assms(1,2) show "p \<noteq> p'" "fd_in (sessinfo s ! nat (ctrl_fd x)) \<noteq> fd_in (sessinfo s ! nat (ctrl_fd x'))"
    by (auto simp: node_ok_def)
qed

lemma wp_on_conns [simp]:
  "wp (on_conns f) Q s = (case f (conns s) of Inl e \<Rightarrow> False | Inr c \<Rightarrow> Q () (s\<lparr>conns := c\<rparr>))"
  by (simp add: on_conns_def split: sum.splits)

lemma wp_get_node [simp]:
  "wp (get_node q) Q s = (case lnodes (conns s) q of None \<Rightarrow> False | Some n \<Rightarrow> Q n s)"
  by (simp add: get_node_def deref_def split: option.splits)

lemma without_threads [simp]: "threads (without p fd s) = threads s"
  by (simp add: without_def)

lemma without_conns [simp]: "(without p fd s)\<lparr>conns := c\<rparr> = without p fd (s\<lparr>conns := c\<rparr>)"
  by (simp add: without_def split: option.split)

lemma in_table_conns [simp]: "in_table fd (s\<lparr>conns := c\<rparr>) = in_table fd s"
  by (simp add: in_table_def)

text \<open>The state after the node \<open>q\<close> at the end of the list is gone with its session.\<close>

lemma server_ok_without:
  assumes ok: "server_ok s (ps @ [q])" "node_ok s q p x"
    and c: "lru_inv c ps" "map_fd_toNode c = (map_fd_toNode (conns s))[nat (ctrl_fd x) := None]"
      "\<And>r. r \<noteq> q \<Longrightarrow> payload c r = payload (conns s) r"
  shows "server_ok (grow h e (without p (ctrl_fd x) (s\<lparr>conns := c\<rparr>))) ps"
    and "node_ok s r p' x' \<Longrightarrow> r \<in> set ps \<Longrightarrow> node_ok (grow h e (without p (ctrl_fd x) (s\<lparr>conns := c\<rparr>))) r p' x'"
proof -
  let ?s = "grow h e (without p (ctrl_fd x) (s\<lparr>conns := c\<rparr>))"
  have q: "q \<notin> set ps" using ok(1) by (auto simp: server_ok_def lru_inv_def dest: lru_rep_distinct)
  have len: "length (sessinfo s) = MAX_SESSIONS" "length (map_fd_toNode (conns s)) = MAX_SESSIONS"
    using ok(1) by (auto simp: server_ok_def lru_inv_def)
  show n: "node_ok ?s r p' x'" if r: "node_ok s r p' x'" "r \<in> set ps" for r p' x'
  proof -
    from r(2) q have "q \<noteq> r" by auto
    from node_ok_apart [OF ok(2) r(1) this] ok(2) r(1) \<open>q \<noteq> r\<close> show ?thesis
      using len c(3) by (auto simp: node_ok_def c(2) nth_list_update fd_ok_def)
  qed
  from ok(1) n c(1) len show "server_ok ?s ps"
    by (fastforce simp: server_ok_def without_def split: option.splits if_splits)
qed

text \<open>One connection is closed.\<close>

lemma wp_removeToNode:
  assumes ok: "server_ok s (ps @ [q])" "node_ok s q p x"
    and Q: "\<And>h e c. map fst h = map (SysFd Close) (open_fds x) \<Longrightarrow>
      server_ok (grow h e (without p (ctrl_fd x) (s\<lparr>conns := c\<rparr>))) ps \<Longrightarrow>
      (\<And>r p' x'. node_ok s r p' x' \<Longrightarrow> r \<in> set ps \<Longrightarrow>
        node_ok (grow h e (without p (ctrl_fd x) (s\<lparr>conns := c\<rparr>))) r p' x') \<Longrightarrow>
      (\<And>r. r \<noteq> q \<Longrightarrow> payload c r = payload (conns s) r) \<Longrightarrow>
      Q () (grow h e (without p (ctrl_fd x) (s\<lparr>conns := c\<rparr>)))"
  shows "wp (removeToNode K q) Q s"
proof -
  have inv: "lru_inv (conns s) (ps @ [q])" and len: "length (sessinfo s) = MAX_SESSIONS"
    using ok(1) by (simp_all add: server_ok_def)
  obtain n where n: "lnodes (conns s) q = Some n" "nd_sess n = p"
    using ok(2) by (auto simp: node_ok_def payload_def)
  have x: "sessions s p = Some x" "fd_ok (ctrl_fd x)"
    and tab: "\<And>i. i < MAX_SESSIONS \<Longrightarrow> map_fd_toNode (conns s) ! i = Some q \<Longrightarrow> i = nat (ctrl_fd x)"
    using ok(2) by (auto simp: node_ok_def)
  obtain f where f: "sessinfo s ! nat (ctrl_fd x) = \<lparr>fd_in = Some f, ed_sess = Some p\<rparr>" "fdts s f \<noteq> None"
    using ok(2) by (auto simp: node_ok_def)
  obtain c1 c2 c3 where c: "set_map_fd (ctrl_fd x) None (conns s) = Inr c1" "unlinkNode q c1 = Inr c2"
    "free_node q c2 = Inr c3" "lru_inv c3 ps"
    "map_fd_toNode c3 = (map_fd_toNode (conns s))[nat (ctrl_fd x) := None]"
    "\<And>r. r \<noteq> q \<Longrightarrow> payload c3 r = payload (conns s) r"
    using drop_last_node [OF inv x(2) tab] by blast
  have "wp (closeSess K p) (\<lambda>_ s'. wp (seq (on_conns (unlinkNode q)) (on_conns (free_node q))) Q s') (s\<lparr>conns := c1\<rparr>)"
    using x f(1) len
    by (intro wp_closeSess [where x = x])
      (simp_all add: in_table_def fd_ok_def f(2) c(2,3) Q server_ok_without [OF ok c(4-6)] c(6))
  then have "wp (closeSess K p) (\<lambda>_. wp (seq (on_conns (unlinkNode q)) (on_conns (free_node q))) Q)
      (s\<lparr>conns := c1\<rparr>)" by (rule wp_mono)
  with n x(1) c(1) show ?thesis unfolding removeToNode_def wp_bind wp_get_node by simp
qed

section \<open>The loop\<close>

lemma server_ok_kernel [simp]:
  "server_ok (s\<lparr>curr_time := v\<rparr>) ps = server_ok s ps" "server_ok (after K c s) ps = server_ok s ps"
  "node_ok (s\<lparr>curr_time := v\<rparr>) q p x = node_ok s q p x" "node_ok (after K c s) q p x = node_ok s q p x"
  "sess_of (s\<lparr>curr_time := v\<rparr>) q = sess_of s q" "sess_of (after K c s) q = sess_of s q"
  by (simp_all add: server_ok_def node_ok_def sess_of_def after_def Let_def)

text \<open>A clock that does not go back, in the range of \<open>int\<close>.\<close>

definition clock_runs :: "kernel \<Rightarrow> bool" where
  "clock_runs K \<longleftrightarrow> (\<forall>h h'. 0 \<le> tv_sec (K h SysGettimeofday) \<and> tv_sec (K h SysGettimeofday) < 2 ^ 31
     \<and> tv_sec (K h SysGettimeofday) \<le> tv_sec (K (h @ h') SysGettimeofday))"

text \<open>Such a clock that answers every call, two seconds before the end of its range at the latest.\<close>

definition clock_answers :: "kernel \<Rightarrow> bool" where
  "clock_answers K \<longleftrightarrow> clock_runs K
     \<and> (\<forall>h. 0 \<le> rv (K h SysGettimeofday) \<and> tv_sec (K h SysGettimeofday) < 2 ^ 31 - 2)"

text \<open>The seconds that the clock would give now, and those it gave during a history.\<close>

definition time_now :: "kernel \<Rightarrow> server \<Rightarrow> int" where
  "time_now K s = tv_sec (K (trace s) SysGettimeofday)"

definition readings :: "history \<Rightarrow> int list" where
  "readings h = map (\<lambda>e. tv_sec (snd e)) (filter (\<lambda>e. fst e = SysGettimeofday) h)"

lemma readings_simps [simp]:
  "readings [] = []" "readings (h @ h') = readings h @ readings h'"
  "readings (e # h) = (if fst e = SysGettimeofday then tv_sec (snd e) # readings h else readings h)"
  by (simp_all add: readings_def)

lemma readings_closes: "map fst h = map (SysFd Close) l \<Longrightarrow> readings h = []"
  by (induction l arbitrary: h) (auto simp: Cons_eq_map_conv)

lemma time_later: "clock_runs K \<Longrightarrow> trace s' = trace s @ h \<Longrightarrow> time_now K s \<le> time_now K s'"
  by (simp add: clock_runs_def time_now_def)

text \<open>A clock that answers, and stands still: for theorems about a stretch of code that waits for
  nothing, at most one iteration of the loop after its wait.\<close>

definition clock :: "kernel \<Rightarrow> int \<Rightarrow> bool" where
  "clock K now \<longleftrightarrow> (\<forall>h. 0 \<le> rv (K h SysGettimeofday) \<and> tv_sec (K h SysGettimeofday) = now)"

text \<open>The state after the clock has been read.\<close>

definition ticked :: "kernel \<Rightarrow> server \<Rightarrow> server" where
  "ticked K s = (let r = K (trace s) SysGettimeofday in
     after K SysGettimeofday s\<lparr>curr_time := (tv_sec r, tv_usec r)\<rparr>)"

lemma ticked_simps [simp]:
  "server_ok (ticked K s) ps = server_ok s ps" "node_ok (ticked K s) q p x = node_ok s q p x"
  "sess_of (ticked K s) q = sess_of s q" "conns (ticked K s) = conns s" "tun (ticked K s) = tun s"
  "sessions (ticked K s) = sessions s" "threads (ticked K s) = threads s"
  "trace (ticked K s) = trace s @ [(SysGettimeofday, K (trace s) SysGettimeofday)]"
  by (simp_all add: ticked_def Let_def after_upd)

lemma tick_now: "clock_answers K \<Longrightarrow> get_time_sec K s = Some (Go (time_now K s) (ticked K s))"
  by (simp add: clock_answers_def time_now_def ticked_def Let_def get_time_sec_def bind_def sys_run seq_def
      modify_def ret_def not_less [symmetric])

lemma tick_run: "clock K now \<Longrightarrow> get_time_sec K s = Some (Go now (ticked K s))"
  by (simp add: clock_def ticked_def Let_def get_time_sec_def bind_def sys_run seq_def modify_def ret_def
      not_less [symmetric])

lemma wp_tick_now: "clock_answers K \<Longrightarrow> wp (get_time_sec K) Q s = Q (time_now K s) (ticked K s)"
  by (simp add: wp_def tick_now)

lemma wp_tick: "clock K now \<Longrightarrow> wp (get_time_sec K) Q s = Q now (ticked K s)"
  by (simp add: wp_def tick_run)

definition overdue :: "u32 \<Rightarrow> int \<Rightarrow> server \<Rightarrow> nat \<Rightarrow> bool" where
  "overdue idle now s q \<longleftrightarrow> uint idle < now - node_time (conns s) q + TIMEOUTSEG"

text \<open>One round of the loop.\<close>

lemma expire_round:
  assumes K: "get_time_sec K s = Some (Go now (ticked K s))" and rep: "lru_inv (conns s) (ps @ [q])"
    and t: "0 \<le> node_time (conns s) q" "node_time (conns s) q \<le> now" "now < 2 ^ 31 - 2"
  shows "expire_loop K s =
    (if overdue (tunable_idle_session_timeout (tun s)) now s q
     then seq (removeToNode K q) (expire_loop K) (ticked K s) else Some (Go () (ticked K s)))"
proof -
  have rep': "lru_rep (conns s) (ps @ [q])" using rep by (simp add: lru_inv_def)
  obtain a b where ab: "payload (conns s) q = Some (a, b)" using lru_rep_payload [OF rep', of q] by auto
  then have b: "node_time (conns s) q = b" by (simp add: node_time_def)
  obtain n where n: "lnodes (conns s) q = Some n" "nd_lastTime n = b" using payload_node [OF ab] by blast
  have l: "pLRU (conns s) = Some q" using lru_rep_ends(2) [OF rep'] by simp
  have "sessTime now n = now - b" using t b n by (simp add: sessTime_def to_int32_id)
  note test = isTimeout_eq [OF rep' this n(1)]
  have i: "isTimeout (tunable_idle_session_timeout (tun s)) now q (conns s)
      = Inr (overdue (tunable_idle_session_timeout (tun s)) now s q)"
    unfolding test overdue_def b
    using t b unsigned_compare [of "now - b + TIMEOUTSEG"] by (simp add: TIMEOUTSEG_def)
  show ?thesis
    by (subst expire_loop.simps)
      (simp add: l bind_def [of "gets _"] gets_def bind_Go [of "get_time_sec K", OF K] i ret_def)
qed

lemma wp_expire_loop:
  assumes "clock_answers K" "lru_inv (conns s) (ps @ [q])" "0 \<le> node_time (conns s) q"
    "node_time (conns s) q \<le> time_now K s"
  shows "wp (expire_loop K) Q s =
    (if overdue (tunable_idle_session_timeout (tun s)) (time_now K s) s q
     then wp (removeToNode K q) (\<lambda>_. wp (expire_loop K) Q) (ticked K s) else Q () (ticked K s))"
proof -
  have "time_now K s < 2 ^ 31 - 2" using assms(1) by (simp add: clock_answers_def time_now_def)
  note r = expire_round [OF tick_now [OF assms(1)] assms(2-4) this]
  show ?thesis unfolding wp_seq [symmetric] unfolding wp_def r by simp
qed

lemma wp_expire_loop_empty: "lru_inv (conns s) [] \<Longrightarrow> Q () s \<Longrightarrow> wp (expire_loop K) Q s"
  using lru_rep_ends(2) [of "conns s" "[]"]
  unfolding wp_def by (subst expire_loop.simps) (simp add: lru_inv_def bind_def gets_def ret_def)

text \<open>The connections of the list \<open>ps\<close> that are overdue, and the descriptors a history closes.\<close>

definition late :: "int \<Rightarrow> server \<Rightarrow> nat list \<Rightarrow> nat set" where
  "late now s ps = {q \<in> set ps. overdue (tunable_idle_session_timeout (tun s)) now s q}"

definition closed :: "history \<Rightarrow> int set" where
  "closed h = {fd. SysFd Close fd \<in> fst ` set h}"

lemma closed_simps [simp]:
  "closed [] = {}" "closed (h @ h') = closed h \<union> closed h'"
  "closed (e # h) = {fd. fst e = SysFd Close fd} \<union> closed h"
  by (auto simp: closed_def)

lemma closed_closes: "map fst h = map (SysFd Close) l \<Longrightarrow> closed h = set l"
proof -
  assume "map fst h = map (SysFd Close) l"
  then have "fst ` set h = SysFd Close ` set l" by (metis list.set_map)
  then show ?thesis by (auto simp: closed_def)
qed

text \<open>The sockets of the session of a node; the descriptor of its directory is not one of them.\<close>

definition fds_of :: "server \<Rightarrow> nat \<Rightarrow> int set" where
  "fds_of s q = (case sessions s (sess_of s q) of Some x \<Rightarrow> set (open_fds x) | None \<Rightarrow> {})"

definition timed_out :: "int \<Rightarrow> server \<Rightarrow> nat list \<Rightarrow> server \<Rightarrow> bool" where
  "timed_out now s ps s' \<longleftrightarrow>
     server_ok s' (filter (\<lambda>q. q \<notin> late now s ps) ps)
     \<and> (\<forall>p. sessions s' p = (if p \<in> sess_of s ` late now s ps then None else sessions s p))
     \<and> threads s' = threads s
     \<and> (\<exists>h. trace s' = trace s @ h \<and> closed h = (\<Union>q \<in> late now s ps. fds_of s q))"

lemma timed_out_none:
  assumes "server_ok s ps" "late now s ps = {}" "trace s' = trace s @ h" "closed h = {}"
    and "server_ok s' ps" "sessions s' = sessions s" "threads s' = threads s"
  shows "timed_out now s ps s'"
  using assms by (auto simp: timed_out_def filter_id_conv)

lemma timed_out_last:
  assumes q: "server_ok s (ps @ [q])" "node_ok s q p x" "q \<in> late now s (ps @ [q])"
    and t: "timed_out now s1 ps s'"
    and s1: "trace s1 = trace s @ h" "closed h = set (open_fds x)" "sessions s1 = (sessions s)(p := None)"
      "tun s1 = tun s" "\<And>r. r \<noteq> q \<Longrightarrow> payload (conns s1) r = payload (conns s) r" "threads s1 = threads s"
  shows "timed_out now s (ps @ [q]) s'"
proof -
  have qn: "q \<notin> set ps" using q(1) by (auto simp: server_ok_def lru_inv_def dest: lru_rep_distinct)
  have same: "sess_of s1 r = sess_of s r" "node_time (conns s1) r = node_time (conns s) r" if "r \<in> set ps" for r
    using s1(5) [of r] that qn by (cases "r = q"; auto simp: sess_of_def node_time_def)+
  have l: "late now s1 ps = late now s ps" and l2: "late now s (ps @ [q]) = insert q (late now s ps)"
    using same q(3) qn by (auto simp: late_def overdue_def s1(4))
  have sub: "late now s ps \<subseteq> set ps" by (auto simp: late_def)
  have im: "sess_of s1 ` late now s ps = sess_of s ` late now s ps"
    using same sub by (intro image_cong) auto
  have p: "sess_of s q = p" "sessions s p = Some x" using node_ok_sess [OF q(2)] q(2) by (simp_all add: node_ok_def)
  have fd: "fds_of s1 r = fds_of s r" if r: "r \<in> set ps" for r
  proof -
    from q(1) r obtain p' x' where n: "node_ok s r p' x'" by (auto simp: server_ok_def)
    from r qn have "q \<noteq> r" by auto
    with node_ok_apart(3) [OF q(2) n] node_ok_sess [OF n] same(1) [OF r] show ?thesis
      by (simp add: fds_of_def s1(3))
  qed
  have "filter (\<lambda>r. r \<notin> late now s (ps @ [q])) (ps @ [q]) = filter (\<lambda>r. r \<notin> late now s1 ps) ps"
    unfolding l l2 using qn by (auto intro!: filter_cong)
  moreover have "(\<Union>r \<in> late now s (ps @ [q]). fds_of s r) = set (open_fds x) \<union> (\<Union>r \<in> late now s1 ps. fds_of s1 r)"
    unfolding l l2 using fd sub p by (auto simp: fds_of_def)
  ultimately show ?thesis
    using t s1(1-3,6) p unfolding timed_out_def l l2 im by auto
qed

text \<open>A node that is overdue is so later; a node that was used later is not overdue before.\<close>

lemma overdue_mono: "overdue idle now s q \<Longrightarrow> now \<le> now' \<Longrightarrow> overdue idle now' s q"
  by (simp add: overdue_def)

text \<open>The last time that was read since a state, and that the clock gave it.\<close>

definition last_read :: "kernel \<Rightarrow> server \<Rightarrow> server \<Rightarrow> int \<Rightarrow> bool" where
  "last_read K s s' now \<longleftrightarrow> (\<exists>h h'. trace s' = trace s @ h @ (SysGettimeofday, K (trace s @ h) SysGettimeofday) # h'
     \<and> readings h' = [] \<and> now = tv_sec (K (trace s @ h) SysGettimeofday))"

lemma last_read_now:
  "trace s' = trace s @ (SysGettimeofday, K (trace s) SysGettimeofday) # h \<Longrightarrow> readings h = [] \<Longrightarrow>
    last_read K s s' (time_now K s)"
  unfolding last_read_def by (intro exI [of _ "[]"] exI [of _ h]) (simp add: time_now_def)

lemma last_read_later: "trace t = trace s @ g \<Longrightarrow> last_read K t s' now \<Longrightarrow> last_read K s s' now"
  unfolding last_read_def by (metis append_assoc)

text \<open>That time decides.\<close>

definition expired :: "kernel \<Rightarrow> server \<Rightarrow> nat list \<Rightarrow> server \<Rightarrow> bool" where
  "expired K s ps s' \<longleftrightarrow> (\<exists>now. last_read K s s' now \<and> time_now K s \<le> now \<and> timed_out now s ps s')"

lemma expired_last:
  assumes q: "server_ok s (ps @ [q])" "node_ok s q p x" "overdue (tunable_idle_session_timeout (tun s)) (time_now K s) s q"
    and s1: "trace s1 = trace s @ (SysGettimeofday, K (trace s) SysGettimeofday) # h" "map fst h = map (SysFd Close) (open_fds x)"
      "sessions s1 = (sessions s)(p := None)" "tun s1 = tun s" "threads s1 = threads s"
      "\<And>r. r \<noteq> q \<Longrightarrow> payload (conns s1) r = payload (conns s) r"
    and later: "time_now K s \<le> time_now K s1"
    and s': "server_ok s1 ps" "if ps = [] then s' = s1 else expired K s1 ps s'"
  shows "expired K s (ps @ [q]) s'"
proof -
  let ?g = "(SysGettimeofday, K (trace s) SysGettimeofday) # h"
  have out: "timed_out now s (ps @ [q]) s'" if "time_now K s \<le> now" "timed_out now s1 ps s'" for now
    using overdue_mono [OF q(3) that(1)] s1 closed_closes [OF s1(2)]
    by (intro timed_out_last [OF q(1,2) _ that(2), of ?g]) (auto simp: late_def)
  show ?thesis
  proof (cases "ps = []")
    case True
    then have "timed_out (time_now K s) s1 [] s1" using s'
      by (intro timed_out_none [where h = "[]"]) (auto simp: late_def)
    with out True s' last_read_now [of s1 s K h, OF s1(1) readings_closes [OF s1(2)]] show ?thesis by (auto simp: expired_def)
  next
    case False
    with s'(2) obtain now where "last_read K s1 s' now" "time_now K s1 \<le> now" "timed_out now s1 ps s'"
      by (auto simp: expired_def)
    with out later last_read_later [OF s1(1)] show ?thesis unfolding expired_def by (meson order_trans)
  qed
qed

lemma expire_loop_spec:
  assumes K: "clock_answers K"
  shows "server_ok s ps \<Longrightarrow> \<forall>q \<in> set ps. 0 \<le> node_time (conns s) q \<and> node_time (conns s) q \<le> time_now K s \<Longrightarrow>
    wp (expire_loop K) (\<lambda>_ s'. if ps = [] then s' = s else expired K s ps s') s"
proof (induction ps arbitrary: s rule: rev_induct)
  case Nil
  then show ?case by (intro wp_expire_loop_empty) (auto simp: server_ok_def)
next
  case (snoc q ps)
  let ?now = "time_now K s"
  have run: "clock_runs K" using K by (simp add: clock_answers_def)
  from snoc.prems have inv: "lru_inv (conns s) (ps @ [q])" by (simp add: server_ok_def)
  from snoc.prems(1) obtain p x where n: "node_ok s q p x" by (auto simp: server_ok_def)
  have e: "trace (ticked K s) = trace s @ [(SysGettimeofday, K (trace s) SysGettimeofday)]" by simp
  show ?case
  proof (cases "overdue (tunable_idle_session_timeout (tun s)) ?now s q")
    case False
    have "node_time (conns s) q \<le> node_time (conns s) r" if "r \<in> set ps" for r
      using that inv by (auto simp: lru_inv_def by_recency_def sorted_wrt_append)
    with False have "late ?now s (ps @ [q]) = {}" by (fastforce simp: late_def overdue_def)
    then have "timed_out ?now s (ps @ [q]) (ticked K s)"
      using snoc.prems(1) by (intro timed_out_none [OF _ _ e]) auto
    with last_read_now [of "ticked K s" s K "[]", OF e] have "expired K s (ps @ [q]) (ticked K s)" by (auto simp: expired_def)
    then show ?thesis using snoc.prems False by (subst wp_expire_loop [OF K inv]) auto
  next
    case True
    have "wp (removeToNode K q) (\<lambda>_. wp (expire_loop K) (\<lambda>_. expired K s (ps @ [q]))) (ticked K s)"
    proof (rule wp_removeToNode)
      fix h e c
      let ?s = "grow h e (without p (ctrl_fd x) (ticked K s\<lparr>conns := c\<rparr>))"
      assume h: "map fst h = map (SysFd Close) (open_fds x)" and ok: "server_ok ?s ps"
        and pay: "\<And>r. r \<noteq> q \<Longrightarrow> payload c r = payload (conns (ticked K s)) r"
      have qn: "q \<notin> set ps" using inv by (auto simp: lru_inv_def dest: lru_rep_distinct)
      have later: "?now \<le> time_now K ?s" by (rule time_later [OF run]) simp
      have "node_time c r = node_time (conns s) r" if "r \<in> set ps" for r
        using pay [of r] that qn by (cases "r = q") (auto simp: node_time_def)
      with snoc.prems(2) later
      have "\<forall>r \<in> set ps. 0 \<le> node_time (conns ?s) r \<and> node_time (conns ?s) r \<le> time_now K ?s"
        by (auto intro: order_trans)
      from snoc.IH [OF ok this] show "wp (expire_loop K) (\<lambda>_. expired K s (ps @ [q])) ?s"
        by (rule wp_mono, intro expired_last [OF snoc.prems(1) n True _ h _ _ _ _ later ok]) (simp_all add: pay)
    qed (use snoc.prems(1) n in auto)
    with True snoc.prems show ?thesis by (subst wp_expire_loop [OF K inv]) auto
  qed
qed

section \<open>Properties\<close>

text \<open>What is assumed of a wait that ran out: \<open>epoll_wait\<close> succeeds without an event.\<close>

definition nothing_happens :: "kernel \<Rightarrow> bool" where
  "nothing_happens K \<longleftrightarrow> (\<forall>h ep n t. 0 \<le> rv (K h (SysEpollWait ep n t)) \<and> evs (K h (SysEpollWait ep n t)) = [])"

definition past :: "int \<Rightarrow> server \<Rightarrow> nat list \<Rightarrow> bool" where
  "past now s ps \<longleftrightarrow> 0 \<le> now \<and> now < 2 ^ 31 - 2
     \<and> (\<forall>q \<in> set ps. 0 \<le> node_time (conns s) q \<and> node_time (conns s) q \<le> now)"

lemma wait_ran_out:
  assumes "clock_answers K" "nothing_happens K" "server_ok s ps" "ps \<noteq> []" "past (time_now K s) s ps"
  shows "wp (epoll_wait_timeout K ep n) (\<lambda>(num, events) s'. num = 0 \<and> events = []
     \<and> (\<exists>t h r r'. trace t = trace s @ [(SysGettimeofday, r), (SysEpollWait ep n h, r')]
       \<and> (\<exists>now. last_read K t s' now \<and> time_now K s \<le> now \<and> timed_out now s ps s'))) s"
proof -
  have run: "clock_runs K" using assms(1) by (simp add: clock_answers_def)
  have rep: "lru_rep (conns s) ps" using assms(3) by (simp add: server_ok_def lru_inv_def)
  then have l: "pLRU (conns s) = Some (last ps)" using assms(4) by (simp add: lru_rep_ends(2))
  obtain m where m: "lnodes (conns s) (last ps) = Some m" using deref_node [OF rep] assms(4) by fastforce
  let ?t = "ticked K s" and ?now = "time_now K s"
  define t where "t = sint (tunable_idle_session_timeout (tun s) - word_of_int (sessTime ?now m))"
  let ?s = "after K (SysEpollWait ep n t) ?t"
  let ?g = "[(SysGettimeofday, K (trace s) SysGettimeofday), (SysEpollWait ep n t, K (trace ?t) (SysEpollWait ep n t))]"
  have "0 \<le> rv (K h (SysEpollWait ep n t))" and e2: "evs (K h (SysEpollWait ep n t)) = []" for h t
    using assms(2) by (auto simp: nothing_happens_def)
  then have e: "rv (K h (SysEpollWait ep n t)) \<noteq> - 1" for h t by (metis neg_0_le_iff_le not_one_le_zero)
  have lt: "late now ?s ps = late now s ps" "sess_of ?s = sess_of s" "fds_of ?s = fds_of s" for now
    by (auto simp: late_def overdue_def fds_of_def fun_eq_iff)
  have g: "trace ?s = trace s @ ?g" by simp
  have later: "?now \<le> time_now K ?s" by (rule time_later [OF run g])
  have out: "timed_out now s ps s'" if "timed_out now ?s ps s'" for now s'
  proof -
    from that obtain h where "trace s' = trace ?s @ h" "closed h = (\<Union>q \<in> late now s ps. fds_of s q)"
      by (auto simp: timed_out_def lt)
    then have "\<exists>h. trace s' = trace s @ h \<and> closed h = (\<Union>q \<in> late now s ps. fds_of s q)"
      using g by (intro exI [of _ "?g @ h"]) simp
    then show ?thesis using that by (simp add: timed_out_def lt)
  qed
  let ?Q = "\<lambda>s'. \<exists>t h r r'. trace t = trace s @ [(SysGettimeofday, r), (SysEpollWait ep n h, r')]
       \<and> (\<exists>now. last_read K t s' now \<and> ?now \<le> now \<and> timed_out now s ps s')"
  from expire_loop_spec [OF assms(1), of ?s ps] assms(3-5) later
  have "wp (expire_loop K) (\<lambda>_ s'. expired K ?s ps s') ?s" by (force simp: past_def)
  then have "wp (expire_loop K) (\<lambda>_ s'. ?Q s') ?s"
  proof (rule wp_mono)
    fix s' assume "expired K ?s ps s'"
    then obtain now where "last_read K ?s s' now" "time_now K ?s \<le> now" "timed_out now ?s ps s'"
      by (auto simp: expired_def)
    with later out g show "?Q s'" by (meson order_trans)
  qed
  then show ?thesis
    by (simp add: epoll_wait_timeout_def l m wp_tick_now [OF assms(1)] Epoll_wait_def e e2 Let_def t_def del: wp_get_time_sec) (erule wp_mono, simp)
qed

text \<open>C4: the wait for events runs out, under a clock that goes on meanwhile. Let \<open>now\<close> be the last time
  that was read, which is after the wait. Then exactly the connections that have been idle at \<open>now\<close> for more
  than the configured time less two seconds are closed: their control, data and passive sockets, and nothing
  else, are closed (the directory that a session opened stays open), and their sessions are freed; the loop
  ends, every other session is as before, and the tables of the server agree again.\<close>

theorem timeout_closes_idle:
  assumes "clock_answers K" "nothing_happens K" "server_ok s ps" "ps \<noteq> []" "past (time_now K s) s ps"
  shows "wp (epoll_wait_timeout K ep n) (\<lambda>(num, events) s'. num = 0 \<and> events = []
     \<and> (\<exists>t h r r' now. trace t = trace s @ [(SysGettimeofday, r), (SysEpollWait ep n h, r')]
       \<and> last_read K t s' now \<and> time_now K s \<le> now
       \<and> server_ok s' (filter (\<lambda>q. q \<notin> late now s ps) ps)
       \<and> (\<forall>p. sessions s' p = (if p \<in> sess_of s ` late now s ps then None else sessions s p))
       \<and> closed (since s s') = (\<Union>q \<in> late now s ps. fds_of s q))) s"
  by (rule wp_mono [OF wait_ran_out [OF assms]]) (auto simp: timed_out_def since_def, blast)

text \<open>Two clients in agreeing tables, for the witnesses: descriptor 5 was last used at 100, 6 at 101.\<close>

definition quiet_session :: "int \<Rightarrow> session" where
  "quiet_session fd = init_session\<lparr>ctrl_fd := fd\<rparr>"

definition two_server :: server where
  "two_server = init_server\<lparr>sessions := [10 \<mapsto> quiet_session 5, 11 \<mapsto> quiet_session 6], sess_brk := 12,
     fdts := [0 \<mapsto> \<lparr>fd_type = FDTYPECTRL, fd_fd = 5\<rparr>, 1 \<mapsto> \<lparr>fd_type = FDTYPECTRL, fd_fd = 6\<rparr>], fdt_brk := 2,
     sessinfo := (sessinfo init_server)[5 := \<lparr>fd_in = Some 0, ed_sess = Some 10\<rparr>,
       6 := \<lparr>fd_in = Some 1, ed_sess = Some 11\<rparr>], conns := two_conns\<rparr>"

lemma two_server_simps [simp]:
  "sessions two_server = [10 \<mapsto> quiet_session 5, 11 \<mapsto> quiet_session 6]" "conns two_server = two_conns"
  "fdts two_server = [0 \<mapsto> \<lparr>fd_type = FDTYPECTRL, fd_fd = 5\<rparr>, 1 \<mapsto> \<lparr>fd_type = FDTYPECTRL, fd_fd = 6\<rparr>]"
  "tun two_server = default_tunables" "ctrl_fd (quiet_session fd) = fd" "trace two_server = []"
  "length (sessinfo two_server) = MAX_SESSIONS"
  by (simp_all add: two_server_def quiet_session_def)

lemma two_conns_payload: "payload two_conns = [0 \<mapsto> (10, 100), 1 \<mapsto> (11, 101)]"
  by (simp add: two_conns_def payload_def fun_eq_iff)

lemma two_server_nodes: "node_ok two_server 0 10 (quiet_session 5)" "node_ok two_server 1 11 (quiet_session 6)"
proof -
  have i: "sessinfo two_server ! 5 = \<lparr>fd_in = Some 0, ed_sess = Some 10\<rparr>"
    "sessinfo two_server ! 6 = \<lparr>fd_in = Some 1, ed_sess = Some 11\<rparr>"
    by (simp_all add: two_server_def MAX_SESSIONS_def)
  have m: "map_fd_toNode two_conns = (replicate MAX_SESSIONS None)[5 := Some 0, 6 := Some 1]"
    by (simp add: two_conns_def)
  show "node_ok two_server 0 10 (quiet_session 5)" "node_ok two_server 1 11 (quiet_session 6)"
    by (auto simp: node_ok_def two_conns_payload fd_ok_def i m nth_list_update MAX_SESSIONS_def)
qed

lemma two_server_ok: "server_ok two_server [1, 0]"
  using two_conns_inv two_server_nodes
  by (auto simp: server_ok_def two_server_def split: if_splits)

definition idle_kernel :: "int \<Rightarrow> kernel" where
  "idle_kernel now h c = (answer 0)\<lparr>tv_sec := now\<rparr>"

lemma idle_kernel_ok: "clock (idle_kernel now) now" "nothing_happens (idle_kernel now)"
  by (simp_all add: clock_def nothing_happens_def idle_kernel_def)

text \<open>A kernel on which the wait takes 99 seconds.\<close>

definition waking_kernel :: kernel where
  "waking_kernel h c = (answer 0)\<lparr>tv_sec := if \<exists>e \<in> set h. \<exists>ep n t. fst e = SysEpollWait ep n t then 399 else 300\<rparr>"

lemma waking_kernel_ok: "clock_answers waking_kernel" "nothing_happens waking_kernel"
  by (auto simp: clock_answers_def clock_runs_def nothing_happens_def waking_kernel_def)

lemma two_server_times [simp]: "node_time two_conns 0 = 100" "node_time two_conns 1 = 101"
  "node_time two_conns (Suc 0) = 101" "sess_of two_server 0 = 10"
  "fds_of two_server 0 = {5}"
  by (simp_all add: node_time_def two_conns_payload sess_of_def fds_of_def open_fds_def quiet_session_def
      init_session_def)

lemma two_server_late: "late 399 two_server [Suc 0, 0] = {0}"
  by (auto simp: late_def overdue_def default_tunables_def TIMEOUTSEG_def)

lemma woken: "trace t = [a, (SysEpollWait ep n h, r)] \<Longrightarrow> last_read waking_kernel t s' now \<Longrightarrow> now = 399"
  by (auto simp: last_read_def waking_kernel_def)

theorem timeout_closes_idle_witness:
  "wp (epoll_wait_timeout waking_kernel 3 80) (\<lambda>(num, events) s'. sessions s' 10 = None
     \<and> sessions s' 11 = Some (quiet_session 6) \<and> closed (since two_server s') = {5}
     \<and> server_ok s' [1]) two_server"
proof -
  have "past (time_now waking_kernel two_server) two_server [1, 0]"
    by (simp add: past_def time_now_def waking_kernel_def)
  from timeout_closes_idle [OF waking_kernel_ok two_server_ok _ this] show ?thesis
    by (rule wp_mono) (auto simp: two_server_late dest!: woken)
qed

text \<open>C33: the time the server waits is the number of seconds that are left to the least recently
  used connection, and \<open>epoll_wait\<close> takes it for milliseconds; when that connection is late
  already, the number is negative, which stands for no limit at all.\<close>

theorem wait_time_in_seconds:
  assumes "clock K now" "lru_rep (conns s) (ps @ [q])" "payload (conns s) q = Some (p, t)"
    and "0 \<le> t" "t \<le> now" "now < 2 ^ 31" "uint (tunable_idle_session_timeout (tun s)) < 2 ^ 31"
    and "\<And>h c. 0 \<le> rv (K h c)" "\<And>h c. evs (K h (SysEpollWait ep n c)) \<noteq> []" "0 < n"
  shows "wp (epoll_wait_timeout K ep n) (\<lambda>_ s'. \<exists>r r'. since s s' = [(SysGettimeofday, r),
     (SysEpollWait ep n (uint (tunable_idle_session_timeout (tun s)) - (now - t)), r')]) s"
proof -
  obtain m where m: "lnodes (conns s) q = Some m" "nd_lastTime m = t" using payload_node [OF assms(3)] by blast
  have l: "pLRU (conns s) = Some q" using lru_rep_ends(2) [OF assms(2)] by simp
  have st: "sessTime now m = now - t" using assms(4-6) m(2) by (simp add: sessTime_def to_int32_id)
  let ?i = "tunable_idle_session_timeout (tun s)"
  have "?i - word_of_int (now - t) = word_of_int (uint ?i - (now - t))" by simp
  moreover have "0 \<le> uint ?i" by simp
  then have "- (2 ^ 31) \<le> uint ?i - (now - t)" "uint ?i - (now - t) < 2 ^ 31" using assms(4-7) by linarith+
  ultimately have w: "sint (?i - word_of_int (now - t)) = uint ?i - (now - t)"
    using to_int32_id [of "uint ?i - (now - t)"] by (simp only: to_int32_def)
  then have w': "sint (?i - (word_of_int now - word_of_int t)) = uint ?i - (now - t)" by simp
  have e: "rv (K h c) \<noteq> - 1" for h c using assms(8) [of h c] by linarith
  show ?thesis
    using assms(8-10) by (auto simp: epoll_wait_timeout_def l m wp_tick [OF assms(1)] Epoll_wait_def e Let_def
        st w' since_def simp del: wp_get_time_sec)
qed

theorem wait_time_in_seconds_witness:
  "wp (epoll_wait_timeout (\<lambda>h c. (answer 0)\<lparr>tv_sec := 399, evs := [(True, False, False, Data_ptr 6)]\<rparr>) 3 80)
     (\<lambda>_ s'. \<exists>r r'. since two_server s' = [(SysGettimeofday, r), (SysEpollWait 3 80 1, r')]) two_server"
proof -
  let ?K = "\<lambda>h c. (answer 0)\<lparr>tv_sec := 399, evs := [(True, False, False, Data_ptr 6)]\<rparr>"
  have c: "clock ?K 399" by (simp add: clock_def)
  have rep: "lru_rep (conns two_server) ([1] @ [0])" using two_conns_inv by (simp add: lru_inv_def)
  have pay: "payload (conns two_server) 0 = Some (10, 100)" by (simp add: two_conns_payload)
  from wait_time_in_seconds [OF c rep pay, of 80 3] show ?thesis by (simp add: default_tunables_def)
qed

text \<open>C27: when a client hangs up, its session is freed while its node stays in the list; as soon as
  that node is overdue the server uses the session again, and is lost.\<close>

theorem hangup_then_timeout:
  assumes "server_ok s (ps @ [q])" "node_ok s q p x" "0 \<le> node_time (conns s) q"
    and "0 \<le> rv (K (trace s) (SysPeek (ctrl_fd x) MAX_COMMAND_LINE))"
    and "dat (K (trace s) (SysPeek (ctrl_fd x) MAX_COMMAND_LINE)) = []"
    and "clock K' now" "overdue (tunable_idle_session_timeout (tun s)) now s q"
    and "node_time (conns s) q \<le> now" "now < 2 ^ 31 - 2"
  shows "wp (processCtrlRead K p) (\<lambda>r s'. r = 0 \<and> ends (expire_loop K') UseAfterFree s') s"
proof -
  let ?x = "x\<lparr>cmdline := zeros MAX_COMMAND, cmd := zeros MAX_COMMAND, arg := zeros MAX_ARG\<rparr>"
  let ?s = "after K (SysPeek (ctrl_fd x) MAX_COMMAND_LINE) (s\<lparr>sessions := (sessions s)(p \<mapsto> ?x)\<rparr>)"
  have inv: "lru_inv (conns s) (ps @ [q])" and len: "length (sessinfo s) = MAX_SESSIONS"
    using assms(1) by (simp_all add: server_ok_def)
  obtain n f where n: "lnodes (conns s) q = Some n" "nd_sess n = p" "sessions s p = Some x"
      "fd_ok (ctrl_fd x)" "sessinfo s ! nat (ctrl_fd x) = \<lparr>fd_in = Some f, ed_sess = Some p\<rparr>" "fdts s f \<noteq> None"
    using assms(2) by (auto simp: node_ok_def payload_def)
  have "ends (expire_loop K') UseAfterFree s'"
    if s': "conns s' = conns s" "tun s' = tun s" "sessions s' p = None" for s'
  proof -
    let ?t = "ticked K' s'"
    have "get_node q ?t = Some (Go n ?t)" "get_sess (nd_sess n) ?t = Some (Stop UseAfterFree ?t)"
      using n s' by (simp_all add: get_node_def get_sess_def bind_def gets_def lift_def ret_def stop_def)
    then have "removeToNode K' q ?t = Some (Stop UseAfterFree ?t)" by (simp add: removeToNode_def)
    moreover have "expire_loop K' s' = seq (removeToNode K' q) (expire_loop K') ?t"
      using expire_round [OF tick_run [OF assms(6)], of s' ps q] inv assms(3,7-9) by (simp add: s' overdue_def)
    ultimately show ?thesis by (simp add: ends_def seq_def)
  qed
  then have "wp (closeSess K p) (\<lambda>r s'. r = 0 \<and> ends (expire_loop K') UseAfterFree s') t"
    if "sessions t p = Some y" "ctrl_fd y = ctrl_fd x" "sessinfo t = sessinfo s" "fdts t = fdts s"
      "conns t = conns s" "tun t = tun s" for y t
    using that n(4-6) len by (intro wp_closeSess [where x = y]) (auto simp: in_table_def fd_ok_def)
  note close = this
  show ?thesis using n(3) assms(4,5)
    by (auto simp: processCtrlRead_def wp_readline_eof intro!: wp_mono [OF close])
qed

theorem hangup_then_timeout_witness:
  "wp (processCtrlRead (idle_kernel 120) 10) (\<lambda>r s'. r = 0 \<and> ends (expire_loop (idle_kernel 500)) UseAfterFree s')
     two_server"
proof -
  have ok: "server_ok two_server ([1] @ [0])" using two_server_ok by simp
  show ?thesis
    by (rule hangup_then_timeout [OF ok two_server_nodes(1) _ _ _ idle_kernel_ok(1)])
      (simp_all add: idle_kernel_def overdue_def default_tunables_def TIMEOUTSEG_def)
qed

text \<open>C28: transfers do not count as activity: when a client is overdue whose worker has not started, the wait
  that runs out frees its session, and the worker then uses it.\<close>

theorem timeout_under_worker:
  assumes "clock_answers K" "nothing_happens K" "server_ok s ps" "past (time_now K s) s ps" "q \<in> late (time_now K s) s ps"
    and "threads s = ts @ t # us" "t \<in> {ThreadRetr (sess_of s q), UploadCommon (sess_of s q) a}"
  shows "\<exists>s'. server_step K listenfd s s' \<and> threads s' = ts @ t # us
     \<and> ends (run_thread K t) UseAfterFree (s'\<lparr>threads := ts @ us\<rparr>)"
proof -
  have "ps \<noteq> []" using assms(5) by (auto simp: late_def)
  from wait_ran_out [OF assms(1-3) this assms(4), of "epollfd s" MAXEVENTNUM]
  obtain s' now where s': "epoll_wait_timeout K (epollfd s) MAXEVENTNUM s = Some (Go (0, []) s')"
    "time_now K s \<le> now" "timed_out now s ps s'" by (auto simp: wp_ex)
  then have "q \<in> late now s ps" using assms(5) overdue_mono by (auto simp: late_def)
  then have dead: "sessions s' (sess_of s q) = None" and th: "threads s' = threads s"
    using s'(3) by (auto simp: timed_out_def)
  from s'(1) have "main_iter K listenfd s = Some (Go () s')" by (simp add: main_iter_def bind_def gets_def ret_def)
  then have "server_step K listenfd s s'" by (rule server_step.main)
  moreover have "get_sess (sess_of s q) u = Some (Stop UseAfterFree u)" if "sessions u = sessions s'" for u
    using that dead by (simp add: get_sess_def bind_def gets_def lift_def stop_def)
  then have "ends (run_thread K t) UseAfterFree (s'\<lparr>threads := ts @ us\<rparr>)"
    using assms(7) by (auto simp: ends_def run_thread_def threadRetr_def upload_common_def)
  ultimately show ?thesis using th assms(6) by auto
qed

theorem timeout_under_worker_witness:
  "\<exists>s'. server_step (idle_kernel 399) 3 (two_server\<lparr>threads := [ThreadRetr 10]\<rparr>) s'
     \<and> ends (run_thread (idle_kernel 399) (ThreadRetr 10)) UseAfterFree (s'\<lparr>threads := []\<rparr>)"
proof -
  let ?s = "two_server\<lparr>threads := [ThreadRetr 10]\<rparr>"
  have v: "node_ok ?s q p x = node_ok two_server q p x" "sess_of ?s q = sess_of two_server q" for q p x
    by (simp_all add: node_ok_def sess_of_def)
  then have ok: "server_ok ?s [1, 0]" using two_server_ok by (simp add: server_ok_def)
  have now: "time_now (idle_kernel 399) ?s = 399" by (simp add: time_now_def idle_kernel_def)
  have K: "clock_answers (idle_kernel 399)" by (simp add: clock_answers_def clock_runs_def idle_kernel_def)
  have l: "0 \<in> late 399 ?s [1, 0]" using two_server_late by (simp add: late_def overdue_def)
  have p: "sess_of ?s 0 = 10" using node_ok_sess [OF two_server_nodes(1)] v by simp
  have past: "past 399 ?s [1, 0]" by (simp add: past_def)
  have "threads ?s = [] @ ThreadRetr 10 # []" by simp
  from timeout_under_worker [OF K idle_kernel_ok(2) ok _ _ this, unfolded now, OF past l, of 0 3]
  show ?thesis by (simp add: p) blast
qed

end
