(* ===== verification/Admission.thy ===== *)
theory Admission
  imports Timeouts
begin

text \<open>
  Who gets in: \<open>isValid\<close> and \<open>handleNewConn\<close> of \<^verbatim>\<open>ftpepoll.cpp\<close>, and what the limits come to
  over all runs of the server. A run starts in any state and takes the steps of \<open>server_step\<close>;
  the limits are those of the tunables, which no step changes.
\<close>

section \<open>Relations over runs\<close>

text \<open>A relation that holds across an iteration of the main thread and across a worker holds across every
  run of the server.\<close>

locale server_relation = moving R for R :: "server \<Rightarrow> server \<Rightarrow> bool" +
  fixes K :: kernel
  assumes main: "moves R (main_iter K listenfd)"
    and worker: "moves R (run_thread K t)"
    and chosen: "R s (s\<lparr>threads := ts\<rparr>)"
begin

lemma step: "server_step K listenfd s s' \<Longrightarrow> R s s'"
  by (erule server_stepE) (auto dest!: movesE [OF _ main] movesE [OF _ worker] intro: trans [OF chosen])

lemma run: "(server_step K listenfd)\<^sup>*\<^sup>* s s' \<Longrightarrow> R s s'"
  by (induction rule: rtranclp_induct) (blast intro: stay trans step)+

end

section \<open>What admission looks at\<close>

definition adm :: "server \<Rightarrow> counters \<times> tunables" where
  "adm s = (cnts s, tun s)"

definition children :: "server \<Rightarrow> nat" where
  "children s = unat (s_children (cnts s))"

definition max_clients :: "server \<Rightarrow> nat" where
  "max_clients s = unat (tunable_max_clients (tun s))"

text \<open>The test of \<open>isValid\<close> on the number of clients at the time of a connection.\<close>

definition full :: "server \<Rightarrow> bool" where
  "full s \<longleftrightarrow> 0 < max_clients s \<and> max_clients s < children s"

definition bounded :: "server \<Rightarrow> bool" where
  "bounded s \<longleftrightarrow> 0 < max_clients s \<longrightarrow> children s \<le> Suc (max_clients s)"

text \<open>How the counters may move: never past the limit, and not at all in a full server.\<close>

definition admits :: "server \<Rightarrow> server \<Rightarrow> bool" where
  "admits s s' \<longleftrightarrow> tun s' = tun s \<and> (full s \<longrightarrow> cnts s' = cnts s) \<and> (bounded s \<longrightarrow> bounded s')"

interpretation admission: moving admits
  by unfold_locales (auto simp: admits_def full_def children_def max_clients_def)

lemma adm_admits: "adm s' = adm s \<Longrightarrow> admits s s'"
  by (simp add: adm_def admits_def bounded_def full_def children_def max_clients_def)

lemma keeps_admits: "keeps adm m \<Longrightarrow> moves admits m"
  by (erule moves_weaken) (rule adm_admits)

lemma frame_adm: "keeps (frame p) m \<Longrightarrow> keeps adm m"
  by (erule moves_weaken) (simp add: frame_def adm_def)

lemma adm_view: "server_view adm"
  by (rule server_viewI) (simp add: adm_def)

lemmas keeps_adm_kernel [keeps_intro] = kernel_keeps [THEN keeps_view [OF adm_view]]

lemmas keeps_adm_frame [keeps_intro] =
  keeps_session_ops [THEN frame_adm] keeps_set_info [THEN frame_adm] keeps_epoll [THEN frame_adm]
  keeps_closeSess [THEN frame_adm] keeps_replies [THEN frame_adm] keeps_get_fdt [THEN frame_adm]

section \<open>The event loop outside admission\<close>

lemma keeps_new_sess [keeps_intro]: "keeps adm (new_sess x)"
  unfolding new_sess_def by (rule keeps_intro | simp add: adm_def)+

lemma keeps_on_conns [keeps_intro]: "keeps adm (on_conns f)" "keeps adm (get_node q)"
  unfolding on_conns_def get_node_def by (rule keeps_intro | simp add: adm_def)+

lemma keeps_conns [keeps_intro]:
  "keeps adm (refresh_conn K fd)" "keeps adm (add_conn K p)" "keeps adm (removeToNode K q)"
  unfolding refresh_conn_def add_conn_def removeToNode_def by (rule keeps_intro | simp add: adm_def)+

lemma keeps_expire_loop [keeps_intro]: "keeps adm (expire_loop K)"
  by (rule movesI, erule expire_loop.raw_induct [rotated], erule moves_loop)
    (rule keeps_intro | (rule movesI, blast))+

lemma keeps_waiting [keeps_intro]:
  "keeps adm (Epoll_wait K ep n t)" "keeps adm (epoll_wait_timeout K ep n)"
  unfolding epoll_wait_timeout_def Epoll_wait_def Let_def by (rule keeps_intro)+

lemma keeps_processing [keeps_intro]: "keeps adm (processRead K ed)" "keeps adm (processWrite K ed)"
proof -
  show "keeps adm (processRead K ed)"
    unfolding processRead_def by (rule keeps_intro frame_adm [OF keeps_processCtrlRead]
      frame_adm [OF keeps_processDataRead])+
qed (simp add: processWrite_def keeps_intro)

lemma keeps_thread: "keeps adm (run_thread K t)"
  using keeps_run_thread [OF refl] by (rule frame_adm)

section \<open>Admission\<close>

lemma new_sess_run: "new_sess x s = Some (Go (sess_brk s)
    (s\<lparr>sessions := (sessions s)(sess_brk s \<mapsto> x), sess_brk := Suc (sess_brk s)\<rparr>))"
  by (simp add: new_sess_def bind_def gets_def seq_def modify_def ret_def)

text \<open>The state in which \<open>isValid\<close> looks at a new connection.\<close>

definition arrived :: "int \<Rightarrow> server \<Rightarrow> server" where
  "arrived fd s = s\<lparr>sess_brk := Suc (sess_brk s), sessions := (sessions s)(sess_brk s \<mapsto>
     init_session\<lparr>num_clients := s_children (cnts s), ctrl_fd := fd\<rparr>)\<rparr>"

lemma adm_arrived [simp]: "adm (arrived fd s) = adm s"
  by (simp add: adm_def arrived_def)

lemma arrived_session [simp]:
  "sessions (arrived fd s) (sess_brk s) = Some (init_session\<lparr>num_clients := s_children (cnts s), ctrl_fd := fd\<rparr>)"
  by (simp add: arrived_def)

text \<open>What \<open>handleNewConn\<close> does for a connection that was admitted.\<close>

definition admit :: "kernel \<Rightarrow> nat \<Rightarrow> int \<Rightarrow> u32 \<Rightarrow> (int, server) prog" where
  "admit K p connfd ip =
     seq (on_cnts (\<lambda>c. Inr ((), c\<lparr>s_children := s_children c + 1\<rparr>))) (
     bind (on_cnts (\<lambda>c. bnd (handle_ip_count (s_ip_count_hash c) (u32_bytes ip)) (\<lambda>(n, h).
       Inr (n, c\<lparr>s_ip_count_hash := h\<rparr>)))) (\<lambda>cnt.
     seq (upd_sess p (\<lambda>x. x\<lparr>num_this_ip := cnt\<rparr>)) (
     bind (getfd_t FDTYPECTRL connfd) (\<lambda>fdt.
     seq (set_info connfd \<lparr>fd_in = Some fdt, ed_sess = Some p\<rparr>) (
     bind (gets epollfd) (\<lambda>ep.
     seq (addFdData K ep connfd (nat connfd) False) (
     seq (beginSession K p) (
     seq (add_conn K p) (
     ret 0)))))))))"

lemma handleNewConn_eq:
  "handleNewConn K fd ip s = bind (isValid K (sess_brk s)) (\<lambda>rc.
     if rc < 0 then ret rc else admit K (sess_brk s) fd ip) (arrived fd s)"
  unfolding admit_def arrived_def
  by (simp add: handleNewConn_def new_sess_run bind_def [of "gets _"] gets_def)

lemma keeps_isValid [keeps_intro]: "keeps adm (isValid K p)"
  unfolding isValid_def by (rule keeps_intro)+

text \<open>Only the number of all clients decides: the number of clients of the address is still 0.\<close>

lemma isValid_cases:
  assumes "sessions s p = Some x" "num_this_ip x = 0" "isValid K p s = Some (Go rc s')"
  shows "rc = (if 0 < tunable_max_clients (tun s) \<and> tunable_max_clients (tun s) < num_clients x
      then TOOMANYCONNTOT else 0)"
  using assms
  by (auto simp: isValid_def bind_def [of "gets _"] gets_def ret_def seq_def elim!: bind_Go_cases split: if_splits)

lemma isValid_passes:
  assumes "sessions s p = Some x" "num_this_ip x = 0"
    "\<not> (0 < tunable_max_clients (tun s) \<and> tunable_max_clients (tun s) < num_clients x)"
  shows "isValid K p s = Some (Go 0 s)"
  using assms by (auto simp: isValid_def bind_def gets_def ret_def get_sess_def lift_def deref_def)

lemma admit_returns: "admit K p fd ip s = Some (Go rc t) \<Longrightarrow> rc = 0"
  unfolding admit_def seq_def by (auto elim!: bind_Go_cases simp: ret_def)

lemma handleNewConn_result:
  assumes "handleNewConn K fd ip s = Some (Go rc t)"
  shows "rc = (if full s then TOOMANYCONNTOT else 0)"
proof -
  from assms obtain v s1 where v: "isValid K (sess_brk s) (arrived fd s) = Some (Go v s1)"
      and r: "(if v < 0 then ret v else admit K (sess_brk s) fd ip) s1 = Some (Go rc t)"
    unfolding handleNewConn_eq by (rule bind_Go_cases)
  from isValid_cases [OF arrived_session _ v] have "v = (if full s then TOOMANYCONNTOT else 0)"
    by (simp add: init_session_def full_def children_def max_clients_def arrived_def word_less_nat_alt)
  with r show ?thesis by (auto simp: TOOMANYCONNTOT_def ret_def dest: admit_returns split: if_splits)
qed

text \<open>An admission counts one client; the rest of it leaves the number of clients and the tunables.\<close>

definition limits :: "server \<Rightarrow> u32 \<times> tunables" where
  "limits s = (s_children (cnts s), tun s)"

lemma adm_limits: "keeps adm m \<Longrightarrow> keeps limits m"
  by (erule moves_weaken) (simp add: adm_def limits_def)

lemma keeps_count_ip: "keeps limits (on_cnts (\<lambda>c. bnd (handle_ip_count (s_ip_count_hash c) ip) (\<lambda>(n, h).
    Inr (n, c\<lparr>s_ip_count_hash := h\<rparr>))))"
  by (rule movesI) (auto simp: on_cnts_def limits_def seq_def gets_def modify_def ret_def lift_def stop_def
      elim!: bind_cases split: sum.splits)

lemma keeps_rest_of_admit:
  "keeps limits (bind (on_cnts (\<lambda>c. bnd (handle_ip_count (s_ip_count_hash c) (u32_bytes ip)) (\<lambda>(n, h).
       Inr (n, c\<lparr>s_ip_count_hash := h\<rparr>)))) (\<lambda>cnt.
     seq (upd_sess p (\<lambda>x. x\<lparr>num_this_ip := cnt\<rparr>)) (
     bind (getfd_t FDTYPECTRL connfd) (\<lambda>fdt.
     seq (set_info connfd \<lparr>fd_in = Some fdt, ed_sess = Some p\<rparr>) (
     bind (gets epollfd) (\<lambda>ep.
     seq (addFdData K ep connfd (nat connfd) False) (
     seq (beginSession K p) (
     seq (add_conn K p) (
     ret 0)))))))))"
  unfolding beginSession_def handleChild_def
  by (rule keeps_intro keeps_count_ip adm_limits)+

lemma admit_counts:
  assumes "admit K p fd ip s = Some r"
  shows "s_children (cnts (final r)) = s_children (cnts s) + 1 \<and> tun (final r) = tun s"
proof -
  let ?s = "s\<lparr>cnts := (cnts s)\<lparr>s_children := s_children (cnts s) + 1\<rparr>\<rparr>"
  have "on_cnts (\<lambda>c. Inr ((), c\<lparr>s_children := s_children c + 1\<rparr>)) s = Some (Go () ?s)"
    by (simp add: on_cnts_def bind_def gets_def seq_def modify_def ret_def)
  with assms show ?thesis
    unfolding admit_def seq_run by (auto simp: limits_def dest!: movesE [OF _ keeps_rest_of_admit])
qed

lemma children_Suc: "unat (w + 1) \<le> Suc (unat w)" for w :: u32
  by (simp add: unat_word_ariths mod_less_eq_dividend)

lemma moves_handleNewConn [keeps_intro]: "moves admits (handleNewConn K fd ip)"
proof (rule movesI)
  fix s r assume "handleNewConn K fd ip s = Some r"
  then have b: "bind (isValid K (sess_brk s)) (\<lambda>rc. if rc < 0 then ret rc
      else admit K (sess_brk s) fd ip) (arrived fd s) = Some r"
    by (simp add: handleNewConn_eq)
  then show "admits s (final r)"
  proof (cases rule: bind_cases)
    case (1 e s')
    with keeps_isValid have "adm s' = adm s" by (fastforce dest: movesE)
    with 1 show ?thesis by (simp add: adm_admits)
  next
    case (2 rc s')
    from 2(1) keeps_isValid have s': "adm s' = adm s" by (fastforce dest: movesE)
    from isValid_cases [OF arrived_session _ 2(1)] have rc: "rc = (if full s then TOOMANYCONNTOT else 0)"
      by (simp add: init_session_def full_def children_def max_clients_def arrived_def word_less_nat_alt)
    show ?thesis
    proof (cases "full s")
      case True
      with 2(2) rc s' show ?thesis by (auto simp: TOOMANYCONNTOT_def ret_def intro: adm_admits)
    next
      case False
      with 2(2) rc have "admit K (sess_brk s) fd ip s' = Some r" by simp
      from admit_counts [OF this] s' False show ?thesis
        using children_Suc [of "s_children (cnts s)"]
        by (auto simp: admits_def adm_def bounded_def full_def children_def max_clients_def)
    qed
  qed
qed

section \<open>Runs of the server\<close>

lemmas keeps_admits_loop [keeps_intro] =
  kernel_keeps [THEN keeps_view [OF adm_view], THEN keeps_admits]
  keeps_waiting [THEN keeps_admits] keeps_processing [THEN keeps_admits]
  keeps_conns [THEN keeps_admits] keeps_epoll [THEN frame_adm, THEN keeps_admits]
  keeps_closeSess [THEN frame_adm, THEN keeps_admits] keeps_get_fdt [THEN frame_adm, THEN keeps_admits]
  keeps_session_ops(1) [THEN frame_adm, THEN keeps_admits]

lemma moves_accept_loop [keeps_intro]: "moves admits (accept_loop K listenfd)"
  by (rule movesI, erule accept_loop.raw_induct [rotated], erule moves_loop)
    (rule keeps_intro | (rule movesI, blast))+

lemma moves_epoll_data [keeps_intro]:
  "(\<And>i. moves R (m i)) \<Longrightarrow> (\<And>fd. moves R (n fd)) \<Longrightarrow>
   moves R (case d of Data_ptr i \<Rightarrow> m i | Data_fd fd \<Rightarrow> n fd)"
  by (cases d) auto

lemma moves_handle_event [keeps_intro]: "moves admits (handle_event K listenfd ev)"
  unfolding handle_event_def Let_def by (rule keeps_intro)+

lemma moves_handle_events [keeps_intro]: "moves admits (handle_events K listenfd es)"
  by (induction es) (simp_all add: keeps_intro)

lemma moves_main_iter: "moves admits (main_iter K listenfd)"
  unfolding main_iter_def by (rule keeps_intro)+

lemma adm_threads [simp]: "adm (s\<lparr>threads := ts\<rparr>) = adm s"
  by (simp add: adm_def)

interpretation admitting: server_relation admits K for K
  by unfold_locales (simp_all add: moves_main_iter keeps_admits [OF keeps_thread] adm_admits)

lemmas step_admits = admitting.step
lemmas run_admits = admitting.run

section \<open>What an admission builds\<close>

lemma server_ok_admit:
  assumes ok: "server_ok s ps" and fd: "fd_ok fd" "map_fd_toNode (conns s) ! nat fd = None"
    and c: "lru_inv c (b # ps)" "b = lbrk (conns s)" "payload c = (payload (conns s))(b \<mapsto> (p, now))"
      "map_fd_toNode c = (map_fd_toNode (conns s))[nat fd := Some b]"
    and s': "conns s' = c" "sessions s' = (sessions s)(p \<mapsto> x)" "ctrl_fd x = fd" "p = sess_brk s"
      "sess_brk s' = Suc p" "fdts s' = (fdts s)(f \<mapsto> \<lparr>fd_type = FDTYPECTRL, fd_fd = fd\<rparr>)"
      "f = fdt_brk s" "fdt_brk s' = Suc f"
      "sessinfo s' = (sessinfo s)[nat fd := \<lparr>fd_in = Some f, ed_sess = Some p\<rparr>]"
  shows "server_ok s' (b # ps)"
proof -
  have len: "length (sessinfo s) = MAX_SESSIONS" "length (map_fd_toNode (conns s)) = MAX_SESSIONS"
    and inv: "lru_inv (conns s) ps" using ok by (auto simp: server_ok_def lru_inv_def)
  have fresh: "Some b \<notin> set (map_fd_toNode (conns s))"
    using inv lru_rep_payload unfolding lru_inv_def c(2) by (metis less_irrefl)
  have "node_ok s' b p x" using fd len fresh
    by (auto simp: node_ok_def s' c(3,4) nth_list_update fd_ok_def in_set_conv_nth)
  moreover have "\<exists>p' x'. node_ok s' r p' x'" if r: "r \<in> set ps" for r
  proof -
    obtain p' x' where n: "node_ok s r p' x'" using ok r by (auto simp: server_ok_def)
    have m: "map_fd_toNode (conns s) ! nat (ctrl_fd x') = Some r" using n by (auto simp: node_ok_def fd_ok_def)
    with fd(2) have ne: "nat (ctrl_fd x') \<noteq> nat fd" by auto
    have "payload (conns s) r \<noteq> None" using n by (auto simp: node_ok_def)
    then have rb: "r \<noteq> b" using inv by (auto simp: lru_inv_def c(2))
    have "p' < sess_brk s" "\<And>g. fdts s g \<noteq> None \<Longrightarrow> g < fdt_brk s"
      using ok n by (auto simp: server_ok_def node_ok_def)
    with n m ne rb fd len have "node_ok s' r p' x'"
      by (auto simp: node_ok_def s' c(3,4) nth_list_update fd_ok_def) force
    then show ?thesis by blast
  qed
  ultimately show ?thesis using ok c(1) len by (auto simp: server_ok_def s' less_Suc_eq)
qed

lemma wp_on_cnts [simp]:
  "wp (on_cnts f) Q s = (case f (cnts s) of Inl e \<Rightarrow> False | Inr (x, c) \<Rightarrow> Q x (s\<lparr>cnts := c\<rparr>))"
  by (simp add: on_cnts_def split: sum.splits)

text \<open>What \<open>handleNewConn\<close> leaves for a descriptor and an address.\<close>

definition let_in :: "server \<Rightarrow> nat list \<Rightarrow> int \<Rightarrow> u32 \<Rightarrow> server \<Rightarrow> bool" where
  "let_in s ps fd ip s' \<longleftrightarrow> server_ok s' (lbrk (conns s) # ps)
     \<and> sess_of s' (lbrk (conns s)) = sess_brk s
     \<and> (\<exists>x. sessions s' = (sessions s)(sess_brk s \<mapsto> x) \<and> ctrl_fd x = fd \<and> dirfd x = - 1
          \<and> unat (num_this_ip x) = count_of (hash_abs 4 (s_ip_count_hash (cnts s))) ip + 1)
     \<and> s_children (cnts s') = s_children (cnts s) + 1
     \<and> count_of (hash_abs 4 (s_ip_count_hash (cnts s'))) =
         (count_of (hash_abs 4 (s_ip_count_hash (cnts s))))(ip := count_of (hash_abs 4 (s_ip_count_hash (cnts s))) ip + 1)
     \<and> sent fd (since s s') = reply_text FTP_GREET ''(myftpd 0.1)''"

lemma ticked_fields [simp]:
  "sess_brk (ticked K s) = sess_brk s" "fdts (ticked K s) = fdts s" "fdt_brk (ticked K s) = fdt_brk s"
  "sessinfo (ticked K s) = sessinfo s" "cnts (ticked K s) = cnts s"
  by (simp_all add: ticked_def Let_def)

lemma let_inI:
  assumes ok: "server_ok s ps" and fd: "fd_ok fd" "map_fd_toNode (conns s) ! nat fd = None"
    and c: "lru_inv c (lbrk (conns s) # ps)" "payload c = (payload (conns s))(lbrk (conns s) \<mapsto> (sess_brk s, now))"
      "map_fd_toNode c = (map_fd_toNode (conns s))[nat fd := Some (lbrk (conns s))]"
    and s': "conns s' = c" "sessions s' = (sessions s)(sess_brk s \<mapsto> x)" "ctrl_fd x = fd" "dirfd x = - 1"
      "sess_brk s' = Suc (sess_brk s)"
      "fdts s' = (fdts s)(fdt_brk s \<mapsto> \<lparr>fd_type = FDTYPECTRL, fd_fd = fd\<rparr>)" "fdt_brk s' = Suc (fdt_brk s)"
      "sessinfo s' = (sessinfo s)[nat fd := \<lparr>fd_in = Some (fdt_brk s), ed_sess = Some (sess_brk s)\<rparr>]"
      "s_children (cnts s') = s_children (cnts s) + 1"
    and n: "unat (num_this_ip x) = count_of (hash_abs 4 (s_ip_count_hash (cnts s))) ip + 1"
      "count_of (hash_abs 4 (s_ip_count_hash (cnts s'))) =
        (count_of (hash_abs 4 (s_ip_count_hash (cnts s))))(ip := unat (num_this_ip x))"
    and h: "sent fd (since s s') = reply_text FTP_GREET ''(myftpd 0.1)''"
  shows "let_in s ps fd ip s'"
proof -
  have "server_ok s' (lbrk (conns s) # ps)"
    by (rule server_ok_admit [OF ok fd c(1) refl c(2,3) s'(1,2,3) refl s'(5,6) refl s'(7,8)])
  then show ?thesis using s' n h by (auto simp: let_in_def sess_of_def c(2))
qed

lemma admit_lets_in:
  assumes K: "writes_progress K" "clock K now" and ok: "server_ok s ps" and past: "past now s ps"
    and fd: "fd_ok fd" "map_fd_toNode (conns s) ! nat fd = None"
    and ip: "hash_inv 4 (s_ip_count_hash (cnts s))" "counts_ok (hash_abs 4 (s_ip_count_hash (cnts s)))"
      "count_of (hash_abs 4 (s_ip_count_hash (cnts s))) ip + 1 < 2 ^ 32"
  shows "wp (admit K (sess_brk s) fd ip) (\<lambda>rc s'. rc = 0 \<and> let_in s ps fd ip s') (arrived fd s)"
proof -
  have inv: "lru_inv (conns s) ps" and len: "length (sessinfo s) = MAX_SESSIONS"
    using ok by (auto simp: server_ok_def)
  have now: "int_time now" "\<forall>q \<in> set ps. node_time (conns s) q \<le> now" "to_int32 now = now"
    using past by (auto simp: past_def int_time_def to_int32_id)
  obtain n h where h: "handle_ip_count (s_ip_count_hash (cnts s)) (u32_bytes ip) = Inr (n, h)"
    "unat n = count_of (hash_abs 4 (s_ip_count_hash (cnts s))) ip + 1"
    "count_of (hash_abs 4 h) = (count_of (hash_abs 4 (s_ip_count_hash (cnts s))))(ip := unat n)"
    using ct.count_up [OF ip] by (auto simp: handle_ip_count_def)
  obtain c where c: "addtoNode (sess_brk s) fd now (conns s) = Inr c" "lru_inv c (lbrk (conns s) # ps)"
    "payload c = (payload (conns s))(lbrk (conns s) \<mapsto> (sess_brk s, now))"
    "map_fd_toNode c = (map_fd_toNode (conns s))[nat fd := Some (lbrk (conns s))]"
    using addtoNode_inv [OF inv _ _ now(1,2), of fd] fd(1) by (auto simp: fd_ok_def)
  show ?thesis
    unfolding admit_def beginSession_def handleChild_def addFdData_def setnonblocking_def add_conn_def
    using h c fd(1) len
    by (auto simp: arrived_def in_table_def fd_ok_def wp_tick [OF K(2)] since_def init_session_def simp del: wp_get_time_sec
        intro!: wp_ftp_reply [OF K(1)]
        let_inI [OF ok fd c(2-4), where x = "init_session\<lparr>num_clients := s_children (cnts s), ctrl_fd := fd, num_this_ip := n\<rparr>"])
qed

section \<open>States of the server\<close>

lemma keeps_limits_init:
  "keeps (\<lambda>s. s_children (cnts s)) (main_init K conf)"
proof -
  have v: "server_view (\<lambda>s. s_children (cnts s))" by (rule server_viewI) simp
  have f: "keeps (frame p) m \<Longrightarrow> keeps (\<lambda>s. s_children (cnts s)) m" for p and m :: "('a, server) prog"
    by (erule moves_weaken) (simp add: frame_def)
  have n: "keeps (\<lambda>s. s_children (cnts s)) (new_sess x)" for x
    by (rule moves_weaken [OF keeps_new_sess]) (simp add: adm_def)
  note k = kernel_keeps [THEN keeps_view [OF v]] keeps_epoll [THEN f] keeps_set_info [THEN f] n
    keeps_session_ops [THEN f]
  show ?thesis
    unfolding main_init_def Epoll_create_def
    by (rule keeps_intro k | simp)+
qed

lemma reachable_bounded: "reachable K conf listenfd s \<Longrightarrow> bounded s"
proof (induction rule: reachable.induct)
  case (started listenfd s)
  from movesE [OF started keeps_limits_init] show ?case
    by (simp add: bounded_def children_def init_counters_def)
next
  case (stepped listenfd s s')
  then show ?case using step_admits [of K listenfd s s'] by (simp add: admits_def)
qed

lemma writes_only_closed: "writes_only fd h \<Longrightarrow> closed h = {}"
  by (force simp: writes_only_def closed_def)

text \<open>A refused connection gets the reason and is closed; nothing else changes.\<close>

lemma wp_refused:
  assumes K: "writes_progress K" and f: "full s" and fd: "fd_ok fd" "length (sessinfo s) = MAX_SESSIONS"
    and info: "fd_in (sessinfo s ! nat fd) = None"
    and Q: "\<And>s'. cnts s' = cnts s \<Longrightarrow> closed (since s s') = {fd} \<Longrightarrow>
      sent fd (since s s') = reply_text FTP_TOO_MANY_USERS ''There are too many users. Try later.'' \<Longrightarrow>
      sessions s' = (sessions s)(sess_brk s := None) \<Longrightarrow> Q TOOMANYCONNTOT s'"
  shows "wp (handleNewConn K fd ip) Q s"
proof -
  let ?x = "init_session\<lparr>num_clients := s_children (cnts s), ctrl_fd := fd\<rparr>"
  have "ctrl_fd ?x = fd" "open_fds ?x = [fd]"
    using fd(1) by (simp_all add: open_fds_def init_session_def fd_ok_def)
  moreover have "sent fd h = []" if "map fst h = map (SysFd Close) l" for h l
    using that by (induction l arbitrary: h) (auto simp: Cons_eq_map_conv)
  ultimately have "wp (bind (isValid K (sess_brk s)) (\<lambda>rc. if rc < 0 then ret rc
      else admit K (sess_brk s) fd ip)) Q (arrived fd s)"
    using f fd info writes_only_closed
    by (auto simp: isValid_def arrived_def full_def max_clients_def children_def word_less_nat_alt in_table_def
        fd_ok_def TOOMANYCONNTOT_def since_def closed_closes
        intro!: wp_ftp_reply [OF K] wp_closeSess [where x = ?x] Q [unfolded TOOMANYCONNTOT_def])
  then show ?thesis by (simp add: wp_def handleNewConn_eq)
qed

text \<open>A connection that is not refused.\<close>

lemma connection_let_in:
  assumes "writes_progress K" "clock K now" "server_ok s ps" "past now s ps"
    and "fd_ok fd" "map_fd_toNode (conns s) ! nat fd = None" "\<not> full s"
    and "hash_inv 4 (s_ip_count_hash (cnts s))" "counts_ok (hash_abs 4 (s_ip_count_hash (cnts s)))"
    and "count_of (hash_abs 4 (s_ip_count_hash (cnts s))) ip + 1 < 2 ^ 32"
  shows "wp (handleNewConn K fd ip) (\<lambda>rc s'. rc = 0 \<and> let_in s ps fd ip s') s"
proof -
  have v: "isValid K (sess_brk s) (arrived fd s) = Some (Go 0 (arrived fd s))"
    using assms(7) by (intro isValid_passes [OF arrived_session])
      (simp_all add: arrived_def full_def max_clients_def children_def init_session_def word_less_nat_alt)
  have "wp (admit K (sess_brk s) fd ip) (\<lambda>rc s'. rc = 0 \<and> let_in s ps fd ip s') (arrived fd s)"
    using admit_lets_in [OF assms(1-6,8-10)] .
  then show ?thesis
    unfolding wp_def handleNewConn_eq by (simp add: bind_Go [of "isValid K (sess_brk s)", OF v])
qed

section \<open>Properties\<close>

text \<open>C15: when the number of connections so far is not past the limit, a connection is let in: its
  session is new and belongs to its descriptor, it is at the front of the connection list, the
  counts of all connections and of its address go up by one, the tables of the server still agree,
  and the client gets the greeting. Nobody is logged in yet.\<close>

theorem connection_admitted:
  assumes "writes_progress K" "clock K now" "server_ok s ps" "past now s ps"
    and "fd_ok fd" "map_fd_toNode (conns s) ! nat fd = None" "\<not> full s"
    and "hash_inv 4 (s_ip_count_hash (cnts s))" "counts_ok (hash_abs 4 (s_ip_count_hash (cnts s)))"
    and "count_of (hash_abs 4 (s_ip_count_hash (cnts s))) ip + 1 < 2 ^ 32"
  shows "wp (handleNewConn K fd ip) (\<lambda>rc s'. rc = 0 \<and> server_ok s' (lbrk (conns s) # ps)
     \<and> sess_of s' (lbrk (conns s)) = sess_brk s
     \<and> (\<exists>x. sessions s' = (sessions s)(sess_brk s \<mapsto> x) \<and> ctrl_fd x = fd \<and> dirfd x = - 1
          \<and> unat (num_this_ip x) = count_of (hash_abs 4 (s_ip_count_hash (cnts s))) ip + 1)
     \<and> s_children (cnts s') = s_children (cnts s) + 1
     \<and> count_of (hash_abs 4 (s_ip_count_hash (cnts s'))) ip =
         count_of (hash_abs 4 (s_ip_count_hash (cnts s))) ip + 1
     \<and> sent fd (since s s') = reply_text FTP_GREET ''(myftpd 0.1)'') s"
  by (rule wp_mono [OF connection_let_in [OF assms]]) (simp add: let_in_def)

text \<open>A kernel whose writes accept a byte and whose clock shows 399, for the witnesses.\<close>

definition byte_kernel :: kernel where
  "byte_kernel h c = (answer 1)\<lparr>tv_sec := 399\<rparr>"

lemma byte_kernel_ok: "writes_progress byte_kernel" "clock byte_kernel 399"
  by (simp_all add: byte_kernel_def writes_progress_def clock_def)

theorem connection_admitted_witness:
  "wp (handleNewConn byte_kernel 7 16777343) (\<lambda>rc s'. rc = 0 \<and> server_ok s' [2, 1, 0]
     \<and> sess_of s' 2 = 12 \<and> s_children (cnts s') = 1
     \<and> sent 7 (since two_server s') = reply_text 220 ''(myftpd 0.1)'') two_server"
proof -
  have c: "cnts two_server = init_counters" "lbrk two_conns = 2" "sess_brk two_server = 12"
    by (simp_all add: two_server_def two_conns_def)
  have "map_fd_toNode two_conns ! 7 = None" by (simp add: two_conns_def MAX_SESSIONS_def)
  then show ?thesis
    using c empty_table [of 256, simplified]
    by (intro wp_mono [OF connection_admitted [OF byte_kernel_ok two_server_ok]])
      (auto simp: past_def fd_ok_def MAX_SESSIONS_def full_def children_def init_counters_def
        counts_ok_def count_of_def)
qed

text \<open>C16: in every state a started server gets into, the number of connections let in is at most
  one more than \<open>max_clients\<close>, when a limit is set: the test admits one client too many.\<close>

theorem clients_bounded:
  assumes "reachable K conf listenfd s" "0 < tunable_max_clients (tun s)"
  shows "unat (s_children (cnts s)) \<le> unat (tunable_max_clients (tun s)) + 1"
  using reachable_bounded [OF assms(1)] assms(2)
  by (simp add: bounded_def children_def max_clients_def word_less_nat_alt)

lemma started_zero: "wp (main_init (\<lambda>_ _. answer 0) (Some [])) (\<lambda>l s. l = 0 \<and> tun s = default_tunables) init_server"
proof -
  have "tunable_listen_address default_tunables = None" by (simp add: default_tunables_def)
  moreover have "load_lines (zeros 1024) [] default_tunables = Inr default_tunables" by (subst load_lines.simps) simp
  ultimately show ?thesis
    by (simp add: main_init_def parseconf_load_file_def tcp_server_def fail_exit_def Epoll_create_def
        addFdData_def setnonblocking_def in_table_def MAX_SESSIONS_def)
qed

theorem clients_bounded_witness:
  "\<exists>s. reachable (\<lambda>_ _. answer 0) (Some []) 0 s \<and> unat (s_children (cnts s)) \<le> 2001"
proof -
  obtain s where s: "main_init (\<lambda>_ _. answer 0) (Some []) init_server = Some (Go 0 s)" "tun s = default_tunables"
    using started_zero by (auto simp: wp_ex)
  then have r: "reachable (\<lambda>_ _. answer 0) (Some []) 0 s" by (blast intro: reachable.started)
  from clients_bounded [OF r] s(2) show ?thesis using r by (auto simp: default_tunables_def)
qed

text \<open>C25: once the number of connections let in is past \<open>max_clients\<close> it never changes again,
  whoever leaves: after any further steps every connection is refused, for ever.\<close>

theorem full_server_refuses_for_ever:
  assumes "0 < tunable_max_clients (tun s)" "tunable_max_clients (tun s) < s_children (cnts s)"
    and "(server_step K listenfd)\<^sup>*\<^sup>* s s'" "handleNewConn K fd ip s' = Some (Go rc t)"
  shows "rc = TOOMANYCONNTOT \<and> s_children (cnts t) = s_children (cnts s)"
proof -
  have f: "full s" using assms(1,2) by (simp add: full_def children_def max_clients_def word_less_nat_alt)
  from run_admits [OF assms(3)] f have s': "tun s' = tun s" "cnts s' = cnts s" by (simp_all add: admits_def)
  then have f': "full s'" using f by (simp add: full_def children_def max_clients_def)
  from movesE [OF assms(4) moves_handleNewConn] f' s' have "cnts t = cnts s" by (simp add: admits_def)
  then show ?thesis using handleNewConn_result [OF assms(4)] f' by simp
qed

text \<open>A server that has let five clients in and allows four.\<close>

definition full_server :: server where
  "full_server = two_server\<lparr>cnts := init_counters\<lparr>s_children := 5\<rparr>,
     tun := default_tunables\<lparr>tunable_max_clients := 4\<rparr>\<rparr>"

lemma full_server_refuses:
  "\<exists>t. handleNewConn byte_kernel 7 1 full_server = Some (Go TOOMANYCONNTOT t)"
proof -
  have "full full_server" "length (sessinfo full_server) = MAX_SESSIONS" "fd_in (sessinfo full_server ! 7) = None"
    by (simp_all add: full_server_def full_def max_clients_def children_def two_server_def
        init_server_def MAX_SESSIONS_def)
  then have "wp (handleNewConn byte_kernel 7 1) (\<lambda>rc _. rc = TOOMANYCONNTOT) full_server"
    by (intro wp_refused [OF byte_kernel_ok(1)]) (simp_all add: fd_ok_def MAX_SESSIONS_def)
  then show ?thesis by (auto simp: wp_ex)
qed

theorem full_server_refuses_for_ever_witness:
  "\<exists>t. handleNewConn byte_kernel 7 1 full_server = Some (Go TOOMANYCONNTOT t) \<and> s_children (cnts t) = 5"
proof -
  obtain t where t: "handleNewConn byte_kernel 7 1 full_server = Some (Go TOOMANYCONNTOT t)"
    using full_server_refuses by blast
  from full_server_refuses_for_ever [OF _ _ rtranclp.rtrancl_refl t] t
  show ?thesis by (auto simp: full_server_def)
qed

text \<open>C24: a connection that is dealt with is refused exactly when the number of connections so far
  is greater than \<open>max_clients\<close>; the limit for one address never refuses anybody, because the
  count it is compared with is stored after the test.\<close>

theorem admission_decision:
  assumes "handleNewConn K fd ip s = Some (Go rc t)"
  shows "rc = (if 0 < tunable_max_clients (tun s) \<and> tunable_max_clients (tun s) < s_children (cnts s)
      then TOOMANYCONNTOT else 0) \<and> rc \<noteq> TOOMANYCONNPERIP"
  using handleNewConn_result [OF assms]
  by (auto simp: full_def max_clients_def children_def word_less_nat_alt TOOMANYCONNTOT_def TOOMANYCONNPERIP_def
      split: if_splits)

theorem admission_decision_witness:
  "\<exists>rc t. handleNewConn byte_kernel 7 1 full_server = Some (Go rc t) \<and> rc = - 1 \<and> rc \<noteq> - 2"
proof -
  obtain t where t: "handleNewConn byte_kernel 7 1 full_server = Some (Go TOOMANYCONNTOT t)"
    using full_server_refuses by blast
  from admission_decision [OF t] t show ?thesis
    by (auto simp: full_server_def TOOMANYCONNTOT_def TOOMANYCONNPERIP_def)
qed

end
