(* ===== verification/Typing.thy ===== *)
theory Typing
  imports Admission
begin

text \<open>
  What the tables hold in every state the server gets into, after the worst of requests: each entry of
  \<open>sessinfo\<close> that has a descriptor record has a live one, and that of its own descriptor; every buffer
  keeps its declared size, the tables keep theirs, and the next address of each heap is above every
  address in use.
\<close>

section \<open>Types\<close>

definition sized :: "session \<Rightarrow> bool" where
  "sized x \<longleftrightarrow> length (cmdline x) = MAX_COMMAND \<and> length (cmd x) = MAX_COMMAND \<and> length (arg x) = MAX_ARG"

definition lru_typed :: "lru \<Rightarrow> bool" where
  "lru_typed c \<longleftrightarrow> (\<forall>q. lnodes c q \<noteq> None \<longrightarrow> q < lbrk c) \<and> length (map_fd_toNode c) = MAX_SESSIONS"

text \<open>
  The entries of \<open>sessinfo\<close> share no records, since a record knows its descriptor; this is why freeing
  the record of one entry, and clearing that entry, leaves the others good.
\<close>

definition entries_ok :: "server \<Rightarrow> bool" where
  "entries_ok s \<longleftrightarrow> (\<forall>i < length (sessinfo s). \<forall>f. fd_in (sessinfo s ! i) = Some f \<longrightarrow>
     (\<exists>d. fdts s f = Some d \<and> fd_fd d = int i))"

definition typed :: "server \<Rightarrow> bool" where
  "typed s \<longleftrightarrow> (\<forall>p x. sessions s p = Some x \<longrightarrow> p < sess_brk s \<and> sized x)
     \<and> (\<forall>f. fdts s f \<noteq> None \<longrightarrow> f < fdt_brk s) \<and> lru_typed (conns s)
     \<and> length (sessinfo s) = MAX_SESSIONS \<and> entries_ok s"

definition types :: "server \<Rightarrow> server \<Rightarrow> bool" where
  "types s s' \<longleftrightarrow> (typed s \<longrightarrow> typed s')"

lemma sized_request_part: "request_part y = request_part x \<Longrightarrow> sized x \<Longrightarrow> sized y"
  by (simp add: request_part_def sized_def)

lemma entries_ok_cong: "sessinfo s' = sessinfo s \<Longrightarrow> fdts s' = fdts s \<Longrightarrow> entries_ok s' = entries_ok s"
  by (simp add: entries_ok_def)

lemma entries_ok_updates [simp]:
  "entries_ok (s\<lparr>sessions := v\<rparr>) = entries_ok s" "entries_ok (s\<lparr>sessions := v, sess_brk := n\<rparr>) = entries_ok s"
  "entries_ok (s\<lparr>conns := c\<rparr>) = entries_ok s" "entries_ok (s\<lparr>perms := b\<rparr>) = entries_ok s"
  "entries_ok (s\<lparr>threads := ts\<rparr>) = entries_ok s" "entries_ok (s\<lparr>cnts := cs\<rparr>) = entries_ok s"
  "entries_ok (s\<lparr>tun := tn\<rparr>) = entries_ok s" "entries_ok (s\<lparr>epollfd := n'\<rparr>) = entries_ok s"
  "entries_ok (s\<lparr>p_sess := q\<rparr>) = entries_ok s"
  by (simp_all add: entries_ok_def)

lemma typed_upd: "typed s \<Longrightarrow> sessions s p \<noteq> None \<Longrightarrow> sized y \<Longrightarrow> typed (s\<lparr>sessions := (sessions s)(p \<mapsto> y)\<rparr>)"
  by (auto simp: typed_def)

lemma typed_view: "server_view typed"
  by (rule server_viewI) (simp add: typed_def entries_ok_def)

lemma typed_calls: "calls s s' \<Longrightarrow> typed s' = typed s"
  using typed_view unfolding calls_def server_view_def by metis

lemma typed_free: "typed s \<Longrightarrow> typed (s\<lparr>sessions := (sessions s)(p := None)\<rparr>)"
  and typed_others: "typed (s\<lparr>perms := b\<rparr>) = typed s" "typed (s\<lparr>threads := ts\<rparr>) = typed s"
  by (auto simp: typed_def)

text \<open>A new record; an entry for it; and an entry without its record.\<close>

lemma typed_new_fdt: "typed s \<Longrightarrow> typed (s\<lparr>fdts := (fdts s)(fdt_brk s \<mapsto> d), fdt_brk := Suc (fdt_brk s)\<rparr>)"
  by (auto simp: typed_def entries_ok_def less_Suc_eq) (metis less_irrefl option.discI)

lemma typed_open:
  assumes "typed s" "0 \<le> fd"
  shows "typed (s\<lparr>fdts := (fdts s)(fdt_brk s \<mapsto> \<lparr>fd_type = ty, fd_fd = fd\<rparr>), fdt_brk := Suc (fdt_brk s),
    sessinfo := (sessinfo s)[nat fd := \<lparr>fd_in = Some (fdt_brk s), ed_sess = v\<rparr>]\<rparr>)"
  using typed_new_fdt [OF assms(1), of "\<lparr>fd_type = ty, fd_fd = fd\<rparr>"] assms(2)
  by (cases "nat fd < length (sessinfo s)")
    (auto simp: typed_def entries_ok_def nth_list_update list_update_beyond split: if_splits)

definition cleared :: "int \<Rightarrow> server \<Rightarrow> server" where
  "cleared fd s = s\<lparr>fdts := (case fd_in (sessinfo s ! nat fd) of None \<Rightarrow> fdts s | Some f \<Rightarrow> (fdts s)(f := None)),
     sessinfo := (sessinfo s)[nat fd := \<lparr>fd_in = None, ed_sess = None\<rparr>]\<rparr>"

lemma entry_record:
  "typed s \<Longrightarrow> i < length (sessinfo s) \<Longrightarrow> fd_in (sessinfo s ! i) = Some f \<Longrightarrow> \<exists>d. fdts s f = Some d \<and> fd_fd d = int i"
  by (simp add: typed_def entries_ok_def)

lemma typed_cleared:
  assumes "typed s" "in_table fd s" shows "typed (cleared fd s)"
proof -
  have "\<exists>d. fdts (cleared fd s) f = Some d \<and> fd_fd d = int i"
    if i: "i < length (sessinfo s)" "i \<noteq> nat fd" "fd_in (sessinfo s ! i) = Some f" for i f
  proof -
    obtain d where d: "fdts s f = Some d" "fd_fd d = int i" using entry_record [OF assms(1) i(1,3)] by blast
    have "g \<noteq> f" if g: "fd_in (sessinfo s ! nat fd) = Some g" for g
    proof -
      obtain e where "fdts s g = Some e" "fd_fd e = int (nat fd)"
        using entry_record [OF assms(1) _ g] assms(2) by (auto simp: in_table_def)
      with d i(2) show ?thesis by (metis of_nat_eq_iff option.inject)
    qed
    with d show ?thesis by (auto simp: cleared_def split: option.split)
  qed
  note others = this
  have "entries_ok (cleared fd s)"
    unfolding entries_ok_def
  proof (intro allI impI)
    fix i f assume i: "i < length (sessinfo (cleared fd s))" "fd_in (sessinfo (cleared fd s) ! i) = Some f"
    then have "i < length (sessinfo s)" by (simp add: cleared_def)
    moreover from this i have "i \<noteq> nat fd" by (auto simp: cleared_def)
    moreover from this i have "fd_in (sessinfo s ! i) = Some f" by (simp add: cleared_def)
    ultimately show "\<exists>d. fdts (cleared fd s) f = Some d \<and> fd_fd d = int i" by (rule others)
  qed
  with assms(1) show ?thesis by (auto simp: typed_def cleared_def split: option.splits if_splits)
qed

interpretation typing: session_base types p for p
proof (unfold_locales, goal_cases)
  case (3 s s')
  then show ?case by (simp add: types_def typed_calls)
next
  case (4 s x y)
  then have "typed s \<Longrightarrow> sized y" using sized_request_part [of y x] by (auto simp: typed_def)
  with 4 show ?case by (simp add: types_def typed_upd)
qed (simp_all add: types_def typed_others)

lemma types_free_sess [keeps_intro]: "moves types (free_sess p)"
  unfolding free_sess_def by (rule keeps_intro | simp add: types_def typed_free)+

text \<open>
  The record of a session that is closed is freed, and its entry cleared, in two steps. The entries are
  good before and after, so the steps are taken together.
\<close>

lemma drop_entry_run:
  assumes "bind (get_info fd) (\<lambda>d. seq (free_fdt (fd_in d)) (seq (set_info fd \<lparr>fd_in = None, ed_sess = None\<rparr>) (ret n))) s
    = Some r"
  shows "final r = s \<or> in_table fd s \<and> final r = cleared fd s"
  using assms
  by (cases "in_table fd s")
    (auto simp: get_info_def free_fdt_def set_info_def bind_def seq_def gets_def modify_def lift_def stop_def ret_def
      in_table_def fd_index_def peek_at_def poke_at_def cleared_def split: option.splits if_splits)

lemma types_drop_entry [keeps_intro]:
  "moves types (bind (get_info fd) (\<lambda>d. seq (free_fdt (fd_in d)) (seq (set_info fd \<lparr>fd_in = None, ed_sess = None\<rparr>) (ret n))))"
  by (rule movesI, drule drop_entry_run) (auto simp: types_def typed_cleared)

lemma types_getfd_t: "moves types (getfd_t ty fd)"
  by (rule movesI) (simp add: getfd_t_def bind_def gets_def seq_def modify_def ret_def types_def typed_new_fdt)

lemma types_open:
  assumes "\<And>f. moves types (n f)"
  shows "moves types (bind (getfd_t ty fd) (\<lambda>f. seq (set_info fd \<lparr>fd_in = Some f, ed_sess = v\<rparr>) (n f)))"
proof (rule movesI)
  fix s :: server and r
  let ?s = "s\<lparr>fdts := (fdts s)(fdt_brk s \<mapsto> \<lparr>fd_type = ty, fd_fd = fd\<rparr>), fdt_brk := Suc (fdt_brk s)\<rparr>"
  let ?t = "?s\<lparr>sessinfo := (sessinfo s)[nat fd := \<lparr>fd_in = Some (fdt_brk s), ed_sess = v\<rparr>]\<rparr>"
  assume "bind (getfd_t ty fd) (\<lambda>f. seq (set_info fd \<lparr>fd_in = Some f, ed_sess = v\<rparr>) (n f)) s = Some r"
  then consider "r = Stop OutOfBounds ?s" | "0 \<le> fd" "n (fdt_brk s) ?t = Some r"
    by (cases "in_table fd s") (auto simp: getfd_t_def set_info_def bind_def seq_def gets_def modify_def lift_def
      stop_def ret_def in_table_def fd_index_def poke_at_def split: if_splits)
  then show "types s (final r)"
  proof cases
    case 1
    then show ?thesis by (simp add: types_def typed_new_fdt)
  next
    case 2
    with movesE [OF 2(2) assms] typed_open [of s fd v ty] show ?thesis by (simp add: types_def)
  qed
qed

lemma types_closeSess: "moves types (closeSess K p)"
  unfolding closeSess_def Let_def by (rule types_drop_entry keeps_intro)+

lemma types_do_pasv: "moves types (do_pasv K p)"
  unfolding do_pasv_def Let_def by (rule types_open keeps_intro)+

interpretation typing: session_code types p K for p K
  by unfold_locales (rule types_closeSess types_do_pasv)+

section \<open>The request line\<close>

text \<open>What a program returns, when it returns.\<close>

fun returns :: "('a \<Rightarrow> bool) \<Rightarrow> ('a, 's) outcome \<Rightarrow> bool" where
  "returns P (Go x s) = P x"
| "returns P (Stop e s) = True"

lemma returns_bind:
  "bind m n s = Some r \<Longrightarrow> (\<And>x s'. m s = Some (Go x s') \<Longrightarrow> n x s' = Some r \<Longrightarrow> returns P r) \<Longrightarrow> returns P r"
  by (auto elim: bind_cases)

abbreviation same_length :: "string \<Rightarrow> (int \<times> string, 's) outcome \<Rightarrow> bool" where
  "same_length b \<equiv> returns (\<lambda>(n, b'). length b' = length b)"

lemma lift_Go [simp]: "lift r s = Some (Go x s') \<longleftrightarrow> r = Inr x \<and> s' = s"
  by (cases r) (auto simp: stop_def ret_def)

lemma recv_peek_length: "recv_peek K fd b off len s = Some r \<Longrightarrow> same_length b r"
proof (erule recv_peek.raw_induct [rotated], goal_cases)
  case (1 f K fd b off len s r)
  then show ?case
    by (auto elim!: returns_bind dest!: blit_length simp: ret_def split: if_splits)
qed

lemma readn_loop_length: "readn_loop K fd cnt n off b s = Some r \<Longrightarrow> same_length b r"
proof (erule readn_loop.raw_induct [rotated], goal_cases)
  case (1 f K fd cnt n off b s r)
  then show ?case
    by (auto elim!: returns_bind dest!: blit_length simp: ret_def split: if_splits) fastforce+
qed

lemma recv_peek_Go: "recv_peek K fd b off len s = Some (Go (n, b') s') \<Longrightarrow> length b' = length b"
  using recv_peek_length [of K fd b off len s] by fastforce

lemma readn_Go: "readn K fd b off cnt s = Some (Go (n, b') s') \<Longrightarrow> length b' = length b"
  using readn_loop_length [of K fd cnt cnt off b s] by (fastforce simp: readn_def)

lemma readline_loop_length: "readline_loop K fd n tot off b s = Some r \<Longrightarrow> same_length b r"
proof (erule readline_loop.raw_induct [rotated], goal_cases)
  case (1 f K fd n tot off b s r)
  then show ?case
    by (auto elim!: returns_bind dest!: recv_peek_Go readn_Go simp: ret_def stop_def split: if_splits option.splits)
      fastforce+
qed

lemma readline_Go: "readline K fd b len s = Some (Go (n, b') s') \<Longrightarrow> length b' = length b \<and> calls s s'"
  using readline_loop_length [of K fd len 0 0 b s] movesE [OF _ keeps_sysutil(2)]
  by (fastforce simp: readline_def)

lemma trim_from_length [simp]: "length (trim_from n s) = length s"
  by (induction n arbitrary: s) simp_all

lemma str_trim_crlf_size: "str_trim_crlf b = Inr b' \<Longrightarrow> length b' = length b"
  by (auto simp: str_trim_crlf_def bnd_def split: sum.splits)

lemma str_copy_size:
  "strcpy a b = Inr a' \<Longrightarrow> length a' = length a" "strncpy a b n = Inr a' \<Longrightarrow> length a' = length a"
  by (auto simp: strcpy_def strncpy_def bnd_def split: sum.splits if_splits dest: blit_length)

lemma str_split_size: "str_split l a b c = Inr (a', b') \<Longrightarrow> length a' = length a \<and> length b' = length b"
  by (auto simp: str_split_def bnd_def split: sum.splits option.splits dest!: str_copy_size poke_at_length)

lemma str_upper_size: "str_upper b = Inr b' \<Longrightarrow> length b' = length b"
  by (induction b arbitrary: b') (auto simp: bnd_def split: if_splits sum.splits)

text \<open>A request fills the buffers of its session again; each piece fits where it came from.\<close>

definition ok :: "(server \<Rightarrow> ('a, server) outcome option) \<Rightarrow> server \<Rightarrow> bool" where
  "ok m s \<longleftrightarrow> (\<forall>r. m s = Some r \<longrightarrow> typed (final r))"

lemma ok_bind:
  assumes "ok m s" "\<And>x s'. m s = Some (Go x s') \<Longrightarrow> ok (n x) s'" shows "ok (bind m n) s"
  unfolding ok_def
proof (intro allI impI)
  fix r assume "bind m n s = Some r"
  then show "typed (final r)" using assms by (cases rule: bind_cases) (auto simp: ok_def)
qed

lemma ok_moves: "typed s \<Longrightarrow> moves types m \<Longrightarrow> ok m s"
  by (auto simp: ok_def types_def moves_def)

lemma ok_lift: "typed s \<Longrightarrow> (\<And>x. r = Inr x \<Longrightarrow> ok (n x) s) \<Longrightarrow> ok (bind (lift r) n) s"
  by (cases r) (auto simp: ok_def stop_def bind_def ret_def)

lemma ok_get: "typed s \<Longrightarrow> (\<And>x. sessions s p = Some x \<Longrightarrow> ok (n x) s) \<Longrightarrow> ok (bind (get_sess p) n) s"
  by (cases "sessions s p") (auto simp: ok_def get_sess_def bind_def gets_def lift_def deref_def stop_def ret_def)

lemma ok_upd:
  assumes "typed s" "\<And>x. sessions s p = Some x \<Longrightarrow> sized (f x)"
    and "\<And>x. sessions s p = Some x \<Longrightarrow> typed (s\<lparr>sessions := (sessions s)(p \<mapsto> f x)\<rparr>)
      \<Longrightarrow> ok m (s\<lparr>sessions := (sessions s)(p \<mapsto> f x)\<rparr>)"
  shows "ok (seq (upd_sess p f) m) s"
proof (cases "sessions s p")
  case None
  with assms(1) show ?thesis
    by (simp add: ok_def seq_def upd_sess_def get_sess_def bind_def gets_def lift_def deref_def stop_def)
next
  case (Some x)
  with assms have "ok m (s\<lparr>sessions := (sessions s)(p \<mapsto> f x)\<rparr>)" by (simp add: typed_upd)
  with Some show ?thesis
    by (simp add: ok_def seq_def upd_sess_def get_sess_def bind_def gets_def lift_def deref_def ret_def modify_def)
qed

lemma ok_stop: "typed s \<Longrightarrow> ok (stop e) s"
  by (simp add: ok_def stop_def)

lemma sized_session: "typed s \<Longrightarrow> sessions s p = Some x \<Longrightarrow> sized x"
  by (simp add: typed_def)

lemma readline_ok: "typed s \<Longrightarrow> ok (readline K fd b n) s" for s :: server
  by (rule ok_moves) (auto intro: keeps_intro)

lemma ok_if: "(b \<Longrightarrow> ok m s) \<Longrightarrow> (\<not> b \<Longrightarrow> ok n s) \<Longrightarrow> ok (if b then m else n) s"
  by simp

lemma ok_pair: "(\<And>x y. v = (x, y) \<Longrightarrow> ok (m x y) s) \<Longrightarrow> ok (case v of (x, y) \<Rightarrow> m x y) s"
  by (cases v) simp

lemma ok_dispatch: "typed s \<Longrightarrow> ok (seq (dispatch K p name) (ret n)) s"
  by (rule ok_moves) (auto intro!: keeps_intro)

lemma ok_close: "typed s \<Longrightarrow> ok (seq (closeSess K p) (ret n)) s"
  by (rule ok_moves) (auto intro!: keeps_intro)

lemma sized_update:
  "sized x \<Longrightarrow> length a = MAX_COMMAND \<Longrightarrow> sized (x\<lparr>cmdline := a\<rparr>)"
  "sized x \<Longrightarrow> length a = MAX_COMMAND \<Longrightarrow> length b = MAX_ARG \<Longrightarrow> sized (x\<lparr>cmd := a, arg := b\<rparr>)"
  "sized (x\<lparr>cmdline := zeros MAX_COMMAND, cmd := zeros MAX_COMMAND, arg := zeros MAX_ARG\<rparr>)"
  by (simp_all add: sized_def)

lemma session_sizes:
  "typed s \<Longrightarrow> sessions s p = Some x \<Longrightarrow> length (cmd x) = MAX_COMMAND"
  "typed s \<Longrightarrow> sessions s p = Some x \<Longrightarrow> length (arg x) = MAX_ARG"
  by (simp_all add: typed_def sized_def)

lemma ok_line:
  assumes "typed s" "length buf = MAX_COMMAND"
  shows "ok (seq (upd_sess p (\<lambda>x. x\<lparr>cmdline := buf\<rparr>)) (
     if n = - 1 then stop (Exit 1)
     else if n = 0 then seq (closeSess K p) (ret 0)
     else
       bind (lift (str_trim_crlf buf)) (\<lambda>line.
       seq (upd_sess p (\<lambda>x. x\<lparr>cmdline := line\<rparr>)) (
       bind (get_sess p) (\<lambda>x.
       bind (lift (str_split line (cmd x) (arg x) (CHR '' ''))) (\<lambda>(c, a).
       bind (lift (str_upper c)) (\<lambda>c.
       seq (upd_sess p (\<lambda>x. x\<lparr>cmd := c, arg := a\<rparr>)) (
       bind (lift (cstring c)) (\<lambda>name.
       seq (dispatch K p name) (ret STATUS_NONE)))))))))) s"
  using assms
  by (intro ok_upd ok_if ok_stop ok_close ok_lift ok_get ok_pair ok_dispatch)
    (auto intro!: sized_update dest: sized_session session_sizes
      dest!: str_trim_crlf_size str_split_size str_upper_size)

lemma moves_processCtrlRead: "moves types (processCtrlRead K p)"
proof (rule movesI)
  fix s r assume r: "processCtrlRead K p s = Some r"
  have "ok (processCtrlRead K p) s" if "typed s"
    unfolding processCtrlRead_def
  proof (intro ok_upd [OF that] ok_get ok_bind [OF readline_ok] ok_pair; (simp add: sized_update)?, goal_cases)
    case (1 x y v s1 n buf)
    then have "length buf = MAX_COMMAND \<and> typed s1" by (auto dest!: readline_Go simp: typed_calls)
    with ok_line [of s1 buf p n K] show ?case by (auto split: if_splits)
  qed
  with r show "types s (final r)" by (simp add: types_def ok_def)
qed

section \<open>The event loop\<close>

lemma types_processRead: "moves types (processRead K ed)"
  unfolding processRead_def by (rule keeps_intro moves_processCtrlRead)+

lemma lru_typed_upd: "upd_node q f c = Inr c' \<Longrightarrow> lru_typed c \<Longrightarrow> lru_typed c'"
  by (auto simp: upd_node_def lru_typed_def deref_def bnd_def split: option.splits sum.splits if_splits)

lemma lru_typed_link: "linkMRU q c = Inr c' \<Longrightarrow> lru_typed c \<Longrightarrow> lru_typed c'"
  by (auto simp: linkMRU_def bnd_def Let_def split: sum.splits option.splits if_splits dest!: lru_typed_upd)
    (auto simp: lru_typed_def)

lemma lru_typed_ends [simp]: "lru_typed (c\<lparr>pMRU := a\<rparr>) = lru_typed c" "lru_typed (c\<lparr>pLRU := a\<rparr>) = lru_typed c"
  by (simp_all add: lru_typed_def)

lemma lru_typed_unlink: "unlinkNode q c = Inr c' \<Longrightarrow> lru_typed c \<Longrightarrow> lru_typed c'"
  by (auto simp: unlinkNode_def bnd_def split: sum.splits option.splits dest!: lru_typed_upd)

lemma lru_typed_map: "set_map_fd fd v c = Inr c' \<Longrightarrow> lru_typed c \<Longrightarrow> lru_typed c'"
  by (auto simp: set_map_fd_def bnd_def lru_typed_def split: sum.splits dest: poke_at_length)

lemma lru_typed_free: "free_node q c = Inr c' \<Longrightarrow> lru_typed c \<Longrightarrow> lru_typed c'"
  by (auto simp: free_node_def lru_typed_def split: if_splits)

lemma lru_typed_refresh: "refreshTimeout fd now c = Inr (n, c') \<Longrightarrow> lru_typed c \<Longrightarrow> lru_typed c'"
  by (auto simp: refreshTimeout_def stamp_def bnd_def split: sum.splits option.splits
    dest!: lru_typed_upd lru_typed_unlink lru_typed_link)

lemma lru_typed_new: "lru_typed c \<Longrightarrow> lru_typed (snd (newToNode p t l r c))"
  by (auto simp: newToNode_def lru_typed_def)

lemma lru_typed_add: "addtoNode p fd t c = Inr c' \<Longrightarrow> lru_typed c \<Longrightarrow> lru_typed c'"
  using lru_typed_new [of c p "to_int32 t" None None]
  by (auto simp: addtoNode_def bnd_def split: sum.splits prod.splits dest!: lru_typed_link lru_typed_map)

lemma types_on_conns: "(\<And>c c'. f c = Inr c' \<Longrightarrow> lru_typed c \<Longrightarrow> lru_typed c') \<Longrightarrow> moves types (on_conns f)"
  by (rule movesI) (auto simp: on_conns_def gets_def modify_def types_def typed_def stop_def ret_def lift_def
    elim!: bind_cases split: sum.splits)

lemma types_globals [keeps_intro]:
  "types s (s\<lparr>cnts := c\<rparr>)" "types s (s\<lparr>tun := t\<rparr>)" "types s (s\<lparr>epollfd := n\<rparr>)" "types s (s\<lparr>p_sess := q\<rparr>)"
  by (simp_all add: types_def typed_def)

lemma types_new_sess [keeps_intro]: "sized x \<Longrightarrow> moves types (new_sess x)"
  by (rule movesI) (auto simp: new_sess_run types_def typed_def less_Suc_eq split: if_splits)

lemma sized_init [keeps_intro]: "sized init_session"
  by (simp add: sized_def init_session_def)

lemma types_on_cnts [keeps_intro]: "moves types (on_cnts f)"
  unfolding on_cnts_def by (rule keeps_intro)+

lemma types_get_node [keeps_intro]: "moves types (get_node q)"
  unfolding get_node_def by (rule keeps_intro)+

lemma typed_conns: "typed s \<Longrightarrow> lru_typed c \<Longrightarrow> typed (s\<lparr>conns := c\<rparr>)"
  by (simp add: typed_def)

lemma time_typed: "get_time_sec K s = Some r \<Longrightarrow> typed (final r) = typed s"
  by (rule typed_calls) (erule movesE, rule keeps_intro)

lemma types_refresh_conn [keeps_intro]: "moves types (refresh_conn K fd)"
proof (rule movesI)
  fix s r assume r: "refresh_conn K fd s = Some r"
  have c: "typed s \<Longrightarrow> lru_typed (conns s)" by (simp add: typed_def)
  show "types s (final r)"
    using r by (auto simp: refresh_conn_def types_def gets_def ret_def stop_def lift_def modify_def seq_def
      elim!: bind_cases split: sum.splits if_splits dest!: time_typed
      intro!: typed_conns lru_typed_refresh [OF _ c])
qed

lemma types_conns [keeps_intro]: "moves types (add_conn K p)" "moves types (removeToNode K q)"
  unfolding add_conn_def removeToNode_def
  by (rule keeps_intro types_on_conns, (elim lru_typed_add lru_typed_map lru_typed_unlink lru_typed_free; assumption)?)+

lemma types_expire_loop [keeps_intro]: "moves types (expire_loop K)"
  by (rule movesI, erule expire_loop.raw_induct [rotated], erule moves_loop)
    (rule keeps_intro | (rule movesI, blast))+

lemma types_waiting [keeps_intro]: "moves types (Epoll_wait K ep n t)" "moves types (epoll_wait_timeout K ep n)"
  unfolding epoll_wait_timeout_def Epoll_wait_def Let_def by (rule keeps_intro)+

lemma types_isValid [keeps_intro]: "moves types (isValid K p)"
  unfolding isValid_def by (rule keeps_intro)+

lemma types_connect: "moves types (upd_sess p (\<lambda>x. x\<lparr>num_clients := n, ctrl_fd := fd\<rparr>))"
  by (rule movesI) (auto simp: upd_sess_def get_sess_def gets_def lift_def stop_def ret_def modify_def deref_def
    types_def typed_def sized_def elim!: bind_cases split: option.splits if_splits)

lemma types_handleNewConn [keeps_intro]: "moves types (handleNewConn K fd ip)"
  unfolding handleNewConn_def beginSession_def handleChild_def by (rule types_connect types_open keeps_intro)+

lemma types_accept_loop [keeps_intro]: "moves types (accept_loop K listenfd)"
  by (rule movesI, erule accept_loop.raw_induct [rotated], erule moves_loop)
    (rule keeps_intro | (rule movesI, blast))+

lemma types_handle_event [keeps_intro]: "moves types (handle_event K listenfd ev)"
  unfolding handle_event_def Let_def processWrite_def by (rule keeps_intro types_processRead)+

lemma types_handle_events [keeps_intro]: "moves types (handle_events K listenfd es)"
  by (induction es) (simp_all add: keeps_intro)

lemma types_main_iter: "moves types (main_iter K listenfd)"
  unfolding main_iter_def by (rule keeps_intro)+

lemma types_main_init: "moves types (main_init K conf)"
  unfolding main_init_def Epoll_create_def by (rule types_open keeps_intro | simp add: request_part_def)+

lemma typed_init: "typed init_server"
  by (simp add: typed_def lru_typed_def init_lru_def entries_ok_def init_server_def)

interpretation typed_run: server_relation types K for K
  by unfold_locales (simp_all add: types_main_iter typing.moves_run_thread [OF refl] types_def typed_others)

lemma typed_reachable: "reachable K conf listenfd s \<Longrightarrow> typed s"
proof (induction rule: reachable.induct)
  case (started listenfd s)
  from movesE [OF started types_main_init] show ?case by (simp add: types_def typed_init)
next
  case (stepped listenfd s s')
  from typed_run.step [OF stepped(2)] stepped(3) show ?case by (simp add: types_def)
qed

text \<open>C5: in every state a started server gets into, whatever the clients send and the kernel
  answers: an entry of \<open>sessinfo\<close> that has a descriptor record has one that was not freed, and it is the
  record of the descriptor that the entry stands for, so that an event on a descriptor never finds a freed
  record or that of another descriptor. Each live session has its three buffers at their
  declared sizes, the two tables have theirs, and no session, record or node lives at or above the next address
  of its heap.\<close>

theorem reachable_well_typed:
  assumes "reachable K conf listenfd s"
  shows "(\<forall>i < MAX_SESSIONS. \<forall>f. fd_in (sessinfo s ! i) = Some f \<longrightarrow> (\<exists>d. fdts s f = Some d \<and> fd_fd d = int i))
    \<and> (\<forall>x \<in> ran (sessions s). length (cmdline x) = 32 \<and> length (cmd x) = 32 \<and> length (arg x) = 1024)
    \<and> length (sessinfo s) = MAX_SESSIONS \<and> length (map_fd_toNode (conns s)) = MAX_SESSIONS
    \<and> (\<forall>p \<ge> sess_brk s. sessions s p = None) \<and> (\<forall>f \<ge> fdt_brk s. fdts s f = None)
    \<and> (\<forall>q \<ge> lbrk (conns s). lnodes (conns s) q = None)"
proof -
  from typed_reachable [OF assms] have t: "typed s" .
  then have "sized x" if "x \<in> ran (sessions s)" for x using that by (auto simp: typed_def ran_def)
  moreover have "sessions s p = None" if "sess_brk s \<le> p" for p
    using t that by (cases "sessions s p") (fastforce simp: typed_def)+
  moreover have "fdts s f = None" if "fdt_brk s \<le> f" for f using t that by (fastforce simp: typed_def)
  moreover have "lnodes (conns s) q = None" if "lbrk (conns s) \<le> q" for q
    using t that by (fastforce simp: typed_def lru_typed_def)
  ultimately show ?thesis using t
    by (simp add: typed_def lru_typed_def sized_def MAX_COMMAND_def MAX_ARG_def entries_ok_def)
qed

text \<open>A server that has just been started: the entry of its listening socket has a record.\<close>

lemma started_entry:
  "wp (main_init (\<lambda>_ _. answer 0) (Some [])) (\<lambda>l s. l = 0 \<and> fd_in (sessinfo s ! 0) = Some 0) init_server"
proof -
  have "tunable_listen_address default_tunables = None" by (simp add: default_tunables_def)
  moreover have "load_lines (zeros 1024) [] default_tunables = Inr default_tunables" by (subst load_lines.simps) simp
  moreover have "fdt_brk init_server = 0" by (simp add: init_server_def)
  ultimately show ?thesis
    by (simp add: main_init_def parseconf_load_file_def tcp_server_def fail_exit_def Epoll_create_def
        addFdData_def setnonblocking_def in_table_def MAX_SESSIONS_def)
qed

theorem reachable_well_typed_witness:
  "\<exists>s d. reachable (\<lambda>_ _. answer 0) (Some []) 0 s \<and> fd_in (sessinfo s ! 0) = Some 0
     \<and> fdts s 0 = Some d \<and> fd_fd d = 0"
proof -
  obtain s where s: "main_init (\<lambda>_ _. answer 0) (Some []) init_server = Some (Go 0 s)" "fd_in (sessinfo s ! 0) = Some 0"
    using started_entry by (auto simp: wp_ex)
  then have r: "reachable (\<lambda>_ _. answer 0) (Some []) 0 s" by (blast intro: reachable.started)
  have "\<forall>i < MAX_SESSIONS. \<forall>f. fd_in (sessinfo s ! i) = Some f \<longrightarrow> (\<exists>d. fdts s f = Some d \<and> fd_fd d = int i)"
    using reachable_well_typed [OF r] by blast
  then have "\<exists>d. fdts s 0 = Some d \<and> fd_fd d = int 0" using s(2) MAX_SESSIONS_def by (metis zero_less_numeral)
  with r s(2) show ?thesis by auto
qed

end
