(* ===== verification/Tables.thy ===== *)
theory Tables
  imports Typing
begin

text \<open>
  The tables of the server over whole runs. A request and a worker leave tables that agree, unless
  the request closes its own session; so does an admission, and a timeout. A session that was closed
  by a request leaves its node in the list for good (\<open>dangling\<close>). Together: in every run of the
  server the tables agree, or a node of the list belongs to a session that is gone.
\<close>

section \<open>What holds when a program returns\<close>

definition wlp :: "('a, 's) prog \<Rightarrow> ('a \<Rightarrow> 's \<Rightarrow> bool) \<Rightarrow> 's \<Rightarrow> bool" where
  "wlp m Q s \<longleftrightarrow> (\<forall>x s'. m s = Some (Go x s') \<longrightarrow> Q x s')"

lemma wlp_ret [simp]: "wlp (ret x) Q s = Q x s"
  by (simp add: wlp_def ret_def)

lemma wlp_stop [simp]: "wlp (stop e) Q s"
  by (simp add: wlp_def stop_def)

lemma wlp_gets [simp]: "wlp (gets f) Q s = Q (f s) s"
  by (simp add: wlp_def gets_def)

lemma wlp_modify [simp]: "wlp (modify h) Q s = Q () (h s)"
  by (simp add: wlp_def modify_def)

lemma wlp_bind [simp]: "wlp (bind m f) Q s = wlp m (\<lambda>x. wlp (f x) Q) s"
  unfolding wlp_def bind_def by (cases "m s") (auto split: outcome.splits)

lemma wlp_seq [simp]: "wlp (seq m n) Q s = wlp m (\<lambda>_. wlp n Q) s"
  by (simp add: seq_def)

lemma wlp_lift [simp]: "wlp (lift r) Q s = (case r of Inl e \<Rightarrow> True | Inr x \<Rightarrow> Q x s)"
  by (cases r) simp_all

lemma wlp_if [simp]: "wlp (if b then m else n) Q s = (if b then wlp m Q s else wlp n Q s)"
  by simp

lemma wlp_onlyif [simp]: "wlp (onlyif b m) Q s = (if b then wlp m Q s else Q () s)"
  by (simp add: onlyif_def)

lemma wlp_mono: "wlp m P s \<Longrightarrow> (\<And>x s'. P x s' \<Longrightarrow> Q x s') \<Longrightarrow> wlp m Q s"
  by (simp add: wlp_def)

lemma wlp_moves: "moves R m \<Longrightarrow> (\<And>x s'. R s s' \<Longrightarrow> Q x s') \<Longrightarrow> wlp m Q s"
  unfolding wlp_def by (metis movesE final.simps(2))

lemma wlp_Go: "wlp m Q s \<Longrightarrow> m s = Some (Go x s') \<Longrightarrow> Q x s'"
  by (simp add: wlp_def)

lemma wlp_sys [simp]: "wlp (sys K c) Q s = Q (K (trace s) c) (after K c s)"
  by (simp add: wlp_def sys_run)

lemma wlp_call [simp]: "wlp (call K c) Q s = Q (rv (K (trace s) c)) (after K c s)"
  by (simp add: call_def)

lemma wlp_get_sess [simp]: "wlp (get_sess p) Q s = (case sessions s p of None \<Rightarrow> True | Some x \<Rightarrow> Q x s)"
  by (simp add: get_sess_def deref_def split: option.splits)

lemma wlp_upd_sess [simp]: "wlp (upd_sess p f) Q s = (case sessions s p of None \<Rightarrow> True
    | Some x \<Rightarrow> Q () (s\<lparr>sessions := (sessions s)(p \<mapsto> f x)\<rparr>))"
  by (simp add: upd_sess_def split: option.splits)

lemma wlp_new_sess [simp]: "wlp (new_sess x) Q s = Q (sess_brk s)
    (s\<lparr>sessions := (sessions s)(sess_brk s \<mapsto> x), sess_brk := Suc (sess_brk s)\<rparr>)"
  by (simp add: new_sess_def)

lemma wlp_free_sess [simp]: "wlp (free_sess p) Q s =
    (sessions s p \<noteq> None \<longrightarrow> Q () (s\<lparr>sessions := (sessions s)(p := None)\<rparr>))"
  by (simp add: free_sess_def)

lemma wlp_nonnull [simp]: "wlp (nonnull p) Q s = (case p of None \<Rightarrow> True | Some q \<Rightarrow> Q q s)"
  by (simp add: nonnull_def split: option.splits)

lemma wlp_getfd_t [simp]: "wlp (getfd_t type fd) Q s = Q (fdt_brk s)
    (s\<lparr>fdts := (fdts s)(fdt_brk s \<mapsto> \<lparr>fd_type = type, fd_fd = fd\<rparr>), fdt_brk := Suc (fdt_brk s)\<rparr>)"
  by (simp add: getfd_t_def)

lemma wlp_set_info [simp]: "wlp (set_info fd d) Q s =
    (in_table fd s \<longrightarrow> Q () (s\<lparr>sessinfo := (sessinfo s)[nat fd := d]\<rparr>))"
  by (auto simp: set_info_def in_table_def fd_index_def poke_at_def)

lemma wlp_on_conns [simp]:
  "wlp (on_conns f) Q s = (case f (conns s) of Inl e \<Rightarrow> True | Inr c \<Rightarrow> Q () (s\<lparr>conns := c\<rparr>))"
  by (simp add: on_conns_def split: sum.splits)

lemma wlp_on_cnts [simp]:
  "wlp (on_cnts f) Q s = (case f (cnts s) of Inl e \<Rightarrow> True | Inr (x, c) \<Rightarrow> Q x (s\<lparr>cnts := c\<rparr>))"
  by (simp add: on_cnts_def split: sum.splits)

lemma wlp_get_node [simp]:
  "wlp (get_node q) Q s = (case lnodes (conns s) q of None \<Rightarrow> True | Some n \<Rightarrow> Q n s)"
  by (simp add: get_node_def deref_def split: option.splits)

lemma wlp_get_time_sec [simp]: "wlp (get_time_sec K) Q s =
    (0 \<le> rv (K (trace s) SysGettimeofday) \<longrightarrow> Q (tv_sec (K (trace s) SysGettimeofday)) (ticked K s))"
  by (auto simp: get_time_sec_def ticked_def Let_def)

lemma wp_wlp: "wp m Q s \<Longrightarrow> wlp m Q s"
  by (auto simp: wp_ex wlp_def)

lemma wlp_get_info [simp]: "wlp (get_info fd) Q s = (in_table fd s \<longrightarrow> Q (sessinfo s ! nat fd) s)"
  by (auto simp: get_info_def in_table_def fd_index_def peek_at_def)

lemma wlp_free_fdt [simp]: "wlp (free_fdt q) Q s = (case q of None \<Rightarrow> Q () s
    | Some q \<Rightarrow> fdts s q \<noteq> None \<longrightarrow> Q () (s\<lparr>fdts := (fdts s)(q := None)\<rparr>))"
  by (simp add: free_fdt_def split: option.splits)

lemma wlp_close_fd:
  assumes "\<And>h e. map fst h = (if fd \<noteq> - 1 then [SysFd Close fd] else []) \<Longrightarrow> Q () (grow h e s)"
  shows "wlp (onlyif (fd \<noteq> - 1) (seq (call K (SysFd Close fd)) (ret ()))) Q s"
  by (rule wp_wlp, rule wp_close_fd) (rule assms)

lemma wlp_closeSess:
  assumes "\<And>x h e. sessions s p = Some x \<Longrightarrow> in_table (ctrl_fd x) s \<Longrightarrow>
    map fst h = map (SysFd Close) (open_fds x) \<Longrightarrow> Q 0 (grow h e (without p (ctrl_fd x) s))"
  shows "wlp (closeSess K p) Q s"
proof (cases "sessions s p")
  case (Some x)
  let ?c = "\<lambda>fd. onlyif (fd \<noteq> - 1) (seq (call K (SysFd Close fd)) (ret ()))"
  have closing: "wlp (?c (ctrl_fd x)) (\<lambda>_. wlp (?c (data_fd x)) (\<lambda>_. wlp (?c (pasv_listen_fd x)) P)) s"
    if P: "\<And>h e. map fst h = map (SysFd Close) (open_fds x) \<Longrightarrow> P () (grow h e s)" for P
    by (rule wlp_close_fd)+ (auto simp: open_fds_def intro!: P)
  have "wlp (seq (free_sess p) (bind (get_info (ctrl_fd x)) (\<lambda>d. seq (free_fdt (fd_in d))
      (seq (set_info (ctrl_fd x) \<lparr>fd_in = None, ed_sess = None\<rparr>) (ret 0))))) Q (grow h e s)"
    if "map fst h = map (SysFd Close) (open_fds x)" for h e
    using assms [OF Some _ that] by (auto simp: without_def split: option.splits)
  note rest = this
  show ?thesis
    unfolding closeSess_def wlp_bind [of "get_sess p"] wlp_get_sess Some option.case Let_def
      wlp_seq [of "onlyif _ _"]
    by (rule closing) (rule rest)
qed (simp add: closeSess_def)

lemma wlp_get_fdt [simp]: "wlp (get_fdt q) Q s = (case q of None \<Rightarrow> True
    | Some q \<Rightarrow> (case fdts s q of None \<Rightarrow> True | Some f \<Rightarrow> Q f s))"
  by (simp add: get_fdt_def deref_def split: option.splits)

text \<open>Calls leave the server as it was.\<close>

lemma calls_fields:
  fixes s s' :: server
  assumes "calls s s'"
  shows "sess_brk s' = sess_brk s" "fdts s' = fdts s" "fdt_brk s' = fdt_brk s" "sessinfo s' = sessinfo s"
    "conns s' = conns s" "cnts s' = cnts s" "tun s' = tun s" "threads s' = threads s"
proof -
  from assms have "rest s = rest s'" by (simp add: calls_def)
  note eq = rest_eqD [OF this]
  show "sess_brk s' = sess_brk s" "fdts s' = fdts s" "fdt_brk s' = fdt_brk s" "sessinfo s' = sessinfo s"
    "conns s' = conns s" "cnts s' = cnts s" "tun s' = tun s" "threads s' = threads s"
    by (subst eq, simp)+
qed

lemmas calls_server_simps = calls_server calls_fields

section \<open>The tables under a session\<close>

text \<open>
  What the code of the session \<open>p\<close> keeps, as long as the session is not closed: the control
  descriptor of the session, the entries of \<open>sessinfo\<close> for the descriptors \<open>C\<close>, and the records of
  descriptors that exist. PASV alone fills an entry, that of a new socket; it is treated apart.
\<close>

text \<open>The sessions that an event or a worker will come to.\<close>

definition users :: "server \<Rightarrow> nat set" where
  "users s = {p. \<exists>d \<in> set (sessinfo s). ed_sess d = Some p} \<union> owner ` set (threads s)"

lemma users_cong: "sessinfo s' = sessinfo s \<Longrightarrow> threads s' = threads s \<Longrightarrow> users s' = users s"
  by (simp add: users_def)

lemma users_updates [simp]:
  "users (s\<lparr>sessions := v\<rparr>) = users s" "users (s\<lparr>fdts := w, fdt_brk := n\<rparr>) = users s"
  "users (s\<lparr>fdts := w\<rparr>) = users s" "users (s\<lparr>conns := c\<rparr>) = users s" "users (s\<lparr>perms := m\<rparr>) = users s"
  "users (s\<lparr>threads := threads s @ [t]\<rparr>) = insert (owner t) (users s)"
  by (auto simp: users_def)

lemma users_info: "users (s\<lparr>sessinfo := (sessinfo s)[i := d]\<rparr>) \<subseteq> set_option (ed_sess d) \<union> users s"
  by (auto simp: users_def dest!: subsetD [OF set_update_subset_insert])

text \<open>The record of an entry of \<open>sessinfo\<close>, while it lives, is that of the descriptor of the entry.\<close>

definition filed :: "server \<Rightarrow> bool" where
  "filed s \<longleftrightarrow> (\<forall>i < length (sessinfo s). \<forall>f. fd_in (sessinfo s ! i) = Some f \<longrightarrow>
     f < fdt_brk s \<and> (\<forall>d. fdts s f = Some d \<longrightarrow> fd_fd d = int i))"

lemma filed_cong:
  "sessinfo s' = sessinfo s \<Longrightarrow> fdts s' = fdts s \<Longrightarrow> fdt_brk s' = fdt_brk s \<Longrightarrow> filed s' = filed s"
  by (simp add: filed_def)

lemma filed_updates [simp]:
  "filed (s\<lparr>sessions := v\<rparr>) = filed s" "filed (s\<lparr>conns := c\<rparr>) = filed s" "filed (s\<lparr>perms := m\<rparr>) = filed s"
  "filed (s\<lparr>threads := ts\<rparr>) = filed s"
  by (simp_all add: filed_def)

lemma filed_open:
  "filed s \<Longrightarrow> 0 \<le> fd \<Longrightarrow> filed (s\<lparr>fdts := (fdts s)(fdt_brk s \<mapsto> \<lparr>fd_type = ty, fd_fd = fd\<rparr>), fdt_brk := Suc (fdt_brk s),
     sessinfo := (sessinfo s)[nat fd := \<lparr>fd_in = Some (fdt_brk s), ed_sess = v\<rparr>]\<rparr>)"
  "filed s \<Longrightarrow> filed (s\<lparr>fdts := (fdts s)(fdt_brk s \<mapsto> d), fdt_brk := Suc (fdt_brk s)\<rparr>)"
  by (cases "nat fd < length (sessinfo s)")
    (auto simp: filed_def nth_list_update list_update_beyond less_Suc_eq split: if_splits)

definition kept :: "int set \<Rightarrow> nat \<Rightarrow> server \<Rightarrow> server \<Rightarrow> bool" where
  "kept C p s s' \<longleftrightarrow> map_option ctrl_fd (sessions s' p) = map_option ctrl_fd (sessions s p)
     \<and> (\<forall>fd \<in> C. 0 \<le> fd \<longrightarrow> sessinfo s' ! nat fd = sessinfo s ! nat fd)
     \<and> users s' \<subseteq> insert p (users s)
     \<and> fdt_brk s \<le> fdt_brk s' \<and> (\<forall>f < fdt_brk s. fdts s' f = fdts s f)
     \<and> ((\<forall>f \<ge> fdt_brk s. fdts s f = None) \<longrightarrow> (\<forall>f \<ge> fdt_brk s'. fdts s' f = None))
     \<and> (filed s \<longrightarrow> filed s')"

definition stays :: "int set \<Rightarrow> nat \<Rightarrow> server \<Rightarrow> server \<Rightarrow> bool" where
  "stays C p s s' \<longleftrightarrow> (\<exists>h. trace s' = trace s @ h) \<and> (sessions s' p \<noteq> None \<longrightarrow> kept C p s s')"

lemma kept_refl [simp]: "kept C p s s"
  by (auto simp: kept_def)

lemma kept_trans:
  assumes "kept C p s t" "kept C p t u" shows "kept C p s u"
proof -
  have "fdts u f = fdts s f" if "f < fdt_brk s" for f
    using assms that unfolding kept_def by (metis order_less_le_trans)
  then show ?thesis using assms unfolding kept_def by auto
qed

lemma kept_live: "kept C p s t \<Longrightarrow> sessions t p \<noteq> None \<Longrightarrow> sessions s p \<noteq> None"
  by (cases "sessions s p") (auto simp: kept_def)

lemma stays_trans: "stays C p s t \<Longrightarrow> stays C p t u \<Longrightarrow> stays C p s u"
  unfolding stays_def using kept_trans kept_live by (metis append_assoc)

lemma stays_kept: "kept C p s s' \<Longrightarrow> trace s' = trace s @ h \<Longrightarrow> stays C p s s'"
  by (simp add: stays_def)

lemma stays_same_trace: "kept C p s s' \<Longrightarrow> trace s' = trace s \<Longrightarrow> stays C p s s'"
  by (rule stays_kept [where h = "[]"]) simp_all

lemma kept_updates:
  "sessions s p = Some x \<Longrightarrow> ctrl_fd y = ctrl_fd x \<Longrightarrow> kept C p s (s\<lparr>sessions := (sessions s)(p \<mapsto> y)\<rparr>)"
  "kept C p s (s\<lparr>perms := b\<rparr>)" "owner t = p \<Longrightarrow> kept C p s (s\<lparr>threads := threads s @ [t]\<rparr>)"
  by (auto simp: kept_def)

lemma kept_calls: "calls s s' \<Longrightarrow> kept C p s s'"
  using users_cong [of s' s] filed_cong [of s' s] by (auto simp: kept_def calls_server_simps)

lemma stays_calls: "calls s s' \<Longrightarrow> stays C p s s'" for s s' :: server
  using calls_server(2) [of s s'] by (auto intro: stays_kept kept_calls)

interpretation staying: session_base "stays C p" p for C p
proof (unfold_locales, goal_cases)
  case (1 s)
  then show ?case by (simp add: stays_same_trace)
next
  case (2 s t u)
  then show ?case by (rule stays_trans)
next
  case (3 s s')
  then show ?case by (rule stays_calls)
next
  case (4 s x y)
  then show ?case by (simp add: stays_same_trace kept_updates request_part_def)
qed (simp_all add: stays_same_trace kept_updates)

text \<open>A session that is freed stays so; what the rest of \<open>closeSess\<close> does is of no account.\<close>

definition gone_too :: "nat \<Rightarrow> server \<Rightarrow> server \<Rightarrow> bool" where
  "gone_too p s s' \<longleftrightarrow> sessions s' p = sessions s p \<and> trace s' = trace s"

interpretation leaving: moving "gone_too p" for p
  by unfold_locales (auto simp: gone_too_def)

lemma leaving_info [keeps_intro]:
  "moves (gone_too p) (get_info fd)" "moves (gone_too p) (free_fdt ptr)" "moves (gone_too p) (set_info fd d)"
  unfolding get_info_def free_fdt_def set_info_def by (rule keeps_intro | simp add: gone_too_def)+

lemma stays_free_sess:
  assumes "moves (gone_too p) n" shows "moves (stays C p) (seq (free_sess p) n)"
proof (rule movesI)
  fix s r assume "seq (free_sess p) n s = Some r"
  then consider "r = Stop InvalidFree s" | "n (s\<lparr>sessions := (sessions s)(p := None)\<rparr>) = Some r"
    by (auto simp: seq_def free_sess_def bind_def gets_def modify_def stop_def split: if_splits)
  then show "stays C p s (final r)"
  proof cases
    case 1
    then show ?thesis by (simp add: staying.stay)
  next
    case 2
    from movesE [OF this assms] show ?thesis by (simp add: gone_too_def stays_def)
  qed
qed

lemma stays_closeSess: "moves (stays C p) (closeSess K p)"
  unfolding closeSess_def Let_def by (rule stays_free_sess keeps_intro)+

interpretation staying: session_rest "stays C p" p K for C p K
  by unfold_locales (rule stays_closeSess)

section \<open>Descriptors in use\<close>

text \<open>
  The descriptors that are in use after some calls, when those in \<open>C\<close> were in use before: a
  connection that \<open>accept\<close> took is in use until it is closed.
\<close>

fun using_now :: "int \<Rightarrow> syscall \<times> sysret \<Rightarrow> int set \<Rightarrow> int set" where
  "using_now l (SysFd Accept fd, r) C = (if fd = l \<and> 0 \<le> rv r then insert (rv r) C else C)"
| "using_now l (SysFd Close fd, r) C = C - {fd}"
| "using_now l _ C = C"

definition in_use :: "int \<Rightarrow> history \<Rightarrow> int set \<Rightarrow> int set" where
  "in_use l h = fold (using_now l) h"

lemma in_use_simps [simp]:
  "in_use l [] C = C" "in_use l (h @ h') C = in_use l h' (in_use l h C)"
  "in_use l (e # h) C = in_use l h (using_now l e C)"
  by (simp_all add: in_use_def)

lemma in_use_closes: "map fst h = map (SysFd Close) l \<Longrightarrow> in_use n h C = C - set l"
  by (induction l arbitrary: h C) (auto simp: Cons_eq_map_conv)

text \<open>Calls that neither accept nor close.\<close>

definition steady :: "server \<Rightarrow> server \<Rightarrow> bool" where
  "steady s s' \<longleftrightarrow> calls s s' \<and> (\<exists>h. trace s' = trace s @ h \<and> (\<forall>l C. in_use l h C = C))"

interpretation steadying: moving steady
proof (unfold_locales, goal_cases)
  case (1 s)
  then show ?case by (auto simp: steady_def calls_def)
next
  case (2 s t u)
  then obtain h h' where "trace t = trace s @ h" "\<forall>l C. in_use l h C = C" "trace u = trace t @ h'"
    "\<forall>l C. in_use l h' C = C" "calls s t" "calls t u" by (auto simp: steady_def)
  then show ?case unfolding steady_def by (intro conjI exI [of _ "h @ h'"] calling.trans [of s t u]) simp_all
qed

lemma calls_after: "calls s (after K c s)"
  by (simp add: calls_def rest_def)

lemma steady_after: "(\<And>l r C. using_now l (c, r) C = C) \<Longrightarrow> steady s (after K c s)"
  by (simp add: steady_def calls_after)

lemma steady_write_fd [keeps_intro]: "moves steady (write_fd K fd d)"
proof -
  have w: "moves steady (sys K (SysWrite fd d))" by (rule movesI) (auto simp: sys_run intro: steady_after)
  show ?thesis unfolding write_fd_def by (rule keeps_intro w)+
qed

lemma steady_writen_loop [keeps_intro]: "moves steady (writen_loop K fd cnt b)"
  by (rule movesI, erule writen_loop.raw_induct [rotated], erule moves_loop)
    (rule keeps_intro | (rule movesI, blast))+

lemma steady_reply: "moves steady (ftp_reply K p n t)"
  unfolding ftp_reply_def sprintf_def send_ctrl_def get_sess_def writen_def by (rule keeps_intro)+

lemma wlp_steady: "moves steady m \<Longrightarrow> (\<And>x s' h. calls s s' \<Longrightarrow> trace s' = trace s @ h \<Longrightarrow>
    (\<And>l C. in_use l h C = C) \<Longrightarrow> Q x s') \<Longrightarrow> wlp m Q s"
  by (erule wlp_moves) (auto simp: steady_def)

lemma steady_sys: "(\<And>l r C. using_now l (c, r) C = C) \<Longrightarrow> moves steady (sys K c)"
  using steady_after [of c] by (auto simp: moves_def sys_run)

lemma steady_call: "(\<And>l r C. using_now l (c, r) C = C) \<Longrightarrow> moves steady (call K c)"
  unfolding call_def by (intro keeps_intro steady_sys)

lemma steady_reads [keeps_intro]: "moves steady (read_fd K fd n)" "moves steady (peek_fd K fd n)"
  unfolding read_fd_def peek_fd_def by (rule keeps_intro steady_sys using_now.simps)+

lemma steady_recv_peek [keeps_intro]: "moves steady (recv_peek K fd b off len)"
  by (rule movesI, erule recv_peek.raw_induct [rotated], erule moves_loop)
    (rule keeps_intro | (rule movesI, blast))+

lemma steady_readn [keeps_intro]: "moves steady (readn K fd b off cnt)"
  unfolding readn_def by (rule movesI, erule readn_loop.raw_induct [rotated], erule moves_loop)
    (rule keeps_intro | (rule movesI, blast))+

lemma steady_readline [keeps_intro]: "moves steady (readline K fd b n)"
  unfolding readline_def by (rule movesI, erule readline_loop.raw_induct [rotated], erule moves_loop)
    (rule keeps_intro | (rule movesI, blast))+

lemma steady_getlocalip [keeps_intro]: "moves steady (getlocalip K ip)"
  unfolding getlocalip_def by (rule keeps_intro steady_sys steady_call using_now.simps)+

section \<open>A request, PASV among them\<close>

text \<open>
  After the calls \<open>T\<close> the kernel does not give the number of a descriptor of \<open>C\<close> to a new socket, as
  long as none of them is closed.
\<close>

definition new_sockets :: "kernel \<Rightarrow> history \<Rightarrow> int set \<Rightarrow> bool" where
  "new_sockets K T C \<longleftrightarrow> (\<forall>h. (\<forall>l D. in_use l h D = D) \<longrightarrow> rv (K (T @ h) SysSocket) \<notin> C)"

lemma new_sockets_later: "new_sockets K T C \<Longrightarrow> \<forall>l D. in_use l h D = D \<Longrightarrow> new_sockets K (T @ h) C"
  by (auto simp: new_sockets_def)

text \<open>The one entry of \<open>sessinfo\<close> that PASV fills is that of a new socket, with a new record.\<close>

lemma set_info_run: "set_info fd d s =
    Some (if in_table fd s then Go () (s\<lparr>sessinfo := (sessinfo s)[nat fd := d]\<rparr>) else Stop OutOfBounds s)"
  by (auto simp: set_info_def bind_def gets_def lift_def modify_def stop_def ret_def in_table_def fd_index_def
    poke_at_def)

lemma getfd_t_run: "getfd_t ty fd s = Some (Go (fdt_brk s)
    (s\<lparr>fdts := (fdts s)(fdt_brk s \<mapsto> \<lparr>fd_type = ty, fd_fd = fd\<rparr>), fdt_brk := Suc (fdt_brk s)\<rparr>))"
  by (simp add: getfd_t_def bind_def gets_def seq_def modify_def ret_def)

lemma kept_open:
  assumes "0 \<le> fd" "\<And>c. c \<in> C \<Longrightarrow> 0 \<le> c \<Longrightarrow> nat fd \<noteq> nat c"
  shows "kept C p s (s\<lparr>fdts := (fdts s)(fdt_brk s \<mapsto> \<lparr>fd_type = ty, fd_fd = fd\<rparr>), fdt_brk := Suc (fdt_brk s),
     sessinfo := (sessinfo s)[nat fd := \<lparr>fd_in = Some (fdt_brk s), ed_sess = Some p\<rparr>]\<rparr>)"
    "kept C p s (s\<lparr>fdts := (fdts s)(fdt_brk s \<mapsto> \<lparr>fd_type = ty, fd_fd = fd\<rparr>), fdt_brk := Suc (fdt_brk s)\<rparr>)"
  using assms filed_open
  by (auto simp: kept_def users_def dest!: subsetD [OF set_update_subset_insert])

lemma stays_open:
  assumes "fd \<notin> C" "\<And>f. moves (stays C p) (n f)"
  shows "moves (stays C p) (bind (getfd_t ty fd) (\<lambda>f. seq (set_info fd \<lparr>fd_in = Some f, ed_sess = Some p\<rparr>) (n f)))"
proof (rule movesI)
  let ?R = "stays C p"
  fix s :: server and r
  let ?s = "s\<lparr>fdts := (fdts s)(fdt_brk s \<mapsto> \<lparr>fd_type = ty, fd_fd = fd\<rparr>), fdt_brk := Suc (fdt_brk s)\<rparr>"
  let ?t = "?s\<lparr>sessinfo := (sessinfo s)[nat fd := \<lparr>fd_in = Some (fdt_brk s), ed_sess = Some p\<rparr>]\<rparr>"
  assume "bind (getfd_t ty fd) (\<lambda>f. seq (set_info fd \<lparr>fd_in = Some f, ed_sess = Some p\<rparr>) (n f)) s = Some r"
  then consider "\<not> in_table fd s" "r = Stop OutOfBounds ?s"
    | "in_table fd s" "n (fdt_brk s) ?t = Some r"
    by (cases "in_table fd s") (auto simp: bind_Go [OF getfd_t_run] seq_def bind_def set_info_run in_table_def)
  then show "?R s (final r)"
  proof cases
    case 1
    then show ?thesis by (auto simp: kept_def filed_open users_def intro!: stays_same_trace)
  next
    case 2
    from 2(1) assms(1) have "?R s ?t" using eq_nat_nat_iff
      by (intro stays_same_trace kept_open) (auto simp: in_table_def)
    with movesE [OF 2(2) assms(2)] show ?thesis by (rule stays_trans [rotated])
  qed
qed

lemma getDataLisPort_socket:
  "wlp (getDataLisPort K p) (\<lambda>_ s'. \<forall>x. sessions s' p = Some x \<longrightarrow>
     (\<exists>h. (\<forall>l D. in_use l h D = D) \<and> pasv_listen_fd x = rv (K (trace s @ h) SysSocket))) s"
    (is "wlp _ ?Q s")
proof -
  have sock: "wlp (tcp_server K host prt) (\<lambda>fd s'. fd = rv (K (trace s) SysSocket) \<and> calls s s') s"
    for host prt and s :: server
  proof -
    have "wlp (tcp_server K host prt) (\<lambda>fd s'. fd = rv (K (trace s) SysSocket)) s"
      unfolding tcp_server_def fail_exit_def by (simp split: option.split)
    then show ?thesis using keeps_sockets(1) unfolding wlp_def moves_def by fastforce
  qed
  let ?m = "\<lambda>ip. bind (tcp_server K (Some (cstr ip)) 0) (\<lambda>fd.
     seq (upd_sess p (\<lambda>x. x\<lparr>pasv_listen_fd := fd\<rparr>)) (
     bind (sys K (SysFd Getsockname fd)) (\<lambda>r.
     if rv r < 0 then stop (Exit 1) else ret (port r mod 65536))))"
  have "wlp (?m ip) ?Q s1" if "trace s1 = trace s @ h" "\<forall>l D. in_use l h D = D" for s1 ip h
    unfolding wlp_bind
    by (rule wlp_mono [OF sock]) (use that in \<open>auto split: option.splits\<close>)
  then have "wlp (case v of (_, ip) \<Rightarrow> ?m ip) ?Q s1"
    if "trace s1 = trace s @ h" "\<forall>l D. in_use l h D = D" for s1 h and v :: "int \<times> string"
    using that by (simp only: split_beta)
  then show ?thesis
    unfolding getDataLisPort_def wlp_bind [of "getlocalip _ _"] by (intro wlp_steady [OF steady_getlocalip]) blast
qed

lemma wlp_conj: "wlp m P s \<Longrightarrow> wlp m Q s \<Longrightarrow> wlp m (\<lambda>x s'. P x s' \<and> Q x s') s"
  by (simp add: wlp_def)

lemma stays_do_pasv:
  assumes new: "new_sockets K (trace s) C" shows "wlp (do_pasv K p) (\<lambda>_. stays C p s) s"
proof -
  have tail: "wlp (bind (get_sess p) (\<lambda>x.
       bind (getfd_t FDTYPEDATA (pasv_listen_fd x)) (\<lambda>fdt.
       seq (set_info (pasv_listen_fd x) \<lparr>fd_in = Some fdt, ed_sess = Some p\<rparr>) (
       bind (gets epollfd) (\<lambda>ep.
       seq (addFdData K ep (pasv_listen_fd x) (nat (pasv_listen_fd x)) False) (
       let v = scan_uints (CHR ''.'') 4 (cstr ip) in
       if length v < 4 then stop Uninitialised
       else bind (sprintf 1024 (pasv_text v prt)) (ftp_reply K p FTP_PASVOK))))))) (\<lambda>_. stays C p s) t"
    if t: "stays C p s t" "\<And>x. sessions t p = Some x \<Longrightarrow> pasv_listen_fd x \<notin> C" for t ip prt
  proof (cases "sessions t p")
    case (Some x)
    from t(2) [OF this] show ?thesis
      unfolding wlp_bind [of "get_sess p"] wlp_get_sess Some option.case Let_def
      by (intro wlp_moves [where R = "stays C p"] stays_open) (rule keeps_intro stays_trans [OF t(1)] | assumption)+
  qed simp
  have "wlp (getDataLisPort K p) (\<lambda>prt. wlp (bind (get_sess p) (\<lambda>x.
       bind (getfd_t FDTYPEDATA (pasv_listen_fd x)) (\<lambda>fdt.
       seq (set_info (pasv_listen_fd x) \<lparr>fd_in = Some fdt, ed_sess = Some p\<rparr>) (
       bind (gets epollfd) (\<lambda>ep.
       seq (addFdData K ep (pasv_listen_fd x) (nat (pasv_listen_fd x)) False) (
       let v = scan_uints (CHR ''.'') 4 (cstr ip) in
       if length v < 4 then stop Uninitialised
       else bind (sprintf 1024 (pasv_text v prt)) (ftp_reply K p FTP_PASVOK))))))) (\<lambda>_. stays C p s)) t"
    if t: "calls s t" "trace t = trace s @ h" "\<And>l D. in_use l h D = D" for t h ip
  proof (rule wlp_mono [OF wlp_conj [OF getDataLisPort_socket wlp_moves [OF staying.moves_getDataLisPort]]])
    show "stays C p t u" if "stays C p t u" for u using that .
    fix prt u assume u: "(\<forall>x. sessions u p = Some x \<longrightarrow>
       (\<exists>h. (\<forall>l D. in_use l h D = D) \<and> pasv_listen_fd x = rv (K (trace t @ h) SysSocket))) \<and> stays C p t u"
    have "new_sockets K (trace t) C" using new_sockets_later [OF new, of h] t(2,3) by simp
    moreover have "stays C p s u" using u stays_trans [OF stays_calls [OF t(1)]] by blast
    ultimately show "wlp (bind (get_sess p) (\<lambda>x.
       bind (getfd_t FDTYPEDATA (pasv_listen_fd x)) (\<lambda>fdt.
       seq (set_info (pasv_listen_fd x) \<lparr>fd_in = Some fdt, ed_sess = Some p\<rparr>) (
       bind (gets epollfd) (\<lambda>ep.
       seq (addFdData K ep (pasv_listen_fd x) (nat (pasv_listen_fd x)) False) (
       let v = scan_uints (CHR ''.'') 4 (cstr ip) in
       if length v < 4 then stop Uninitialised
       else bind (sprintf 1024 (pasv_text v prt)) (ftp_reply K p FTP_PASVOK))))))) (\<lambda>_. stays C p s) u"
      using u by (intro tail) (auto simp: new_sockets_def)
  qed
  then show ?thesis unfolding do_pasv_def wlp_bind [of "getlocalip _ _"]
    by (intro wlp_steady [OF steady_getlocalip]) (simp add: split_beta)
qed

text \<open>
  Up to its handler, a request neither accepts nor closes anything; so what PASV opens then is new.
\<close>

definition calm :: "int set \<Rightarrow> nat \<Rightarrow> server \<Rightarrow> server \<Rightarrow> bool" where
  "calm C p s s' \<longleftrightarrow> kept C p s s' \<and> (\<exists>h. trace s' = trace s @ h \<and> (\<forall>l D. in_use l h D = D))"

lemma calm_refl: "calm C p s s"
  by (simp add: calm_def exI [of _ "[]"])

lemma calm_trans:
  assumes "calm C p s t" "calm C p t u" shows "calm C p s u"
proof -
  obtain h h' where "trace t = trace s @ h" "trace u = trace t @ h'" "\<forall>l D. in_use l h D = D" "\<forall>l D. in_use l h' D = D"
    using assms by (auto simp: calm_def)
  then have "\<exists>h. trace u = trace s @ h \<and> (\<forall>l D. in_use l h D = D)" by (intro exI [of _ "h @ h'"]) simp
  moreover have "kept C p s u" using assms by (intro kept_trans [of C p s t u]) (simp_all add: calm_def)
  ultimately show ?thesis by (simp add: calm_def)
qed

lemma calm_stays: "calm C p s s' \<Longrightarrow> stays C p s s'"
  by (auto simp: calm_def intro: stays_kept)

lemma calm_steady: "moves steady m \<Longrightarrow> moves (calm C p) m"
  by (erule moves_weaken) (auto simp: steady_def calm_def kept_calls)

lemma calm_upd_sess: "(\<And>x. ctrl_fd (f x) = ctrl_fd x) \<Longrightarrow> moves (calm C p) (upd_sess p f)"
proof (rule movesI)
  fix s r assume f: "\<And>x. ctrl_fd (f x) = ctrl_fd x" and r: "upd_sess p f s = Some r"
  show "calm C p s (final r)"
  proof (cases "sessions s p")
    case (Some x)
    then have "final r = s\<lparr>sessions := (sessions s)(p \<mapsto> f x)\<rparr>" using r by auto
    with kept_updates(1) [OF Some f] show ?thesis by (simp add: calm_def exI [of _ "[]"])
  qed (use r in \<open>simp add: upd_sess_def get_sess_def bind_def gets_def lift_def deref_def stop_def, metis calm_refl final.simps(1)\<close>)
qed

definition settles :: "int set \<Rightarrow> nat \<Rightarrow> server \<Rightarrow> ('a, server) prog \<Rightarrow> bool" where
  "settles C p s m \<longleftrightarrow> (\<forall>t. calm C p s t \<longrightarrow> wlp m (\<lambda>_. stays C p s) t)"

lemma settles_bind:
  assumes "moves (calm C p) m" "\<And>x. settles C p s (n x)" shows "settles C p s (bind m n)"
  unfolding settles_def wlp_bind
proof (intro allI impI wlp_moves [OF assms(1)])
  fix t x s' assume "calm C p s t" "calm C p t s'"
  then show "wlp (n x) (\<lambda>_. stays C p s) s'" using assms(2) calm_trans by (metis settles_def)
qed

lemma settles_seq: "moves (calm C p) m \<Longrightarrow> settles C p s n \<Longrightarrow> settles C p s (seq m n)"
  by (simp add: seq_def settles_bind)

lemma settles_moves: assumes "moves (stays C p) m" shows "settles C p s m"
  unfolding settles_def
  by (intro allI impI wlp_moves [OF assms]) (erule stays_trans [OF calm_stays])

lemma settles_if: "(b \<Longrightarrow> settles C p s m) \<Longrightarrow> (\<not> b \<Longrightarrow> settles C p s n) \<Longrightarrow> settles C p s (if b then m else n)"
  by simp

lemma settles_prod: "(\<And>a b. settles C p s (m a b)) \<Longrightarrow> settles C p s (case v of (a, b) \<Rightarrow> m a b)"
  by (cases v) simp

lemma settles_dispatch:
  assumes new: "new_sockets K (trace s) C" shows "settles C p s (seq (dispatch K p name) (ret n))"
proof (cases "name = ''PASV''")
  case True
  have "wlp (do_pasv K p) (\<lambda>_. wlp (ret n) (\<lambda>_. stays C p s)) t" if t: "calm C p s t" for t
  proof -
    from t have "new_sockets K (trace t) C" using new_sockets_later [OF new] by (auto simp: calm_def)
    then show ?thesis
      by (rule wlp_mono [OF stays_do_pasv]) (simp add: stays_trans [OF calm_stays [OF t]])
  qed
  with True show ?thesis by (simp add: settles_def dispatch_PASV)
next
  case False
  then show ?thesis by (intro settles_moves keeps_intro staying.moves_dispatch_other)
qed

lemma settles_lift: "(\<And>x. settles C p s (n x)) \<Longrightarrow> settles C p s (bind (lift r) n)"
  by (cases r) (simp_all add: settles_def)

lemma settles_get_sess: "(\<And>x. settles C p s (n x)) \<Longrightarrow> settles C p s (bind (get_sess q) n)"
  by (auto simp: settles_def split: option.split)

lemmas settles_intro = settles_lift settles_get_sess settles_if settles_prod settles_dispatch

lemma settles_processCtrlRead:
  assumes "new_sockets K (trace s) C" shows "settles C p s (processCtrlRead K p)"
  unfolding processCtrlRead_def
  by (rule settles_intro settles_seq [OF calm_upd_sess] settles_bind [OF calm_steady [OF steady_readline]]
      settles_moves [OF staying.moves_stop] settles_moves [OF staying.moves_seq [OF stays_closeSess staying.moves_ret]]
      assms | simp)+

lemma stays_processRead:
  assumes "ed_sess ed = Some p" "new_sockets K (trace s) C"
  shows "wlp (processRead K ed) (\<lambda>_. stays C p s) s"
proof -
  have "wlp (processCtrlRead K p) (\<lambda>_. stays C p s) s"
    using settles_processCtrlRead [OF assms(2)] calm_refl by (simp add: settles_def)
  moreover have "wlp (processDataRead K p) (\<lambda>_. stays C p s) s"
    by (rule wlp_moves [OF staying.moves_processDataRead])
  ultimately show ?thesis using assms(1)
    by (auto simp: processRead_def staying.stay split: option.split)
qed

section \<open>Tables that agree, and who uses them\<close>

text \<open>
  The tables agree, and whoever an event or a worker will come to is gone, or is on the list.
\<close>

definition on_list :: "server \<Rightarrow> nat list \<Rightarrow> nat \<Rightarrow> bool" where
  "on_list s ps p \<longleftrightarrow> p < sess_brk s \<and> (sessions s p = None \<or> p \<in> sess_of s ` set ps)"

definition agree :: "server \<Rightarrow> nat list \<Rightarrow> bool" where
  "agree s ps \<longleftrightarrow> server_ok s ps \<and> filed s \<and> (\<forall>p \<in> users s. on_list s ps p)"

text \<open>The control descriptors of live sessions.\<close>

definition ctrls :: "server \<Rightarrow> int set" where
  "ctrls s = {fd. 0 \<le> fd \<and> (\<exists>p x. sessions s p = Some x \<and> ctrl_fd x = fd)}"

text \<open>
  The kernel does not hand out a control descriptor that is in use: as long as such a descriptor is not
  closed, neither \<open>socket\<close> nor \<open>accept\<close> returns it. (Those in use are the ones of live sessions, and
  those that \<open>accept\<close> gave since.)
\<close>

definition fresh_fds :: "kernel \<Rightarrow> int \<Rightarrow> server \<Rightarrow> bool" where
  "fresh_fds K listenfd s \<longleftrightarrow> (\<forall>h. rv (K (trace s @ h) SysSocket) \<notin> in_use listenfd h (ctrls s)
     \<and> rv (K (trace s @ h) (SysFd Accept listenfd)) \<notin> in_use listenfd h (ctrls s))"

lemma fresh_new_sockets: "fresh_fds K l s \<Longrightarrow> new_sockets K (trace s) (ctrls s)"
  unfolding fresh_fds_def new_sockets_def by metis

lemma node_ok_kept:
  assumes f: "frame p s' = frame p s" and k: "kept (ctrls s) p s s'"
    and fresh: "\<forall>f. fdts s f \<noteq> None \<longrightarrow> f < fdt_brk s" and n: "node_ok s q p' x"
  shows "\<exists>x'. node_ok s' q p' x'"
proof -
  have fd: "ctrl_fd x \<in> ctrls s" "0 \<le> ctrl_fd x" using n by (auto simp: ctrls_def node_ok_def fd_ok_def)
  have s': "conns s' = conns s" "\<And>r. r \<noteq> p \<Longrightarrow> sessions s' r = sessions s r"
    using f by (auto simp: frame_def fun_eq_iff split: if_splits)
  obtain f where info: "sessinfo s ! nat (ctrl_fd x) = \<lparr>fd_in = Some f, ed_sess = Some p'\<rparr>"
    "fdts s f = Some \<lparr>fd_type = FDTYPECTRL, fd_fd = ctrl_fd x\<rparr>" using n by (auto simp: node_ok_def)
  moreover have "sessinfo s' ! nat (ctrl_fd x) = sessinfo s ! nat (ctrl_fd x)" "fdts s' f = fdts s f"
    using k fd info(2) fresh by (auto simp: kept_def)
  moreover obtain x' where "sessions s' p' = Some x'" "ctrl_fd x' = ctrl_fd x"
    using n k s'(2) [of p'] by (cases "p' = p") (auto simp: node_ok_def kept_def)
  ultimately have "node_ok s' q p' x'" using n s'(1) by (auto simp: node_ok_def)
  then show ?thesis ..
qed

lemma agree_kept:
  assumes ok: "agree s ps" and f: "frame p s' = frame p s" and k: "kept (ctrls s) p s s'" and p: "on_list s ps p"
    and live: "sessions s' p \<noteq> None"
  shows "agree s' ps"
proof -
  have s': "conns s' = conns s" "\<And>r. r \<noteq> p \<Longrightarrow> sessions s' r = sessions s r" "sess_brk s' = sess_brk s"
    "length (sessinfo s') = length (sessinfo s)"
    using f by (auto simp: frame_def fun_eq_iff split: if_splits)
  have u: "users s' \<subseteq> insert p (users s)" using k by (simp add: kept_def)
  have so: "sess_of s' = sess_of s" using s'(1) by (simp add: sess_of_def fun_eq_iff)
  have on: "p < sess_brk s" "p \<in> sess_of s ` set ps" using p kept_live [OF k live] by (auto simp: on_list_def)
  have fresh: "\<forall>f. fdts s f \<noteq> None \<longrightarrow> f < fdt_brk s" using ok by (auto simp: agree_def server_ok_def)
  then have "f < fdt_brk s'" if "fdts s' f \<noteq> None" for f
    using that k unfolding kept_def by (metis linorder_not_le order_less_irrefl)
  moreover have "r < sess_brk s'" if "sessions s' r \<noteq> None" for r
    using that ok on s'(2) [of r] s'(3) by (cases "r = p") (auto simp: agree_def server_ok_def)
  ultimately have "server_ok s' ps"
    using ok s' node_ok_kept [OF f k fresh] by (fastforce simp: agree_def server_ok_def)
  moreover have "on_list s' ps r" if "r \<in> users s'" for r
    using subsetD [OF u that] ok on s'(2) [of r] s'(3) so by (cases "r = p") (auto simp: agree_def on_list_def)
  moreover have "filed s'" using ok k by (simp add: agree_def kept_def)
  ultimately show ?thesis by (auto simp: agree_def)
qed

text \<open>A session on the list that is gone: its node is still there.\<close>

definition dangling :: "server \<Rightarrow> bool" where
  "dangling s \<longleftrightarrow> (\<exists>q p t. payload (conns s) q = Some (p, t) \<and> p < sess_brk s \<and> sessions s p = None)"

lemma agree_dangling:
  assumes ok: "agree s ps" and f: "frame p s' = frame p s" and p: "on_list s ps p"
    and live: "sessions s p \<noteq> None" and gone: "sessions s' p = None"
  shows "dangling s'"
proof -
  have on: "p < sess_brk s" "p \<in> sess_of s ` set ps" using p live by (auto simp: on_list_def)
  then obtain q where q: "q \<in> set ps" "p = sess_of s q" by auto
  then obtain p' x where "node_ok s q p' x" using ok by (auto simp: agree_def server_ok_def)
  with q(2) obtain t where "payload (conns s) q = Some (p, t)" by (auto simp: node_ok_def sess_of_def)
  moreover have "conns s' = conns s" "sess_brk s' = sess_brk s" using f by (simp_all add: frame_def)
  ultimately show ?thesis using on(1) gone by (auto simp: dangling_def)
qed

end
