(* ===== verification/Dangling.thy ===== *)
theory Dangling
  imports Tables
begin

text \<open>
  A node of the list whose session is gone stays behind for good: no operation takes it from the
  list, since that needs the session; nodes keep their sessions, and sessions do not come back.
\<close>

section \<open>Nodes of the list\<close>

definition nodes_stay :: "lru \<Rightarrow> lru \<Rightarrow> bool" where
  "nodes_stay c c' \<longleftrightarrow> (lru_typed c \<longrightarrow> lru_typed c')
     \<and> (lru_typed c \<longrightarrow> (\<forall>q v. map_option fst (payload c q) = Some v \<longrightarrow> map_option fst (payload c' q) = Some v))"

lemma nodes_stay_refl [simp]: "nodes_stay c c"
  by (simp add: nodes_stay_def)

lemma nodes_stay_trans: "nodes_stay c d \<Longrightarrow> nodes_stay d e \<Longrightarrow> nodes_stay c e"
  by (simp add: nodes_stay_def)

lemma upd_node_stay: "upd_node q f c = Inr c' \<Longrightarrow> (\<And>n. nd_sess (f n) = nd_sess n) \<Longrightarrow> nodes_stay c c'"
  using lru_typed_upd [of q f c c']
  by (auto simp: upd_node_def nodes_stay_def payload_def deref_def bnd_def split: option.splits)

lemma ends_stay [simp]:
  "nodes_stay c (d\<lparr>pMRU := a\<rparr>) = nodes_stay c d" "nodes_stay c (d\<lparr>pLRU := a\<rparr>) = nodes_stay c d"
  "nodes_stay (c\<lparr>pMRU := a\<rparr>) d = nodes_stay c d" "nodes_stay (c\<lparr>pLRU := a\<rparr>) d = nodes_stay c d"
  by (simp_all add: nodes_stay_def payload_def)

lemma set_map_stay: "set_map_fd fd v c = Inr c' \<Longrightarrow> nodes_stay c c'"
  using lru_typed_map [of fd v c c']
  by (auto simp: set_map_fd_def bnd_def nodes_stay_def split: sum.splits)

lemma unlink_stay: "unlinkNode q c = Inr c' \<Longrightarrow> nodes_stay c c'"
  by (auto simp: unlinkNode_def bnd_def split: sum.splits option.splits
    intro: nodes_stay_trans dest!: upd_node_stay)

lemma link_stay: "linkMRU q c = Inr c' \<Longrightarrow> nodes_stay c c'"
  by (auto simp: linkMRU_def bnd_def Let_def split: sum.splits option.splits if_splits
    intro: nodes_stay_trans dest!: upd_node_stay)

lemma refresh_stay: "refreshTimeout fd now c = Inr (n, c') \<Longrightarrow> nodes_stay c c'"
  by (auto simp: refreshTimeout_def stamp_def bnd_def split: sum.splits option.splits
    intro: nodes_stay_trans dest!: upd_node_stay unlink_stay link_stay)

lemma new_stay: "nodes_stay c (snd (newToNode p t l r c))"
  using lru_typed_new [of c p t l r]
  by (auto simp: nodes_stay_def newToNode_def payload_def lru_typed_def)

lemma add_stay: "addtoNode p fd t c = Inr c' \<Longrightarrow> nodes_stay c c'"
  using new_stay [of c p "to_int32 t" None None]
  by (auto simp: addtoNode_def bnd_def split: sum.splits prod.splits
    intro: nodes_stay_trans dest!: link_stay set_map_stay)

section \<open>The server\<close>

definition sticky :: "server \<Rightarrow> server \<Rightarrow> bool" where
  "sticky s s' \<longleftrightarrow> (lru_typed (conns s) \<and> dangling s \<longrightarrow> lru_typed (conns s') \<and> dangling s')"

lemma sticky_view: "conns s' = conns s \<Longrightarrow> sess_brk s' = sess_brk s \<Longrightarrow>
    (\<And>p. sessions s p = None \<Longrightarrow> sessions s' p = None) \<Longrightarrow> sticky s s'"
  by (auto simp: sticky_def dangling_def)

interpretation sticking: session_store sticky p for p
proof (unfold_locales, goal_cases)
  case (2 s t u)
  then show ?case by (simp add: sticky_def)
next
  case (3 s s')
  then show ?case by (intro sticky_view) (simp_all add: calls_server_simps)
next
  case (4 s x y)
  then show ?case by (intro sticky_view) auto
qed (auto intro: sticky_view)

lemma sticky_upd_sess [keeps_intro]: "moves sticky (upd_sess p f)"
  by (rule movesI) (auto simp: upd_sess_def get_sess_def gets_def lift_def stop_def ret_def modify_def deref_def
    sticking.stay elim!: bind_cases intro!: sticky_view split: option.splits if_splits)

lemma sticky_on_conns: "(\<And>c c'. f c = Inr c' \<Longrightarrow> nodes_stay c c') \<Longrightarrow> moves sticky (on_conns f)"
  by (rule movesI) (fastforce simp: on_conns_def gets_def modify_def sticky_def dangling_def nodes_stay_def stop_def
    ret_def lift_def elim!: bind_cases split: sum.splits)

lemma sticky_globals [keeps_intro]: "sticky s (s\<lparr>cnts := c\<rparr>)"
  by (rule sticky_view) simp_all

lemma sticky_new_sess [keeps_intro]: "moves sticky (new_sess x)"
proof (rule movesI)
  fix s r assume "new_sess x s = Some r"
  then have r: "final r = s\<lparr>sessions := (sessions s)(sess_brk s \<mapsto> x), sess_brk := Suc (sess_brk s)\<rparr>"
    by (auto simp: new_sess_run)
  have "dangling (final r)" if d: "dangling s"
  proof -
    obtain q p t where "payload (conns s) q = Some (p, t)" "p < sess_brk s" "sessions s p = None"
      using d by (auto simp: dangling_def)
    then show ?thesis unfolding r dangling_def by (intro exI [of _ q] exI [of _ p]) auto
  qed
  then show "sticky s (final r)" by (auto simp: sticky_def r)
qed

lemma sticky_on_cnts [keeps_intro]: "moves sticky (on_cnts f)"
  unfolding on_cnts_def by (rule keeps_intro)+

lemma sticky_get_node [keeps_intro]: "moves sticky (get_node q)"
  unfolding get_node_def by (rule keeps_intro)+

lemma sticky_conns: "nodes_stay (conns s) c \<Longrightarrow> sticky s (s\<lparr>conns := c\<rparr>)"
  by (fastforce simp: sticky_def dangling_def nodes_stay_def)

lemma sticky_refresh_conn [keeps_intro]: "moves sticky (refresh_conn K fd)"
proof (rule movesI)
  fix s r assume r: "refresh_conn K fd s = Some r"
  have k: "calls s (final u)" if "get_time_sec K s = Some u" for u
    using that by (rule movesE) (rule keeps_intro)
  have t: "sticky s (final u)" if "get_time_sec K s = Some u" for u
    using k [OF that] by (rule sticking.kernel)
  have c: "sticky s (s'\<lparr>conns := c\<rparr>)" if "get_time_sec K s = Some (Go now s')" "refreshTimeout fd now (conns s) = Inr (n, c)"
    for s' now n c
  proof -
    have "sticky s s'" "conns s' = conns s"
      using k [OF that(1)] t [OF that(1)] by (simp_all add: calls_fields)
    with refresh_stay [OF that(2)] show ?thesis using sticky_conns [of s' c] sticking.trans by simp
  qed
  show "sticky s (final r)"
    using r by (auto simp: refresh_conn_def gets_def ret_def stop_def lift_def modify_def seq_def sticking.stay
      elim!: bind_cases split: sum.splits if_splits dest: t) (rule c)
qed

lemma sticky_add_conn [keeps_intro]: "moves sticky (add_conn K p)"
  unfolding add_conn_def by (rule keeps_intro sticky_on_conns | erule add_stay)+

lemma sticky_waiting [keeps_intro]: "moves sticky (Epoll_wait K ep n t)"
  unfolding Epoll_wait_def Let_def by (rule keeps_intro)+

lemma sticky_isValid [keeps_intro]: "moves sticky (isValid K p)"
  unfolding isValid_def by (rule keeps_intro)+

lemma sticky_handleNewConn [keeps_intro]: "moves sticky (handleNewConn K fd ip)"
  unfolding handleNewConn_def beginSession_def handleChild_def by (rule keeps_intro)+

lemma sticky_accept_loop [keeps_intro]: "moves sticky (accept_loop K listenfd)"
  by (rule movesI, erule accept_loop.raw_induct [rotated], erule moves_loop)
    (rule keeps_intro | (rule movesI, blast))+

lemma sticky_processRead [keeps_intro]: "moves sticky (processRead K ed)"
  unfolding processRead_def processCtrlRead_def by (rule keeps_intro)+

lemma sticky_handle_event: "moves sticky (handle_event K listenfd ev)"
  unfolding handle_event_def Let_def processWrite_def by (rule keeps_intro)+

lemma sticky_run_thread: "moves sticky (run_thread K t)"
  by (rule sticking.moves_run_thread [OF refl])

text \<open>A timeout does not get past the node either.\<close>

definition stuck :: "server \<Rightarrow> bool" where
  "stuck s \<longleftrightarrow> lru_typed (conns s) \<and> dangling s"

lemma wlp_sticky: "moves sticky m \<Longrightarrow> stuck s \<Longrightarrow> wlp m (\<lambda>_. stuck) s"
  using wlp_moves [of sticky m s "\<lambda>_. stuck"] by (simp add: sticky_def stuck_def)

lemma stuck_without:
  assumes "stuck s" "sessions s p \<noteq> None" "lnodes (conns s) q = Some n" "nd_sess n = p"
    and "conns s' = c" "sess_brk s' = sess_brk s" "sessions s' = (sessions s)(p := None)"
    and "nodes_stay (conns s) d" "free_node q d = Inr c"
  shows "stuck s'"
proof -
  obtain r p' t where d: "payload (conns s) r = Some (p', t)" "p' < sess_brk s" "sessions s p' = None"
    and ty: "lru_typed (conns s)" using assms(1) by (auto simp: stuck_def dangling_def)
  have "r \<noteq> q" using d assms(2-4) by (auto simp: payload_def)
  moreover obtain t' where "payload d r = Some (p', t')" using assms(8) d(1) ty by (auto simp: nodes_stay_def)
  ultimately have "payload c r = Some (p', t')" using assms(9) by (auto simp: free_node_def payload_def split: if_splits)
  moreover have "lru_typed c" using assms(8) ty lru_typed_free [OF assms(9)] by (simp add: nodes_stay_def)
  moreover have "p' \<noteq> p" using d(3) assms(2) by auto
  ultimately show ?thesis using d(2,3) assms(5-7) unfolding stuck_def dangling_def by auto
qed

lemma stuck_removeToNode: "stuck s \<Longrightarrow> wlp (removeToNode K q) (\<lambda>_. stuck) s"
proof -
  assume s: "stuck s"
  have "wlp (closeSess K (nd_sess n)) (\<lambda>_. wlp (seq (on_conns (unlinkNode q)) (on_conns (free_node q))) (\<lambda>_. stuck)) (s\<lparr>conns := c\<rparr>)"
    if n: "lnodes (conns s) q = Some n" and x: "sessions s (nd_sess n) = Some x" and c: "nodes_stay (conns s) c" for n x c
  proof (rule wlp_closeSess)
    fix y h e assume y: "sessions (s\<lparr>conns := c\<rparr>) (nd_sess n) = Some y"
    have "stuck (grow h e (without (nd_sess n) (ctrl_fd y) (s\<lparr>conns := d\<rparr>)))"
      if "unlinkNode q c = Inr u" "free_node q u = Inr d" for u d
      using nodes_stay_trans [OF c unlink_stay [OF that(1)]] x
      by (intro stuck_without [OF s _ n refl _ _ _ _ that(2)]) (auto simp: without_def split: option.splits)
    then show "wlp (seq (on_conns (unlinkNode q)) (on_conns (free_node q))) (\<lambda>_. stuck)
        (grow h e (without (nd_sess n) (ctrl_fd y) (s\<lparr>conns := c\<rparr>)))"
      by (auto split: sum.splits)
  qed
  then show ?thesis
    by (auto simp: removeToNode_def split: option.splits sum.splits dest: set_map_stay)
qed

lemma stuck_expire_loop: "stuck s \<Longrightarrow> wlp (expire_loop K) (\<lambda>_. stuck) s"
proof -
  define P where "P K s r \<longleftrightarrow> (stuck s \<longrightarrow> (\<forall>x s'. r = Go x s' \<longrightarrow> stuck s'))" for K :: kernel and s and r :: "(unit, server) outcome"
  have "P K s r" if "expire_loop K s = Some r" for s r
  proof (rule expire_loop.raw_induct [OF _ that, of P])
    fix f K s r
    assume IH: "\<And>K s r. f K s = Some r \<Longrightarrow> P K s r"
      and r: "bind (gets (\<lambda>s. pLRU (conns s))) (\<lambda>l. case l of None \<Rightarrow> ret ()
        | Some q \<Rightarrow> bind (get_time_sec K) (\<lambda>now.
            bind (gets (\<lambda>s. isTimeout (tunable_idle_session_timeout (tun s)) now q (conns s))) (\<lambda>b.
            bind (lift b) (\<lambda>b. if b then seq (removeToNode K q) (f K) else ret ())))) s = Some r"
    have f: "wlp (f K) (\<lambda>_. stuck) s" if "stuck s" for s using IH that by (auto simp: P_def wlp_def)
    have "stuck (ticked K s)" if "stuck s"
      using that by (auto simp: stuck_def dangling_def)
    then have "wlp (bind (gets (\<lambda>s. pLRU (conns s))) (\<lambda>l. case l of None \<Rightarrow> ret ()
        | Some q \<Rightarrow> bind (get_time_sec K) (\<lambda>now.
            bind (gets (\<lambda>s. isTimeout (tunable_idle_session_timeout (tun s)) now q (conns s))) (\<lambda>b.
            bind (lift b) (\<lambda>b. if b then seq (removeToNode K q) (f K) else ret ()))))) (\<lambda>_. stuck) s" if "stuck s"
      using that f by (auto split: option.split sum.split intro!: wlp_mono [OF stuck_removeToNode])
    with r show "P K s r" by (auto simp: P_def wlp_def)
  qed
  then show "stuck s \<Longrightarrow> wlp (expire_loop K) (\<lambda>_. stuck) s" by (auto simp: P_def wlp_def)
qed

end
