(* ===== verification/Runs.thy ===== *)
theory Runs
  imports Dangling
begin

text \<open>
  The tables of the server over whole runs: timeouts, admissions, requests and workers each leave
  tables that agree, unless a request closes its session. In every run the tables agree, and the
  next timeout meets no freed memory, or a node of the list belongs to a session that is gone.
\<close>

section \<open>Timeouts\<close>

definition seen :: "kernel \<Rightarrow> server \<Rightarrow> nat list \<Rightarrow> bool" where
  "seen K s ps \<longleftrightarrow> (\<forall>q \<in> set ps. node_time (conns s) q \<le> tv_sec (K (trace s) SysGettimeofday))"

definition in_order :: "kernel \<Rightarrow> server \<Rightarrow> bool" where
  "in_order K s \<longleftrightarrow> (\<exists>ps. agree s ps \<and> seen K s ps)"

lemma seen_later:
  assumes "clock_runs K" "seen K s ps" "trace s' = trace s @ h" "set ps' \<subseteq> set ps"
    and "\<And>q. q \<in> set ps' \<Longrightarrow> node_time (conns s') q = node_time (conns s) q"
  shows "seen K s' ps'"
  using assms unfolding seen_def clock_runs_def by (metis order_trans subsetD)

lemma agree_cong:
  assumes "sessions s' = sessions s" "sess_brk s' = sess_brk s" "fdts s' = fdts s" "fdt_brk s' = fdt_brk s"
    "sessinfo s' = sessinfo s" "conns s' = conns s" "threads s' = threads s"
  shows "agree s' ps = agree s ps"
  using assms users_cong [of s' s] filed_cong [of s' s]
  by (auto simp: agree_def server_ok_def node_ok_def sess_of_def on_list_def)

lemma in_order_calls: "clock_runs K \<Longrightarrow> calls s s' \<Longrightarrow> in_order K s \<Longrightarrow> in_order K s'"
  unfolding in_order_def using agree_cong [of s' s] seen_later [of K s _ s']
  by (metis calls_server_simps order_refl)

lemma calls_ticked: "calls s (ticked K s)"
  by (auto simp: calls_def ticked_def rest_def Let_def after_def)

text \<open>A connection at the end of the list is closed with its session.\<close>

lemma agree_without:
  assumes ok: "agree s (ps @ [q])" "node_ok s q p x"
    and s': "server_ok (grow h e (without p (ctrl_fd x) (s\<lparr>conns := c\<rparr>))) ps" (is "server_ok ?s ps")
    and c: "\<And>r. r \<noteq> q \<Longrightarrow> payload c r = payload (conns s) r"
  shows "agree ?s ps"
proof -
  have q: "q \<notin> set ps" using ok(1) by (auto simp: agree_def server_ok_def lru_inv_def dest: lru_rep_distinct)
  have u: "users ?s \<subseteq> users s"
    by (auto simp: users_def without_def dest!: subsetD [OF set_update_subset_insert] split: option.splits)
  have so: "sess_of ?s r = sess_of s r" if "r \<in> set ps" for r
    using that q c [of r] by (cases "r = q") (auto simp: sess_of_def)
  have "on_list ?s ps r" if r: "r \<in> users ?s" for r
  proof -
    have "r < sess_brk s \<and> (sessions s r = None \<or> r \<in> sess_of s ` set ps \<or> r = p)"
      using subsetD [OF u r] ok(1) node_ok_sess [OF ok(2)] by (auto simp: agree_def on_list_def)
    moreover have "sess_of ?s ` set ps = sess_of s ` set ps" using so by (rule image_cong [OF refl])
    ultimately show ?thesis by (auto simp: on_list_def without_def split: option.splits)
  qed
  moreover have "filed ?s"
  proof (cases "nat (ctrl_fd x) < length (sessinfo s)")
    case True
    with ok(1) show ?thesis
      by (auto simp: agree_def filed_def without_def nth_list_update split: option.splits if_splits)
  qed (use ok in \<open>auto simp: agree_def server_ok_def node_ok_def fd_ok_def\<close>)
  ultimately show ?thesis using s' by (simp add: agree_def)
qed

lemma expire_one:
  assumes K: "clock_runs K" and ok: "agree s (ps @ [q])" "seen K s (ps @ [q])"
  shows "\<exists>u. removeToNode K q (ticked K s) = Some (Go () u) \<and> agree u ps \<and> seen K u ps"
proof -
  let ?t = "ticked K s"
  obtain p x where n: "node_ok s q p x" using ok(1) by (auto simp: agree_def server_ok_def)
  have t: "agree ?t (ps @ [q])" "seen K ?t (ps @ [q])"
    using ok agree_cong [of ?t s] seen_later [OF K ok(2), of ?t]
    by (auto simp: calls_fields [OF calls_ticked] calls_server [OF calls_ticked])
  have "wp (removeToNode K q) (\<lambda>_ u. agree u ps \<and> seen K u ps) ?t"
  proof (rule wp_removeToNode)
    fix h e c
    let ?s = "grow h e (without p (ctrl_fd x) (?t\<lparr>conns := c\<rparr>))"
    assume ok': "server_ok ?s ps" and pay: "\<And>r. r \<noteq> q \<Longrightarrow> payload c r = payload (conns ?t) r"
    have q: "q \<notin> set ps" using ok(1) by (auto simp: agree_def server_ok_def lru_inv_def dest: lru_rep_distinct)
    have "agree ?s ps" using agree_without [OF t(1) _ ok' pay] n by simp
    moreover have "seen K ?s ps"
    proof (rule seen_later [OF K t(2), of _ h])
      show "node_time (conns ?s) r = node_time (conns ?t) r" if "r \<in> set ps" for r
        using that q pay [of r] by (cases "r = q") (auto simp: node_time_def)
    qed auto
    ultimately show "agree ?s ps \<and> seen K ?s ps" ..
  qed (use t(1) n in \<open>auto simp: agree_def\<close>)
  then show ?thesis by (auto simp: wp_ex)
qed

lemma get_time_sec_run: "get_time_sec K s = Some (
    if rv (K (trace s) SysGettimeofday) < 0 then Stop (Exit 1) (after K SysGettimeofday s)
    else Go (tv_sec (K (trace s) SysGettimeofday)) (ticked K s))"
  by (simp add: get_time_sec_def bind_def sys_run stop_def seq_def modify_def ret_def ticked_def Let_def)

text \<open>The loop closes connections from the end of the list; only the clock can stop it.\<close>

lemma expire_loop_outcome:
  assumes K: "clock_runs K"
  shows "agree s ps \<Longrightarrow> seen K s ps \<Longrightarrow> expire_loop K s = Some r \<Longrightarrow>
    (case r of Stop e t \<Rightarrow> e = Exit 1 | Go x t \<Rightarrow> in_order K t)"
proof (induction ps arbitrary: s rule: rev_induct)
  case Nil
  then have "lru_rep (conns s) []" by (simp add: agree_def server_ok_def lru_inv_def)
  then have "pLRU (conns s) = None" by (simp add: lru_rep_ends)
  then have "expire_loop K s = Some (Go () s)"
    by (subst expire_loop.simps) (simp add: bind_def gets_def ret_def)
  with Nil show ?case by (auto simp: in_order_def)
next
  case (snoc q ps)
  let ?t = "ticked K s"
  have rep: "lru_rep (conns s) (ps @ [q])" using snoc.prems(1) by (simp add: agree_def server_ok_def lru_inv_def)
  then have l: "pLRU (conns s) = Some q" by (simp add: lru_rep_ends)
  have t: "in_order K ?t"
    using snoc.prems in_order_calls [OF K calls_ticked] by (auto simp: in_order_def)
  obtain a b where "payload (conns s) q = Some (a, b)" using lru_rep_payload [OF rep, of q] by auto
  then obtain n where n: "lnodes (conns s) q = Some n" by (auto simp: payload_def)
  obtain u where u: "removeToNode K q ?t = Some (Go () u)" "agree u ps" "seen K u ps"
    using expire_one [OF K snoc.prems(1,2)] by blast
  note v = isTimeout_eq [OF rep refl n]
  have "r = Stop (Exit 1) (after K SysGettimeofday s) \<or> r = Go () ?t \<or> expire_loop K u = Some r"
    using snoc.prems(3) l v u(1)
    by (subst (asm) expire_loop.simps) (auto simp: bind_def gets_def get_time_sec_run seq_def ret_def split: if_splits)
  then show ?case using t snoc.IH [OF u(2,3)] by auto
qed

lemma expire_loop_agree: "clock_runs K \<Longrightarrow> in_order K s \<Longrightarrow> wlp (expire_loop K) (\<lambda>_. in_order K) s"
  unfolding in_order_def [of K s] wlp_def using expire_loop_outcome [of K s] by fastforce

section \<open>Admission\<close>

text \<open>The table of the list has no node for a descriptor that is not in use.\<close>

lemma node_unused:
  assumes "agree s ps" "fd_ok fd" "fd \<notin> ctrls s" shows "map_fd_toNode (conns s) ! nat fd = None"
proof (rule ccontr)
  assume "map_fd_toNode (conns s) ! nat fd \<noteq> None"
  then obtain q where q: "map_fd_toNode (conns s) ! nat fd = Some q" by auto
  have inv: "lru_inv (conns s) ps" using assms(1) by (simp add: agree_def server_ok_def)
  then have "Some q \<in> set (map_fd_toNode (conns s))"
    using q assms(2) by (metis lru_inv_def fd_ok_def nth_mem)
  with inv have "q \<in> set ps" by (simp add: lru_inv_def)
  then obtain p x where n: "node_ok s q p x" using assms(1) by (auto simp: agree_def server_ok_def)
  then have "nat fd = nat (ctrl_fd x)" "ctrl_fd x \<in> ctrls s"
    using q assms(2) by (auto simp: node_ok_def fd_ok_def ctrls_def)
  with n assms(2,3) show False by (auto simp: node_ok_def fd_ok_def eq_nat_nat_iff)
qed

lemma agree_admitted:
  assumes ok: "agree s ps" and fd: "fd_ok fd" "fd \<notin> ctrls s"
    and c: "lru_inv c (b # ps)" "b = lbrk (conns s)" "payload c = (payload (conns s))(b \<mapsto> (p, now))"
      "map_fd_toNode c = (map_fd_toNode (conns s))[nat fd := Some b]"
    and s': "conns s' = c" "sessions s' = (sessions s)(p \<mapsto> x)" "ctrl_fd x = fd" "p = sess_brk s"
      "sess_brk s' = Suc p" "fdts s' = (fdts s)(f \<mapsto> \<lparr>fd_type = FDTYPECTRL, fd_fd = fd\<rparr>)"
      "f = fdt_brk s" "fdt_brk s' = Suc f"
      "sessinfo s' = (sessinfo s)[nat fd := \<lparr>fd_in = Some f, ed_sess = Some p\<rparr>]" "threads s' = threads s"
  shows "agree s' (b # ps)" "ctrls s' \<subseteq> insert fd (ctrls s)"
proof -
  have ok': "server_ok s ps" using ok by (simp add: agree_def)
  have b: "b \<notin> set ps" using c(1) by (auto simp: lru_inv_def dest: lru_rep_distinct)
  have "sess_of s' b = p" by (simp add: sess_of_def s'(1) c(3))
  moreover have "sess_of s' r = sess_of s r" if "r \<in> set ps" for r
    using that b by (auto simp: sess_of_def s'(1) c(3))
  then have "sess_of s' ` set ps = sess_of s ` set ps" by (rule image_cong [OF refl])
  moreover have "users s' \<subseteq> insert p (users s)"
    by (auto simp: users_def s' dest!: subsetD [OF set_update_subset_insert])
  ultimately have "on_list s' (b # ps) r" if "r \<in> users s'" for r
    using that ok by (auto simp: agree_def on_list_def s'(2,4,5) less_Suc_eq)
  moreover have "server_ok s' (b # ps)"
    by (rule server_ok_admit [OF ok' fd(1) node_unused [OF ok fd] c s'(1-9)])
  moreover have "filed s'"
  proof -
    have "filed (s\<lparr>fdts := (fdts s)(fdt_brk s \<mapsto> \<lparr>fd_type = FDTYPECTRL, fd_fd = fd\<rparr>), fdt_brk := Suc (fdt_brk s),
       sessinfo := (sessinfo s)[nat fd := \<lparr>fd_in = Some (fdt_brk s), ed_sess = Some p\<rparr>]\<rparr>)"
      using ok fd by (intro filed_open) (auto simp: agree_def fd_ok_def)
    then show ?thesis by (subst filed_cong) (auto simp: s')
  qed
  ultimately show "agree s' (b # ps)" by (simp add: agree_def)
  show "ctrls s' \<subseteq> insert fd (ctrls s)" using s'(3) by (auto simp: ctrls_def s'(2) split: if_splits)
qed

text \<open>A connection that was refused leaves no trace.\<close>

lemma agree_refused:
  assumes ok: "agree s ps" and fd: "fd_ok fd" "fd \<notin> ctrls s"
    and s': "conns s' = conns s" "sessions s' = sessions s" "sess_brk s' = Suc (sess_brk s)"
      "fdts s' = (case fd_in (sessinfo s ! nat fd) of None \<Rightarrow> fdts s | Some f \<Rightarrow> (fdts s)(f := None))"
      "fdt_brk s' = fdt_brk s" "sessinfo s' = (sessinfo s)[nat fd := \<lparr>fd_in = None, ed_sess = None\<rparr>]"
      "threads s' = threads s"
  shows "agree s' ps"
proof -
  have len: "length (sessinfo s) = MAX_SESSIONS" using ok by (simp add: agree_def server_ok_def)
  have n: "node_ok s' q p x" if n: "node_ok s q p x" for q p x
  proof -
    obtain f where f: "fdts s f = Some \<lparr>fd_type = FDTYPECTRL, fd_fd = ctrl_fd x\<rparr>"
      "sessinfo s ! nat (ctrl_fd x) = \<lparr>fd_in = Some f, ed_sess = Some p\<rparr>" using n by (auto simp: node_ok_def)
    have ne: "ctrl_fd x \<noteq> fd" "nat fd \<noteq> nat (ctrl_fd x)"
      using n fd eq_nat_nat_iff by (auto simp: node_ok_def ctrls_def fd_ok_def)
    moreover have "fdts s' f = fdts s f"
    proof (cases "fd_in (sessinfo s ! nat fd)")
      case (Some g)
      then have "\<forall>d. fdts s g = Some d \<longrightarrow> fd_fd d = fd"
        using ok len fd(1) by (fastforce simp: agree_def filed_def fd_ok_def)
      with f ne have "g \<noteq> f" by auto
      with Some s'(4) show ?thesis by simp
    qed (simp add: s'(4))
    ultimately show ?thesis using n f by (simp add: node_ok_def s'(1,2,6))
  qed
  have sub: "\<And>g d. fdts s' g = Some d \<Longrightarrow> fdts s g = Some d"
    by (auto simp: s'(4) split: option.splits if_splits)
  have "\<forall>q \<in> set ps. \<exists>p x. node_ok s' q p x" using ok n unfolding agree_def server_ok_def by blast
  moreover have "g < fdt_brk s" if "fdts s' g \<noteq> None" for g
    using that sub [of g] ok by (auto simp: agree_def server_ok_def)
  moreover have "r < Suc (sess_brk s)" if "sessions s r \<noteq> None" for r
    using that ok less_SucI by (auto simp: agree_def server_ok_def)
  ultimately have "server_ok s' ps" using ok by (simp add: agree_def server_ok_def s'(1-3,5,6))
  moreover have "filed s'"
    unfolding filed_def s'(5,6) length_list_update
  proof (intro allI impI)
    fix i f assume i: "i < length (sessinfo s)" "fd_in ((sessinfo s)[nat fd := \<lparr>fd_in = None, ed_sess = None\<rparr>] ! i) = Some f"
    then have "fd_in (sessinfo s ! i) = Some f" by (cases "i = nat fd") (auto simp: nth_list_update)
    with i ok sub show "f < fdt_brk s \<and> (\<forall>d. fdts s' f = Some d \<longrightarrow> fd_fd d = int i)"
      by (auto simp: agree_def filed_def)
  qed
  moreover have "users s' \<subseteq> users s"
    by (auto simp: users_def s'(6,7) dest!: subsetD [OF set_update_subset_insert])
  moreover have "sess_of s' = sess_of s" by (simp add: sess_of_def s'(1) fun_eq_iff)
  ultimately show ?thesis using ok by (auto simp: agree_def on_list_def s'(2,3) less_Suc_eq)
qed

text \<open>After \<open>handleNewConn\<close>: the descriptor was in use before, and every control descriptor is.\<close>

definition admitted :: "kernel \<Rightarrow> int \<Rightarrow> server \<Rightarrow> server \<Rightarrow> bool" where
  "admitted K fd s s' \<longleftrightarrow> in_order K s' \<and> (\<exists>h. trace s' = trace s @ h
     \<and> (\<forall>l C. (0 \<le> fd \<longrightarrow> fd \<in> C) \<longrightarrow> ctrls s \<subseteq> C \<longrightarrow> ctrls s' \<subseteq> in_use l h C))"

lemma admittedI:
  assumes "fd_ok fd" "agree s' ps'" "seen K s' ps'" "trace s' = trace s @ h"
    and "\<And>l C. fd \<in> C \<Longrightarrow> ctrls s \<subseteq> C \<Longrightarrow> ctrls s' \<subseteq> in_use l h C"
  shows "admitted K fd s s'"
  using assms by (auto simp: admitted_def in_order_def fd_ok_def)

lemma admit_agree:
  assumes K: "clock_runs K" and ok: "agree s ps" "seen K s ps" and fd: "fd \<notin> ctrls s"
  shows "wlp (admit K (sess_brk s) fd ip) (\<lambda>_. admitted K fd s) (arrived fd s)"
proof -
  have inv: "lru_inv (conns s) ps" and len: "length (sessinfo s) = MAX_SESSIONS"
    using ok(1) by (auto simp: agree_def server_ok_def)
  have finish: "case addtoNode (sess_brk s) fd (tv_sec (K (trace t) SysGettimeofday)) (conns s) of
      Inl e \<Rightarrow> True | Inr c \<Rightarrow> admitted K fd s (ticked K t\<lparr>conns := c\<rparr>)"
    if t: "trace t = trace s @ h" "\<And>l C. in_use l h C = C" "conns t = conns s"
      "sessions t = (sessions s)(sess_brk s \<mapsto> x)" "ctrl_fd x = fd" "sess_brk t = Suc (sess_brk s)"
      "fdts t = (fdts s)(fdt_brk s \<mapsto> \<lparr>fd_type = FDTYPECTRL, fd_fd = fd\<rparr>)" "fdt_brk t = Suc (fdt_brk s)"
      "sessinfo t = (sessinfo s)[nat fd := \<lparr>fd_in = Some (fdt_brk s), ed_sess = Some (sess_brk s)\<rparr>]"
      "threads t = threads s" "fd_ok fd" for t x h
  proof -
    let ?now = "tv_sec (K (trace t) SysGettimeofday)"
    have seen: "node_time (conns s) q \<le> ?now" if "q \<in> set ps" for q
      using K ok(2) that t(1) unfolding clock_runs_def seen_def by (metis order_trans)
    have now: "int_time ?now" "to_int32 ?now = ?now"
      using K to_int32_id [of ?now] by (auto simp: clock_runs_def int_time_def) (metis order_trans neg_le_0_iff_le zero_le_numeral)+
    obtain c where c: "addtoNode (sess_brk s) fd ?now (conns s) = Inr c" "lru_inv c (lbrk (conns s) # ps)"
      "payload c = (payload (conns s))(lbrk (conns s) \<mapsto> (sess_brk s, ?now))"
      "map_fd_toNode c = (map_fd_toNode (conns s))[nat fd := Some (lbrk (conns s))]"
      using addtoNode_inv [OF inv _ _ now(1), of fd] seen t(11) by (auto simp: fd_ok_def)
    let ?s = "ticked K t\<lparr>conns := c\<rparr>"
    have f: "threads ?s = threads t" by (simp add: ticked_def Let_def)
    have "agree ?s (lbrk (conns s) # ps)" "ctrls ?s \<subseteq> insert fd (ctrls s)"
      by (rule agree_admitted [OF ok(1) t(11) fd c(2) refl c(3,4), where x = x and f = "fdt_brk s"];
        simp add: t f)+
    moreover have "seen K ?s (lbrk (conns s) # ps)"
      using seen K by (auto simp: seen_def node_time_def c(3) clock_runs_def intro: order_trans)
    moreover have "ctrls ?s \<subseteq> C" if "fd \<in> C" "ctrls s \<subseteq> C" for C
      using that calculation(2) by blast
    ultimately show ?thesis unfolding c(1) sum.case
      using admittedI [of fd ?s _ K s "h @ [(SysGettimeofday, K (trace t) SysGettimeofday)]"] by (simp add: t(1,2,11))
  qed
  have greet: "wlp (ftp_reply K (sess_brk s) n msg) (\<lambda>_. wlp (seq (add_conn K (sess_brk s)) (ret r)) (\<lambda>_. admitted K fd s)) u"
    if u: "trace u = trace s @ h" "\<And>l C. in_use l h C = C" "conns u = conns s"
      "sessions u = (sessions s)(sess_brk s \<mapsto> x)" "ctrl_fd x = fd" "sess_brk u = Suc (sess_brk s)"
      "fdts u = (fdts s)(fdt_brk s \<mapsto> \<lparr>fd_type = FDTYPECTRL, fd_fd = fd\<rparr>)" "fdt_brk u = Suc (fdt_brk s)"
      "sessinfo u = (sessinfo s)[nat fd := \<lparr>fd_in = Some (fdt_brk s), ed_sess = Some (sess_brk s)\<rparr>]"
      "threads u = threads s" "fd_ok fd" for u :: server and h x n msg and r :: int
  proof (rule wlp_steady [OF steady_reply])
    fix t g assume t: "calls u t" "trace t = trace u @ g" "\<And>l C. in_use l g C = C"
    note f = calls_fields [OF t(1)] calls_server(1) [OF t(1)]
    from finish [of t "h @ g" x] show "wlp (seq (add_conn K (sess_brk s)) (ret r)) (\<lambda>_. admitted K fd s) t"
      by (simp add: add_conn_def f u t(2,3) split: sum.splits)
  qed
  show ?thesis
    unfolding admit_def beginSession_def handleChild_def addFdData_def setnonblocking_def
    using len
    by (auto simp: arrived_def in_table_def fd_ok_def split: sum.split intro!: greet)
qed

lemma arrived_fields [simp]:
  "tun (arrived fd s) = tun s" "trace (arrived fd s) = trace s" "num_this_ip init_session = 0"
  by (simp_all add: arrived_def init_session_def)

lemma handleNewConn_agree:
  assumes K: "clock_runs K" and ok: "agree s ps" "seen K s ps" and fd: "0 \<le> fd \<Longrightarrow> fd \<notin> ctrls s"
  shows "wlp (handleNewConn K fd ip) (\<lambda>_. admitted K fd s) s"
proof -
  let ?p = "sess_brk s" and ?x = "init_session\<lparr>num_clients := s_children (cnts s), ctrl_fd := fd\<rparr>"
  have new: "sessions s ?p = None" using ok(1) by (auto simp: agree_def server_ok_def)
  have fd': "fd \<notin> ctrls s" using fd by (cases "0 \<le> fd") (auto simp: ctrls_def)
  have refused: "wlp (closeSess K ?p) (\<lambda>_. admitted K fd s) t"
    if t: "calls (arrived fd s) t" "trace t = trace s @ h" "\<And>l C. in_use l h C = C" for t h
  proof (rule wlp_closeSess)
    fix x and g :: history and e
    assume x: "sessions t ?p = Some x" "in_table (ctrl_fd x) t" and g: "map fst g = map (SysFd Close) (open_fds x)"
    have x': "x = ?x" using x(1) calls_server(1) [OF t(1)] by (simp add: arrived_def)
    note f = calls_fields [OF t(1)] calls_server(1) [OF t(1)]
    have "fd_ok fd" using x(2) ok(1) x' by (simp add: in_table_def f fd_ok_def agree_def server_ok_def arrived_def)
    let ?s = "grow g e (without ?p (ctrl_fd x) t)"
    have "agree ?s ps"
      using new by (intro agree_refused [OF ok(1) \<open>fd_ok fd\<close> fd'])
        (auto simp: x' f arrived_def without_def fun_eq_iff split: option.splits)
    moreover have "seen K ?s ps"
      by (rule seen_later [OF K ok(2), of _ "h @ g"]) (auto simp: f t(2) arrived_def)
    moreover have "sessions ?s = sessions s" using new by (simp add: f arrived_def fun_eq_iff)
    then have "ctrls ?s = ctrls s" by (simp add: ctrls_def)
    moreover have "open_fds x = [fd]" using \<open>fd_ok fd\<close> by (auto simp: x' open_fds_def init_session_def fd_ok_def)
    ultimately show "admitted K fd s ?s"
      using fd' g in_use_closes [of g "[fd]"] \<open>fd_ok fd\<close> by (elim admittedI [rotated]) (auto simp: t(2,3))
  qed
  have "wlp (isValid K ?p) (\<lambda>rc. wlp (if rc < 0 then ret rc else admit K ?p fd ip) (\<lambda>_. admitted K fd s)) (arrived fd s)"
    using admit_agree [OF K ok fd', of ip] refused
    by (auto simp: isValid_def TOOMANYCONNTOT_def intro!: wlp_steady [OF steady_reply] wlp_mono [OF refused])
  then show ?thesis unfolding wlp_bind [symmetric] unfolding wlp_def handleNewConn_eq .
qed

lemma accept_loop_step:
  assumes K: "clock_runs K" "fresh_fds K l s0"
    and IH: "\<And>t h. in_order K t \<Longrightarrow> trace t = trace s0 @ h \<Longrightarrow> ctrls t \<subseteq> in_use l h (ctrls s0) \<Longrightarrow>
      wlp (f K l) (\<lambda>_. in_order K) t"
    and s: "in_order K s" "trace s = trace s0 @ h" "ctrls s \<subseteq> in_use l h (ctrls s0)"
  shows "wlp (bind (sys K (SysFd Accept l)) (\<lambda>r.
     if rv r = - 1 then bind (gets errno) (\<lambda>e. if e = EAGAIN then ret () else stop (Exit 0))
     else seq (handleNewConn K (rv r) (num r)) (f K l))) (\<lambda>_. in_order K) s"
proof -
  let ?r = "K (trace s) (SysFd Accept l)" and ?t = "after K (SysFd Accept l) s"
  let ?e = "(SysFd Accept l, ?r)"
  have t: "in_order K ?t" using in_order_calls [OF K(1) calls_after s(1)] .
  then obtain ps where ps: "agree ?t ps" "seen K ?t ps" by (auto simp: in_order_def)
  have c: "ctrls ?t = ctrls s" by (simp add: ctrls_def)
  have new: "rv ?r \<notin> in_use l h (ctrls s0)" using K(2) s(2) by (simp add: fresh_fds_def)
  have "wlp (handleNewConn K (rv ?r) (num ?r)) (\<lambda>_. wlp (f K l) (\<lambda>_. in_order K)) ?t"
  proof (rule wlp_mono [OF handleNewConn_agree [OF K(1) ps]])
    show "rv ?r \<notin> ctrls ?t" using new s(3) c by blast
    fix x u assume "admitted K (rv ?r) ?t u"
    then obtain g where u: "in_order K u" "trace u = trace ?t @ g"
      and cu: "\<And>C. (0 \<le> rv ?r \<Longrightarrow> rv ?r \<in> C) \<Longrightarrow> ctrls ?t \<subseteq> C \<Longrightarrow> ctrls u \<subseteq> in_use l g C"
      by (auto simp: admitted_def)
    show "wlp (f K l) (\<lambda>_. in_order K) u"
    proof (rule IH [OF u(1), of "h @ [?e] @ g"])
      show "trace u = trace s0 @ h @ [?e] @ g" using u(2) s(2) by simp
      show "ctrls u \<subseteq> in_use l (h @ [?e] @ g) (ctrls s0)"
        by (simp only: in_use_simps, rule cu) (use s(3) c in auto)
    qed
  qed
  with t show ?thesis by simp
qed

lemma wlp_accept_loop:
  assumes K: "clock_runs K" "fresh_fds K l s0" and s: "in_order K s0"
  shows "wlp (accept_loop K l) (\<lambda>_. in_order K) s0"
proof -
  define P where "P K' l' s r \<longleftrightarrow> (K' = K \<and> l' = l \<and> in_order K s \<and>
    (\<exists>h. trace s = trace s0 @ h \<and> ctrls s \<subseteq> in_use l h (ctrls s0)) \<longrightarrow> (\<forall>x s'. r = Go x s' \<longrightarrow> in_order K s'))"
    for K' l' s and r :: "(unit, server) outcome"
  have "P K l s r" if "accept_loop K l s = Some r" for s r
  proof (rule accept_loop.raw_induct [OF _ that, of P])
    fix f K' l' s r
    assume IH: "\<And>K l s r. f K l s = Some r \<Longrightarrow> P K l s r"
      and r: "bind (sys K' (SysFd Accept l')) (\<lambda>r. if rv r = - 1
        then bind (gets errno) (\<lambda>e. if e = EAGAIN then ret () else stop (Exit 0))
        else seq (handleNewConn K' (rv r) (num r)) (f K' l')) s = Some r"
    show "P K' l' s r"
      unfolding P_def
    proof (intro impI allI, elim conjE exE)
      fix x s' h
      assume "r = Go x s'" "K' = K" "l' = l" "in_order K s" "trace s = trace s0 @ h" "ctrls s \<subseteq> in_use l h (ctrls s0)"
      with r wlp_Go [OF accept_loop_step [OF K, of f s h]] IH show "in_order K s'"
        by (auto simp: P_def wlp_def)
    qed
  qed
  then show ?thesis using s by (auto simp: P_def wlp_def)
qed

section \<open>Events\<close>

text \<open>A request moves the connection to the front of the list, and the tables still agree.\<close>

lemma refresh_agree:
  assumes K: "clock_runs K" and ok: "agree s ps" "seen K s ps"
  shows "wlp (refresh_conn K fd) (\<lambda>_ s'. \<exists>ps'. agree s' ps' \<and> seen K s' ps' \<and> users s' = users s
    \<and> ctrls s' = ctrls s \<and> (\<exists>h. trace s' = trace s @ h \<and> (\<forall>l D. in_use l h D = D))) s"
proof (cases "fd_ok fd \<and> map_fd_toNode (conns s) ! nat fd \<noteq> None")
  case False
  have "length (map_fd_toNode (conns s)) = MAX_SESSIONS" using ok(1) by (simp add: agree_def server_ok_def lru_inv_def)
  with False ok show ?thesis
    by (auto simp: refresh_conn_def fd_index_def peek_at_def fd_ok_def bnd_def intro!: exI [of _ ps] exI [of _ "[] :: history"])
next
  case True
  then obtain q where q: "map_fd_toNode (conns s) ! nat fd = Some q" by auto
  have inv: "lru_inv (conns s) ps" using ok(1) by (simp add: agree_def server_ok_def)
  let ?now = "tv_sec (K (trace s) SysGettimeofday)"
  have now: "int_time ?now" "\<forall>q \<in> set ps. node_time (conns s) q \<le> ?now"
    using K ok(2) by (auto simp: clock_runs_def int_time_def seen_def intro: order_trans [of _ 0])
  obtain c where c: "refreshTimeout fd ?now (conns s) = Inr (0, c)" "lru_inv c (q # remove1 q ps)"
    "node_time c = (node_time (conns s))(q := ?now)" "lru_view c = lru_view (conns s)"
    using refreshTimeout_inv [OF inv _ _ q now] True by (auto simp: fd_ok_def)
  have "Some q \<in> set (map_fd_toNode (conns s))"
    using q True inv by (metis lru_inv_def fd_ok_def nth_mem)
  then have ps: "set (q # remove1 q ps) = set ps"
    using inv by (auto simp: lru_inv_def dest: lru_rep_distinct notin_set_remove1)
  let ?s = "ticked K s\<lparr>conns := c\<rparr>"
  have f: "threads ?s = threads s" by (simp add: ticked_def Let_def)
  note v = lru_viewD [OF c(4)]
  have n: "node_ok ?s r p x = node_ok s r p x" for r p x by (simp add: node_ok_def v)
  have "sess_of ?s r = sess_of s r" for r
    using v(4) [of r] by (cases "payload c r"; cases "payload (conns s) r") (auto simp: sess_of_def)
  then have "sess_of ?s = sess_of s" by blast
  then have "agree ?s (q # remove1 q ps)"
    using ok(1) c(2) f users_cong [of ?s s] filed_cong [of ?s s]
    by (simp add: agree_def server_ok_def n ps on_list_def del: set_simps)
  moreover have "seen K ?s (q # remove1 q ps)"
    using now(2) K unfolding seen_def ps by (auto simp: c(3) clock_runs_def intro: order_trans)
  moreover have "users ?s = users s" "ctrls ?s = ctrls s" using f by (auto simp: users_def ctrls_def)
  moreover have "\<exists>h. trace ?s = trace s @ h \<and> (\<forall>l D. in_use l h D = D)"
    by (intro exI [of _ "[(SysGettimeofday, K (trace s) SysGettimeofday)]"]) simp
  ultimately have "\<exists>ps'. agree ?s ps' \<and> seen K ?s ps' \<and> users ?s = users s \<and> ctrls ?s = ctrls s
      \<and> (\<exists>h. trace ?s = trace s @ h \<and> (\<forall>l D. in_use l h D = D))" by blast
  then show ?thesis using c(1) True
    by (auto simp: refresh_conn_def fd_index_def peek_at_def fd_ok_def bnd_def split: if_splits)
qed

text \<open>The tables agree, or a node of the list belongs to a session that is gone.\<close>

definition settled :: "kernel \<Rightarrow> server \<Rightarrow> bool" where
  "settled K s \<longleftrightarrow> in_order K s \<or> dangling s"

lemma settled_calls: "clock_runs K \<Longrightarrow> calls s s' \<Longrightarrow> settled K s \<Longrightarrow> settled K s'"
  by (auto simp: settled_def in_order_calls dangling_def calls_server_simps)

text \<open>What the code of a session leaves, when the session was alive.\<close>

lemma settled_session:
  assumes K: "clock_runs K" and ok: "agree s ps" "seen K s ps" "on_list s ps p"
    and m: "wlp m (\<lambda>_. stays (ctrls s) p s) s" "keeps (frame p) m"
    and dead: "sessions s p = None \<Longrightarrow> wlp m Q s" and Q: "\<And>x s'. settled K s' \<Longrightarrow> Q x s'"
  shows "wlp m Q s"
proof (cases "sessions s p = None")
  case False
  show ?thesis
    unfolding wlp_def
  proof (intro allI impI)
    fix x s' assume r: "m s = Some (Go x s')"
    have f: "frame p s' = frame p s" and st: "stays (ctrls s) p s s'"
      using movesE [OF r m(2)] wlp_Go [OF m(1) r] by simp_all
    show "Q x s'"
    proof (cases "sessions s' p = None")
      case True
      with agree_dangling [OF ok(1) f ok(3) False] show ?thesis by (simp add: Q settled_def)
    next
      case live: False
      then have "kept (ctrls s) p s s'" using st by (simp add: stays_def)
      from agree_kept [OF ok(1) f this ok(3) live] have "agree s' ps" .
      moreover obtain h where "trace s' = trace s @ h" using st by (auto simp: stays_def)
      then have "seen K s' ps" using f by (intro seen_later [OF K ok(2)]) (auto simp: frame_def)
      ultimately have "settled K s'" by (auto simp: settled_def in_order_def)
      then show ?thesis by (rule Q)
    qed
  qed
qed (rule dead)

lemma dead_session:
  assumes "sessions s p = None"
  shows "wlp (processCtrlRead K p) Q s" "wlp (processDataRead K p) Q s" "wlp (closeSess K p) Q s"
    "wlp (threadRetr K p) Q' s" "wlp (upload_common K p a) Q' s"
  using assms
  by (simp_all add: processCtrlRead_def processDataRead_def closeSess_def threadRetr_def upload_common_def)

lemma dead_processRead: "ed_sess ed = Some p \<Longrightarrow> sessions s p = None \<Longrightarrow> wlp (processRead K ed) Q s"
  by (simp add: processRead_def dead_session split: option.splits)

lemma nobody_processRead: "ed_sess ed = None \<Longrightarrow> wlp (processRead K ed) Q s"
  by (simp add: processRead_def split: option.splits)

lemma dead_thread: "owner t = p \<Longrightarrow> sessions s p = None \<Longrightarrow> wlp (run_thread K t) Q s"
  by (cases t) (simp_all add: run_thread_def dead_session)

lemma settled_processRead:
  assumes "clock_runs K" "agree s ps" "seen K s ps" "new_sockets K (trace s) (ctrls s)"
    and "\<And>p. ed_sess ed = Some p \<Longrightarrow> p \<in> users s" and Q: "\<And>x s'. settled K s' \<Longrightarrow> Q x s'"
  shows "wlp (processRead K ed) Q s"
proof (cases "ed_sess ed")
  case (Some p)
  then have "on_list s ps p" using assms(2,5) by (auto simp: agree_def)
  then show ?thesis
    by (rule settled_session [OF assms(1-3) _ stays_processRead [OF Some assms(4)] keeps_processRead [OF Some]])
      (simp_all add: dead_processRead [OF Some] Q)
qed (rule nobody_processRead)

lemma settled_closeSess:
  assumes "clock_runs K" "agree s ps" "seen K s ps" "p \<in> users s" and Q: "\<And>x s'. settled K s' \<Longrightarrow> Q x s'"
  shows "wlp (closeSess K p) Q s"
proof -
  have "on_list s ps p" using assms(2,4) by (auto simp: agree_def)
  then show ?thesis
    by (rule settled_session [OF assms(1-3) _ wlp_moves [OF stays_closeSess] keeps_closeSess])
      (simp_all add: dead_session Q)
qed

lemma settled_thread:
  assumes K: "clock_runs K" "in_order K s" and t: "threads s = ts @ t # us"
  shows "wlp (run_thread K t) (\<lambda>_. settled K) (s\<lparr>threads := ts @ us\<rparr>)"
proof -
  let ?s = "s\<lparr>threads := ts @ us\<rparr>"
  obtain ps where ps: "agree s ps" "seen K s ps" using K(2) by (auto simp: in_order_def)
  have u: "users ?s \<subseteq> users s" "owner t \<in> users s" using t by (auto simp: users_def)
  have l: "on_list ?s ps p = on_list s ps p" for p by (simp add: on_list_def sess_of_def)
  have "server_ok ?s ps = server_ok s ps" by (simp add: server_ok_def node_ok_def)
  then have a: "agree ?s ps" "on_list ?s ps (owner t)" using ps(1) u l by (auto simp: agree_def)
  have n: "seen K ?s ps" using ps(2) by (simp add: seen_def)
  show ?thesis
    by (rule settled_session [OF K(1) a(1) n a(2) wlp_moves [OF staying.moves_run_thread [OF refl]]
          keeps_run_thread [OF refl] dead_thread [OF refl]])
qed

lemma wlp_calls_after: "clock_runs K \<Longrightarrow> moves calls m \<Longrightarrow> settled K s \<Longrightarrow> wlp m (\<lambda>_. settled K) s"
  by (erule wlp_moves) (rule settled_calls)

lemma calls_epoll: "moves calls (modfd K ep fd b)" "moves calls (removefd K ep fd)"
  unfolding modfd_def removefd_def by (rule keeps_intro)+

lemma settled_event:
  assumes K: "clock_runs K" "fresh_fds K l s" and ok: "in_order K s"
  shows "wlp (handle_event K l ev) (\<lambda>_. settled K) s"
proof -
  obtain i o1 u d where ev: "ev = (i, o1, u, d)" by (cases ev)
  obtain ps where ps: "agree s ps" "seen K s ps" using ok by (auto simp: in_order_def)
  have new: "new_sockets K (trace s) (ctrls s)" using K(2) by (rule fresh_new_sockets)
  have here: "settled K s" using ok by (simp add: settled_def)
  show ?thesis
  proof (cases d)
    case (Data_ptr j)
    have after_read: "wlp (if r = STATUS_WRITE then modfd K ep fd True
        else if r = STATUS_RM then removefd K ep fd else ret ()) (\<lambda>_. settled K) t"
      if "settled K t" for r ep fd t
      using that by (simp add: wlp_calls_after [OF K(1)] calls_epoll)
    have request: "wlp (refresh_conn K fd) (\<lambda>_. wlp (bind (processRead K ed) (\<lambda>r. if r = STATUS_WRITE then modfd K ep fd True
        else if r = STATUS_RM then removefd K ep fd else ret ())) (\<lambda>_. settled K)) s"
      if "ed \<in> set (sessinfo s)" for ed fd ep
    proof (rule wlp_mono [OF refresh_agree [OF K(1) ps]], elim exE conjE)
      fix s' ps' h assume s': "agree s' ps'" "seen K s' ps'" "users s' = users s" "ctrls s' = ctrls s"
        and "trace s' = trace s @ h" "\<forall>l D. in_use l h D = D"
      then have new': "new_sockets K (trace s') (ctrls s')" using new_sockets_later [OF new] by auto
      show "wlp (bind (processRead K ed) (\<lambda>r. if r = STATUS_WRITE then modfd K ep fd True
        else if r = STATUS_RM then removefd K ep fd else ret ())) (\<lambda>_. settled K) s'"
        unfolding wlp_bind
        using that s' new' by (intro settled_processRead [OF K(1) s'(1,2)] after_read)
          (auto simp: users_def)
    qed
    have close: "wlp (closeSess K p) (\<lambda>_. wlp (ret ()) (\<lambda>_. settled K)) s"
      if "ed \<in> set (sessinfo s)" "ed_sess ed = Some p" for ed p
      using that by (intro settled_closeSess [OF K(1) ps]) (auto simp: users_def)
    have accept: "wlp (accept_loop K l) (\<lambda>_. settled K) s"
      by (rule wlp_mono [OF wlp_accept_loop [OF K ok]]) (simp add: settled_def)
    show ?thesis
    proof (cases "j < length (sessinfo s)")
      case True
      then have "sessinfo s ! j \<in> set (sessinfo s)" by simp
      note here = here accept request [OF this] close [OF this]
        wlp_calls_after [OF K(1) calls_epoll(1) here] wlp_calls_after [OF K(1) calls_epoll(2) here]
      show ?thesis using True
        by (auto simp: handle_event_def ev Data_ptr peek_at_def processWrite_def STATUS_READ_def STATUS_RM_def Let_def here
            split: option.split)
    qed (simp add: handle_event_def ev Data_ptr peek_at_def)
  qed (simp add: handle_event_def ev)
qed

section \<open>Runs\<close>

text \<open>
  The parts of an iteration of the main thread, and a worker. A run of the server is made of them,
  and between them it can be said which descriptors are in use.
\<close>

inductive part_step :: "kernel \<Rightarrow> int \<Rightarrow> server \<Rightarrow> server \<Rightarrow> bool" for K listenfd where
  wait: "Epoll_wait K ep n t s = Some (Go r s') \<Longrightarrow> part_step K listenfd s s'"
| clock: "get_time_sec K s = Some (Go now s') \<Longrightarrow> part_step K listenfd s s'"
| expire: "expire_loop K s = Some (Go () s') \<Longrightarrow> part_step K listenfd s s'"
| event: "handle_event K listenfd ev s = Some (Go () s') \<Longrightarrow> part_step K listenfd s s'"
| work: "threads s = ts @ t # us \<Longrightarrow> run_thread K t (s\<lparr>threads := ts @ us\<rparr>) = Some (Go () s') \<Longrightarrow>
    part_step K listenfd s s'"

inductive_cases part_stepE: "part_step K listenfd s s'"

lemma events_parts:
  "handle_events K l es s = Some (Go () s') \<Longrightarrow> (part_step K l)\<^sup>*\<^sup>* s s'"
proof (induction es arbitrary: s)
  case (Cons e es)
  then obtain u where "handle_event K l e s = Some (Go () u)" "handle_events K l es u = Some (Go () s')"
    by (auto simp: seq_def elim: bind_Go_cases)
  with Cons.IH show ?case by (blast intro: converse_rtranclp_into_rtranclp part_step.event)
qed (simp add: ret_def)

lemma waiting_parts:
  assumes "epoll_wait_timeout K ep n s = Some (Go r s')" shows "(part_step K l)\<^sup>*\<^sup>* s s'"
proof -
  have w: "(part_step K l)\<^sup>*\<^sup>* t u" if "Epoll_wait K ep n m t = Some (Go v u)" for m v t u
    using that by (blast intro: part_step.wait)
  have e: "(part_step K l)\<^sup>*\<^sup>* t u" if "seq (expire_loop K) (ret v) t = Some (Go v' u)" for t u v v'
    using that by (auto simp: seq_def ret_def elim!: bind_Go_cases intro!: r_into_rtranclp part_step.expire)
  have c: "(part_step K l)\<^sup>*\<^sup>* t u" if "get_time_sec K t = Some (Go v u)" for t u v
    using that by (blast intro: part_step.clock)
  show ?thesis
    using assms unfolding epoll_wait_timeout_def
    by (auto simp: gets_def get_node_def lift_def Let_def ret_def stop_def elim!: bind_Go_cases
        split: option.splits if_splits sum.splits dest!: w e c intro: rtranclp_trans)
qed

lemma server_step_parts: "server_step K l s s' \<Longrightarrow> (part_step K l)\<^sup>*\<^sup>* s s'"
proof (erule server_stepE)
  assume "main_iter K l s = Some (Go () s')"
  then show ?thesis
    by (auto simp: main_iter_def gets_def elim!: bind_Go_cases
        dest!: events_parts waiting_parts [where l = l] intro: rtranclp_trans)
qed (blast intro: part_step.work)

text \<open>What holds in every run: the tables agree or a node is left behind, and everything is well typed.\<close>

definition held :: "kernel \<Rightarrow> server \<Rightarrow> bool" where
  "held K s \<longleftrightarrow> typed s \<and> settled K s"

lemma typed_after: "m s = Some r \<Longrightarrow> moves types m \<Longrightarrow> typed s \<Longrightarrow> typed (final r)"
  by (auto simp: moves_def types_def)

lemma types_clock: "moves types (get_time_sec K)"
  by (rule keeps_intro)

lemma typed_part: "part_step K l s s' \<Longrightarrow> typed s \<Longrightarrow> typed s'"
proof (erule part_stepE)
  fix ep n t r assume "typed s" "Epoll_wait K ep n t s = Some (Go r s')"
  then show ?thesis using typed_after [OF _ types_waiting(1)] by fastforce
next
  fix now assume "typed s" "get_time_sec K s = Some (Go now s')"
  then show ?thesis using typed_after [OF _ types_clock] by fastforce
next
  assume "typed s" "expire_loop K s = Some (Go () s')"
  then show ?thesis using typed_after [OF _ types_expire_loop] by fastforce
next
  fix ev assume "typed s" "handle_event K l ev s = Some (Go () s')"
  then show ?thesis using typed_after [OF _ types_handle_event] by fastforce
next
  fix ts t us assume "typed s" "run_thread K t (s\<lparr>threads := ts @ us\<rparr>) = Some (Go () s')"
  then show ?thesis using typed_after [OF _ typing.moves_run_thread [OF refl]] typed_others by fastforce
qed

lemma stuck_part: "part_step K l s s' \<Longrightarrow> stuck s \<Longrightarrow> dangling s'"
proof (erule part_stepE)
  fix ep n t r assume s: "stuck s" and r: "Epoll_wait K ep n t s = Some (Go r s')"
  from wlp_Go [OF wlp_sticky [OF sticky_waiting s] r] show ?thesis by (simp add: stuck_def)
next
  fix now assume "stuck s" "get_time_sec K s = Some (Go now s')"
  then show ?thesis using calls_ticked [of s K]
    by (auto simp: get_time_sec_run stuck_def dangling_def calls_server_simps split: if_splits)
next
  assume s: "stuck s" and r: "expire_loop K s = Some (Go () s')"
  from wlp_Go [OF stuck_expire_loop [OF s] r] show ?thesis by (simp add: stuck_def)
next
  fix ev assume s: "stuck s" and r: "handle_event K l ev s = Some (Go () s')"
  from wlp_Go [OF wlp_sticky [OF sticky_handle_event s] r] show ?thesis by (simp add: stuck_def)
next
  fix ts t us assume s: "stuck s" and r: "run_thread K t (s\<lparr>threads := ts @ us\<rparr>) = Some (Go () s')"
  from s have "stuck (s\<lparr>threads := ts @ us\<rparr>)" by (simp add: stuck_def dangling_def)
  from wlp_Go [OF wlp_sticky [OF sticky_run_thread this] r] show ?thesis by (simp add: stuck_def)
qed

lemma settled_part:
  assumes K: "clock_runs K" "fresh_fds K l s" and ok: "in_order K s"
  shows "part_step K l s s' \<Longrightarrow> settled K s'"
proof (erule part_stepE)
  have waits: "moves calls (Epoll_wait K ep n t)" for ep n t
    unfolding Epoll_wait_def Let_def by (rule keeps_intro)+
  fix ep n t r assume "Epoll_wait K ep n t s = Some (Go r s')"
  from movesE [OF this waits] show ?thesis
    using settled_calls [OF K(1), of s s'] ok by (simp add: settled_def)
next
  fix now assume "get_time_sec K s = Some (Go now s')"
  then show ?thesis using settled_calls [OF K(1) calls_ticked [of s K]] ok
    by (auto simp: get_time_sec_run settled_def split: if_splits)
next
  assume "expire_loop K s = Some (Go () s')"
  from wlp_Go [OF expire_loop_agree [OF K(1) ok] this] show ?thesis by (simp add: settled_def)
next
  fix ev assume "handle_event K l ev s = Some (Go () s')"
  from wlp_Go [OF settled_event [OF K ok] this] show ?thesis .
next
  fix ts t us assume "threads s = ts @ t # us" "run_thread K t (s\<lparr>threads := ts @ us\<rparr>) = Some (Go () s')"
  then show ?thesis using wlp_Go [OF settled_thread [OF K(1) ok]] by blast
qed

lemma held_part:
  "clock_runs K \<Longrightarrow> fresh_fds K l s \<Longrightarrow> part_step K l s s' \<Longrightarrow> held K s \<Longrightarrow> held K s'"
  using settled_part [of K l s s'] stuck_part [of K l s s'] typed_part [of K l s s']
  by (auto simp: held_def settled_def stuck_def typed_def)

text \<open>A server that has just been started.\<close>

lemma started_in_order: "wlp (main_init K conf) (\<lambda>_. in_order K) init_server"
proof -
  have fresh: "in_order K s" if "sessions s = [0 \<mapsto> x]" "sess_brk s = 1" "fdts s = [0 \<mapsto> \<lparr>fd_type = 0, fd_fd = fd\<rparr>]"
    "fdt_brk s = 1" "sessinfo s = (replicate MAX_SESSIONS \<lparr>fd_in = None, ed_sess = None\<rparr>)[nat fd := \<lparr>fd_in = Some 0, ed_sess = None\<rparr>]"
    "conns s = init_lru" "threads s = []" "0 \<le> fd" for s x fd
  proof -
    have u: "users s = {}"
      by (auto simp: users_def that dest!: subsetD [OF set_update_subset_insert])
    have "filed s" using that(8)
      by (cases "nat fd < MAX_SESSIONS")
        (auto simp: filed_def that nth_list_update list_update_beyond split: if_splits)
    then have "agree s []" using lru_inv_init
      by (simp add: agree_def server_ok_def u that)
    then show ?thesis by (auto simp: in_order_def seen_def)
  qed
  have "wlp (tcp_server K host prt) (\<lambda>fd s'. calls s s') s" for host prt s
    by (rule wlp_moves [OF keeps_sockets(1)])
  note sock = this
  show ?thesis
    by (auto simp: main_init_def Epoll_create_def addFdData_def setnonblocking_def in_table_def
        calls_server_simps init_server_def
        split: sum.split intro!: wlp_mono [OF sock] fresh)
qed

section \<open>Property\<close>

text \<open>C1: a server runs, its clock does not go back, and the kernel does not hand out a control
  descriptor that is in use: neither \<open>socket\<close> nor \<open>accept\<close> returns the number of one before it is closed
  (afterwards both may). Then at any time either some client was let go by its request (a node
  of the list belongs to a session that is gone), or all tables agree: the list, the table of its
  nodes, \<open>sessinfo\<close>, the records of the descriptors and the sessions lead to each other; and a timeout
  closes connections without touching freed memory, whatever is overdue.\<close>

theorem run_keeps_tables:
  assumes "clock_runs K" "main_init K conf init_server = Some (Go listenfd s0)"
    and "(\<lambda>s s'. part_step K listenfd s s' \<and> fresh_fds K listenfd s)\<^sup>*\<^sup>* s0 s"
  shows "(\<exists>q p t. payload (conns s) q = Some (p, t) \<and> sessions s p = None)
    \<or> (\<exists>ps. server_ok s ps) \<and> (\<forall>e. ends (expire_loop K) e s \<longrightarrow> e = Exit 1)"
proof -
  have "typed s0" using movesE [OF assms(2) types_main_init] by (simp add: types_def typed_init)
  moreover have "in_order K s0" using wlp_Go [OF started_in_order assms(2)] .
  ultimately have "held K s0" by (simp add: held_def settled_def)
  with assms(3) have "held K s"
    by (induction rule: rtranclp_induct) (auto intro: held_part [OF assms(1)])
  then show ?thesis
    using expire_loop_outcome [OF assms(1)]
    by (fastforce simp: held_def settled_def dangling_def in_order_def agree_def ends_def)
qed

text \<open>A kernel with one client, on descriptor 7, and no further sockets after it, for the witness.\<close>

definition one_client :: kernel where
  "one_client h c = (case c of
     SysFd Accept fd \<Rightarrow> if (\<exists>e \<in> set h. fst e = SysFd Accept fd) then (answer (- 1))\<lparr>eno := EAGAIN, tv_sec := 399\<rparr>
       else (answer 7)\<lparr>tv_sec := 399\<rparr>
   | SysSocket \<Rightarrow> if (\<exists>e \<in> set h. \<exists>fd. fst e = SysFd Accept fd) then (answer (- 1))\<lparr>eno := EOTHER 24, tv_sec := 399\<rparr>
       else (answer 1)\<lparr>tv_sec := 399\<rparr>
   | SysGetuid \<Rightarrow> (answer 0)\<lparr>tv_sec := 399\<rparr>
   | _ \<Rightarrow> (answer 1)\<lparr>tv_sec := 399\<rparr>)"

lemma in_use_none: "\<forall>e \<in> set h. fst e \<noteq> SysFd Accept l \<Longrightarrow> in_use l h C \<subseteq> C"
proof (induction h arbitrary: C)
  case (Cons e h)
  then have "using_now l e C \<subseteq> C" by (cases "(l, e, C)" rule: using_now.cases) auto
  with Cons.IH [of "using_now l e C"] Cons.prems show ?case by auto
qed simp

lemma in_use_pos: "\<forall>fd \<in> C. 0 \<le> fd \<Longrightarrow> \<forall>fd \<in> in_use l h C. 0 \<le> fd"
proof (induction h arbitrary: C)
  case (Cons e h)
  then have "\<forall>fd \<in> using_now l e C. 0 \<le> fd" by (cases "(l, e, C)" rule: using_now.cases) auto
  from Cons.IH [OF this] show ?case by simp
qed simp

lemma one_client_fresh: "c = SysSocket \<or> c = SysFd Accept 1 \<Longrightarrow> rv (one_client (g @ h) c) \<notin> in_use 1 h {}"
proof (cases "\<exists>e \<in> set (g @ h). fst e = SysFd Accept 1")
  case True
  assume "c = SysSocket \<or> c = SysFd Accept 1"
  with True have "rv (one_client (g @ h) c) = - 1" by (elim disjE) (simp_all add: one_client_def, blast)
  with in_use_pos [of "{}" 1 h] show ?thesis by auto
next
  case False
  with in_use_none [of h 1 "{}"] show ?thesis by auto
qed

lemma one_client_ok: "clock_runs one_client" "clock one_client 399" "writes_progress one_client"
  by (auto simp: clock_runs_def clock_def writes_progress_def one_client_def)

lemma one_client_started:
  "wp (main_init one_client (Some [])) (\<lambda>l s. l = 1 \<and> tun s = default_tunables \<and> conns s = init_lru
     \<and> (\<forall>e \<in> set (trace s). fst e \<noteq> SysFd Accept 1) \<and> cnts s = init_counters\<lparr>s_ip_count_hash := new_table 256 hash_func 256,
         s_pid_ip_hash := new_table 256 hash_func 256\<rparr> \<and> ctrls s = {} \<and> fd_in (sessinfo s ! 1) = Some 0
     \<and> fdts s 0 = Some \<lparr>fd_type = 0, fd_fd = 1\<rparr>) init_server"
proof -
  have "tunable_listen_address default_tunables = None" by (simp add: default_tunables_def)
  moreover have "load_lines (zeros 1024) [] default_tunables = Inr default_tunables" by (subst load_lines.simps) simp
  moreover have "fdt_brk init_server = 0" by (simp add: init_server_def)
  ultimately show ?thesis
    by (auto simp: main_init_def parseconf_load_file_def tcp_server_def fail_exit_def Epoll_create_def one_client_def
        addFdData_def setnonblocking_def in_table_def MAX_SESSIONS_def ctrls_def init_session_def)
qed

lemma one_client_event:
  assumes ok: "agree s ps" "seen one_client s ps" and past: "past 399 s ps" and new: "7 \<notin> ctrls s"
    and acc: "\<forall>e \<in> set (trace s). fst e \<noteq> SysFd Accept 1"
    and tun: "tun s = default_tunables" and cnts: "cnts s = init_counters\<lparr>s_ip_count_hash := new_table 256 hash_func 256,
         s_pid_ip_hash := new_table 256 hash_func 256\<rparr>"
    and info: "fd_in (sessinfo s ! 1) = Some 0" "fdts s 0 = Some \<lparr>fd_type = 0, fd_fd = 1\<rparr>"
  shows "wp (handle_event one_client 1 (True, False, False, Data_ptr 1)) (\<lambda>_ s'. \<exists>x. sessions s' (sess_brk s) = Some x
     \<and> ctrl_fd x = 7) s"
proof -
  let ?K = one_client and ?t = "after one_client (SysFd Accept 1) s"
  have t: "agree ?t ps" "seen ?K ?t ps" "past 399 ?t ps"
    using ok past agree_cong [of ?t s] seen_later [OF one_client_ok(1) ok(2), of ?t] by (auto simp: past_def)
  have fd: "fd_ok 7" "map_fd_toNode (conns ?t) ! nat 7 = None"
    using node_unused [OF ok(1) _ new] by (simp_all add: fd_ok_def MAX_SESSIONS_def)
  have "wp (handleNewConn ?K 7 0) (\<lambda>rc s'. rc = 0 \<and> (\<exists>x. sessions s' (sess_brk ?t) = Some x \<and> ctrl_fd x = 7)) ?t"
    using t(1) empty_table [of 256, simplified]
    by (intro wp_mono [OF connection_let_in [OF one_client_ok(3,2) _ t(3) fd]])
      (auto simp: let_in_def agree_def full_def children_def tun cnts init_counters_def counts_ok_def count_of_def)
  then obtain u x where u: "handleNewConn ?K 7 0 ?t = Some (Go 0 u)" "sessions u (sess_brk s) = Some x" "ctrl_fd x = 7"
    by (auto simp: wp_ex)
  have "7 \<notin> ctrls ?t" using new by (simp add: ctrls_def)
  from wlp_Go [OF handleNewConn_agree [OF one_client_ok(1) t(1,2) this] u(1)]
  have acc': "\<exists>e \<in> set (trace u). fst e = SysFd Accept 1" by (auto simp: admitted_def)
  then have "accept_loop ?K 1 u = Some (Go () (after ?K (SysFd Accept 1) u))"
    by (subst accept_loop.simps) (auto simp: bind_def sys_run gets_def ret_def one_client_def)
  then have "accept_loop ?K 1 s = Some (Go () (after ?K (SysFd Accept 1) u))"
    using u(1) acc by (subst accept_loop.simps) (auto simp: bind_def seq_def sys_run one_client_def answer_def)
  moreover have "length (sessinfo s) = MAX_SESSIONS" using ok(1) by (simp add: agree_def server_ok_def)
  ultimately show ?thesis using u(2,3) info
    by (auto simp: handle_event_def peek_at_def MAX_SESSIONS_def get_fdt_def deref_def wp_def [of "accept_loop _ _"])
qed

theorem run_keeps_tables_witness:
  "\<exists>s p x. sessions s p = Some x \<and> ctrl_fd x = 7
     \<and> ((\<exists>q p t. payload (conns s) q = Some (p, t) \<and> sessions s p = None)
        \<or> (\<exists>ps. server_ok s ps) \<and> (\<forall>e. ends (expire_loop one_client) e s \<longrightarrow> e = Exit 1))"
proof -
  obtain s0 where s0: "main_init one_client (Some []) init_server = Some (Go 1 s0)" "tun s0 = default_tunables"
    "conns s0 = init_lru" "\<forall>e \<in> set (trace s0). fst e \<noteq> SysFd Accept 1" "ctrls s0 = {}"
    "cnts s0 = init_counters\<lparr>s_ip_count_hash := new_table 256 hash_func 256, s_pid_ip_hash := new_table 256 hash_func 256\<rparr>"
    "fd_in (sessinfo s0 ! 1) = Some 0" "fdts s0 0 = Some \<lparr>fd_type = 0, fd_fd = 1\<rparr>"
    using one_client_started by (auto simp: wp_ex)
  have "in_order one_client s0" using wlp_Go [OF started_in_order s0(1)] .
  then obtain ps where ps: "agree s0 ps" "seen one_client s0 ps" by (auto simp: in_order_def)
  then have "lru_rep init_lru ps" by (simp add: agree_def server_ok_def lru_inv_def s0(3))
  then have "ps = []" using lru_inv_init lru_rep_unique by (auto simp: lru_inv_def)
  then have "past 399 s0 ps" by (simp add: past_def)
  from one_client_event [OF ps this _ s0(4,2,6-8)] s0(5)
  obtain s x where s: "handle_event one_client 1 (True, False, False, Data_ptr 1) s0 = Some (Go () s)"
    "sessions s (sess_brk s0) = Some x" "ctrl_fd x = 7" by (auto simp: wp_ex)
  have "fresh_fds one_client 1 s0"
    using one_client_fresh by (simp add: fresh_fds_def s0(5))
  with s(1) have "(\<lambda>s s'. part_step one_client 1 s s' \<and> fresh_fds one_client 1 s)\<^sup>*\<^sup>* s0 s"
    by (blast intro: part_step.event)
  from run_keeps_tables [OF one_client_ok(1) s0(1) this] s(2,3) show ?thesis by blast
qed

end
