(* ===== verification/Service.thy ===== *)
theory Service
  imports Admission
begin

text \<open>
  What the clients of the server see of one iteration of its loop: the requests that have arrived on
  several connections are answered, each on its own connection, and the list of connections is in the
  order of the requests afterwards. No code of its own: the theorem puts \<open>main_iter\<close>, \<open>refreshTimeout\<close>,
  \<open>readline\<close>, the parser and the handlers together.
\<close>

section \<open>Requests that wait\<close>

definition ctrl_of :: "server \<Rightarrow> nat \<Rightarrow> int" where
  "ctrl_of s q = (case sessions s (sess_of s q) of Some x \<Rightarrow> ctrl_fd x | None \<Rightarrow> - 1)"

lemma ctrl_of_node: "node_ok s q p x \<Longrightarrow> ctrl_of s q = ctrl_fd x"
  using node_ok_sess [of s q p x] by (auto simp: ctrl_of_def node_ok_def)

text \<open>The next request on a descriptor, which has a fixed answer, and the rest of what has been sent.\<close>

definition asks :: "kernel \<Rightarrow> history \<Rightarrow> int \<Rightarrow> string \<times> string \<Rightarrow> bool" where
  "asks K h fd r \<longleftrightarrow> (\<exists>inp later. stream K fd inp \<and> inp = taken fd h @ request_line (fst r) (snd r) @ later
     \<and> wf_request (fst r) (snd r) \<and> length (request_line (fst r) (snd r) @ later) < MAX_COMMAND
     \<and> static_answer (map toupper (fst r)) \<noteq> None)"

definition answer_to :: "string \<times> string \<Rightarrow> string" where
  "answer_to r = the (static_answer (map toupper (fst r)))"

definition readable :: "int \<Rightarrow> bool \<times> bool \<times> bool \<times> epoll_data" where
  "readable fd = (True, False, False, Data_ptr (nat fd))"

definition to_front :: "nat \<Rightarrow> nat list \<Rightarrow> nat list" where
  "to_front q ps = q # remove1 q ps"

lemma asks_later: "taken fd h' = [] \<Longrightarrow> asks K (h @ h') fd r = asks K h fd r"
  by (simp add: asks_def)

lemma set_to_front: "q \<in> set ps \<Longrightarrow> distinct ps \<Longrightarrow> set (to_front q ps) = set ps"
  by (auto simp: to_front_def dest: notin_set_remove1)

section \<open>One event\<close>

text \<open>The state after a request of \<open>q\<close>, whose calls are \<open>h\<close>: the answer has been sent, nothing else was said.\<close>

definition answered :: "server \<Rightarrow> nat list \<Rightarrow> nat \<Rightarrow> string \<times> string \<Rightarrow> int \<Rightarrow> history \<Rightarrow> server \<Rightarrow> bool" where
  "answered s ps q r now h s' \<longleftrightarrow> trace s' = trace s @ h \<and> server_ok s' (to_front q ps) \<and> past now s' (to_front q ps)
     \<and> sess_of s' = sess_of s \<and> (\<forall>q' \<in> set ps. ctrl_of s' q' = ctrl_of s q')
     \<and> sent (ctrl_of s q) h = answer_to r \<and> taken (ctrl_of s q) h = request_line (fst r) (snd r)
     \<and> talks (ctrl_of s q) h"

text \<open>The request moves the node of its connection to the front.\<close>

lemma wp_refresh_conn:
  assumes K: "clock K now" and ok: "server_ok s ps" "past now s ps" "q \<in> set ps" "node_ok s q p x"
    and Q: "\<And>c. lru_inv c (to_front q ps) \<Longrightarrow> node_time c = (node_time (conns s))(q := now) \<Longrightarrow>
      lru_view c = lru_view (conns s) \<Longrightarrow> Q 0 (ticked K s\<lparr>conns := c\<rparr>)"
  shows "wp (refresh_conn K (ctrl_fd x)) Q s"
proof -
  have fd: "fd_ok (ctrl_fd x)" "map_fd_toNode (conns s) ! nat (ctrl_fd x) = Some q"
    and inv: "lru_inv (conns s) ps" using ok(1,4) by (auto simp: node_ok_def server_ok_def fd_ok_def)
  then obtain c where c: "refreshTimeout (ctrl_fd x) now (conns s) = Inr (0, c)" "lru_inv c (q # remove1 q ps)"
    "node_time c = (node_time (conns s))(q := now)" "lru_view c = lru_view (conns s)"
    using refreshTimeout_inv [OF inv _ _ fd(2), of now] ok(2) by (auto simp: past_def fd_ok_def int_time_def)
  have "length (map_fd_toNode (conns s)) = MAX_SESSIONS" using inv by (simp add: lru_inv_def)
  then show ?thesis using fd c(1) Q [OF _ c(3,4)] c(2)
    by (simp add: refresh_conn_def fd_index_def peek_at_def fd_ok_def bnd_def wp_tick [OF K] to_front_def
        del: wp_get_time_sec)
qed

text \<open>Writing into a buffer of a session keeps the tables.\<close>

lemma answered_state:
  assumes ok: "server_ok s ps" "past now s ps" "q \<in> set ps" "node_ok s q p x"
    and c: "lru_inv c (to_front q ps)" "node_time c = (node_time (conns s))(q := now)" "lru_view c = lru_view (conns s)"
    and y: "ctrl_fd y = ctrl_fd x"
    and h: "sent (ctrl_fd x) h = answer_to r" "taken (ctrl_fd x) h = request_line (fst r) (snd r)" "talks (ctrl_fd x) h"
  shows "\<exists>h1. answered s ps q r now h1 (grow h e (ticked K s\<lparr>conns := c, sessions := (sessions s)(p \<mapsto> y)\<rparr>))"
proof -
  let ?s = "grow h e (ticked K s\<lparr>conns := c, sessions := (sessions s)(p \<mapsto> y)\<rparr>)"
  note v = lru_viewD [OF c(3)]
  have sp: "sess_of ?s q' = sess_of s q'" for q'
    using v(4) [of q'] by (cases "payload c q'"; cases "payload (conns s) q'") (auto simp: sess_of_def)
  have n: "node_ok ?s q' p' (if p' = p then y else x')" if "node_ok s q' p' x'" for q' p' x'
    using that ok(4) y unfolding node_ok_def by (auto simp: v)
  have d: "set (to_front q ps) = set ps"
    using set_to_front [OF ok(3)] ok(1) by (auto simp: server_ok_def lru_inv_def dest: lru_rep_distinct)
  have "sessions s p = Some x" using ok(4) by (simp add: node_ok_def)
  then have "\<forall>p'. sessions ?s p' \<noteq> None \<longrightarrow> p' < sess_brk s"
    using ok(1) by (auto simp: server_ok_def)
  moreover have "\<exists>p' x'. node_ok ?s q' p' x'" if "q' \<in> set ps" for q'
  proof -
    obtain p' x' where "node_ok s q' p' x'" using ok(1) \<open>q' \<in> set ps\<close> unfolding server_ok_def by blast
    then show ?thesis using n by blast
  qed
  ultimately have "server_ok ?s (to_front q ps)"
    using ok(1) c(1) by (simp add: server_ok_def d)
  moreover have "past now ?s (to_front q ps)" using ok(2) unfolding past_def d by (simp add: c(2))
  moreover have "ctrl_of ?s q' = ctrl_of s q'" if "q' \<in> set ps" for q'
  proof -
    obtain p' x' where "node_ok s q' p' x'" using ok(1) \<open>q' \<in> set ps\<close> by (auto simp: server_ok_def)
    moreover from this have "p' = p \<Longrightarrow> x' = x" using ok(4) by (auto simp: node_ok_def)
    moreover have "ctrl_of ?s q' = ctrl_fd (if p' = p then y else x')" "ctrl_of s q' = ctrl_fd x'"
      using n ctrl_of_node \<open>node_ok s q' p' x'\<close> by blast+
    ultimately show ?thesis using y by (simp split: if_splits)
  qed
  moreover have "sess_of ?s = sess_of s" using sp by blast
  ultimately have "answered s ps q r now ((SysGettimeofday, K (trace s) SysGettimeofday) # h) ?s"
    using h ctrl_of_node [OF ok(4)] unfolding answered_def talks_def by simp
  then show ?thesis by blast
qed

lemma event_answered:
  assumes K: "clock K now" "writes_progress K" and ok: "server_ok s ps" "past now s ps" "q \<in> set ps"
    and r: "asks K (trace s) (ctrl_of s q) r" and l: "ctrl_of s q \<noteq> listenfd"
  shows "wp (handle_event K listenfd (readable (ctrl_of s q))) (\<lambda>_ s'. \<exists>h. answered s ps q r now h s') s"
proof -
  obtain p x where n: "node_ok s q p x" using ok(1,3) by (auto simp: server_ok_def)
  note fd = ctrl_of_node [OF n]
  obtain inp later t where r: "stream K (ctrl_fd x) inp"
    "inp = taken (ctrl_fd x) (trace s) @ request_line (fst r) (snd r) @ later"
    "wf_request (fst r) (snd r)" "length (request_line (fst r) (snd r) @ later) < MAX_COMMAND"
    "static_answer (map toupper (fst r)) = Some t" using assms(6) by (auto simp: asks_def fd)
  obtain f where f: "sessinfo s ! nat (ctrl_fd x) = \<lparr>fd_in = Some f, ed_sess = Some p\<rparr>"
    "fdts s f = Some \<lparr>fd_type = FDTYPECTRL, fd_fd = ctrl_fd x\<rparr>" and x: "sessions s p = Some x" "fd_ok (ctrl_fd x)"
    using n by (auto simp: node_ok_def)
  have len: "nat (ctrl_fd x) < length (sessinfo s)" using ok(1) x(2) by (simp add: server_ok_def fd_ok_def)
  show ?thesis
  proof -
    have req: "wp (processCtrlRead K p) (\<lambda>res s'. res = STATUS_NONE \<and> (\<exists>h. answered s ps q r now h s'))
        (ticked K s\<lparr>conns := c\<rparr>)"
      if c: "lru_inv c (to_front q ps)" "node_time c = (node_time (conns s))(q := now)" "lru_view c = lru_view (conns s)"
      for c
    proof -
      let ?s = "ticked K s\<lparr>conns := c\<rparr>"
      have "inp = taken (ctrl_fd x) (trace ?s) @ request_line (fst r) (snd r) @ later" "sessions ?s p = Some x"
        using r(2) x(1) by simp_all
      from static_request [OF r(1) this(1) r(3,4) this(2) K(2) r(5)] show ?thesis
        by (rule wp_mono) (auto simp: filled_def answer_to_def r(5) intro!: answered_state [OF ok n c])
    qed
    show ?thesis
      using len f x l fd unfolding handle_event_def readable_def
      by (auto simp: peek_at_def get_fdt_def deref_def Let_def processRead_def FDTYPECTRL_def fd
            STATUS_NONE_def STATUS_WRITE_def STATUS_RM_def
          intro!: wp_refresh_conn [OF K(1) ok n] wp_mono [OF req] split: if_splits) blast
  qed
qed

section \<open>A batch of events\<close>

lemma ctrl_of_inj: "server_ok s ps \<Longrightarrow> inj_on (ctrl_of s) (set ps)"
proof (rule inj_onI)
  fix q r
  assume ok: "server_ok s ps" and q: "q \<in> set ps" "r \<in> set ps" "ctrl_of s q = ctrl_of s r"
  then obtain p x p' x' where "node_ok s q p x" "node_ok s r p' x'" unfolding server_ok_def by meson
  with q(3) show "q = r" using node_ok_apart(1) ctrl_of_node by metis
qed

text \<open>What a history says to the clients of a batch of requests: their answers, and nothing to others.\<close>

definition all_answered :: "server \<Rightarrow> (nat \<times> string \<times> string) list \<Rightarrow> history \<Rightarrow> bool" where
  "all_answered s bs h \<longleftrightarrow> (\<forall>(q, r) \<in> set bs. sent (ctrl_of s q) h = answer_to r
       \<and> taken (ctrl_of s q) h = request_line (fst r) (snd r))
     \<and> (\<forall>fd. fd \<notin> ctrl_of s ` fst ` set bs \<longrightarrow> sent fd h = [] \<and> taken fd h = [])"

text \<open>The requests of a batch come from different clients of the list, none of them the listening socket.\<close>

definition batch :: "kernel \<Rightarrow> int \<Rightarrow> server \<Rightarrow> nat list \<Rightarrow> (nat \<times> string \<times> string) list \<Rightarrow> bool" where
  "batch K listenfd s ps bs \<longleftrightarrow> distinct (map fst bs)
     \<and> (\<forall>(q, r) \<in> set bs. q \<in> set ps \<and> asks K (trace s) (ctrl_of s q) r \<and> ctrl_of s q \<noteq> listenfd)"

lemma all_answered_Cons:
  assumes ok: "server_ok s ps" and b: "batch K listenfd s ps ((q, r) # bs)"
    and a: "answered s ps q r now h s'" and h': "all_answered s' bs h'"
  shows "all_answered s ((q, r) # bs) (h @ h')"
proof -
  have in_ps: "q \<in> set ps" "\<forall>e \<in> set bs. fst e \<in> set ps" and ne: "q \<notin> fst ` set bs"
    using b by (auto simp: batch_def)
  have same: "ctrl_of s' q' = ctrl_of s q'" if "q' \<in> fst ` set bs" for q'
    using a in_ps(2) that by (auto simp: answered_def)
  then have im: "ctrl_of s' ` fst ` set bs = ctrl_of s ` fst ` set bs" by (rule image_cong [OF refl])
  have ap: "ctrl_of s q' \<noteq> ctrl_of s q" if "q' \<in> fst ` set bs" for q'
    using ctrl_of_inj [OF ok] in_ps ne that by (auto dest: inj_onD)
  then have "ctrl_of s q \<notin> ctrl_of s ` fst ` set bs" by (metis imageE)
  with h' have "sent (ctrl_of s q) h' = []" "taken (ctrl_of s q) h' = []"
    unfolding all_answered_def im by blast+
  moreover have t: "sent fd h = []" "taken fd h = []" if "fd \<noteq> ctrl_of s q" for fd
    using a that by (simp_all add: answered_def talks_def)
  moreover have "sent (ctrl_of s q') h' = answer_to r' \<and> taken (ctrl_of s q') h' = request_line (fst r') (snd r')"
    if "(q', r') \<in> set bs" for q' r'
  proof -
    have "q' \<in> fst ` set bs" using that by force
    then have "ctrl_of s' q' = ctrl_of s q'" by (rule same)
    moreover have "sent (ctrl_of s' q') h' = answer_to r'
        \<and> taken (ctrl_of s' q') h' = request_line (fst r') (snd r')"
      using h' that unfolding all_answered_def by blast
    ultimately show ?thesis by simp
  qed
  moreover have "(q', r') \<in> set bs \<Longrightarrow> ctrl_of s q' \<noteq> ctrl_of s q" for q' r' using ap by force
  moreover have "sent fd h' = [] \<and> taken fd h' = []" if "fd \<notin> ctrl_of s ` fst ` set bs" for fd
    using h' that unfolding all_answered_def im by blast
  moreover have "sent (ctrl_of s q) h = answer_to r" "taken (ctrl_of s q) h = request_line (fst r) (snd r)"
    using a by (simp_all add: answered_def)
  ultimately show ?thesis unfolding all_answered_def by auto
qed

lemma events_answered:
  assumes K: "clock K now" "writes_progress K"
  shows "server_ok s ps \<Longrightarrow> past now s ps \<Longrightarrow> batch K listenfd s ps bs \<Longrightarrow>
    wp (handle_events K listenfd (map (\<lambda>(q, r). readable (ctrl_of s q)) bs)) (\<lambda>_ s'. \<exists>h.
      trace s' = trace s @ h \<and> server_ok s' (fold to_front (map fst bs) ps) \<and> all_answered s bs h) s"
proof (induction bs arbitrary: s ps)
  case Nil
  then show ?case by (simp add: all_answered_def)
next
  case (Cons b bs)
  obtain q r where b: "b = (q, r)" by (cases b)
  have q: "q \<in> set ps" "asks K (trace s) (ctrl_of s q) r" "ctrl_of s q \<noteq> listenfd"
    using Cons.prems(3) b by (auto simp: batch_def)
  have next_events: "wp (handle_events K listenfd (map (\<lambda>(q, r). readable (ctrl_of s q)) bs)) (\<lambda>_ s''. \<exists>h.
      trace s'' = trace s @ h \<and> server_ok s'' (fold to_front (map fst (b # bs)) ps) \<and> all_answered s (b # bs) h) s'"
    if a: "answered s ps q r now h s'" for h s'
  proof -
    have "distinct ps" using Cons.prems(1) by (auto simp: server_ok_def lru_inv_def dest: lru_rep_distinct)
    then have set_eq: "set (to_front q ps) = set ps" using set_to_front q(1) by blast
    have "asks K (trace s') (ctrl_of s' q') r' \<and> ctrl_of s' q' \<noteq> listenfd" if "(q', r') \<in> set bs" for q' r'
    proof -
      have q': "q' \<in> set ps" "q' \<noteq> q" "asks K (trace s) (ctrl_of s q') r'" "ctrl_of s q' \<noteq> listenfd"
        using Cons.prems(3) b that by (force simp: batch_def)+
      then have "ctrl_of s q' \<noteq> ctrl_of s q" using ctrl_of_inj [OF Cons.prems(1)] q(1) by (auto dest: inj_onD)
      with q' a show ?thesis by (auto simp: answered_def talks_def asks_later)
    qed
    then have "batch K listenfd s' (to_front q ps) bs"
      using Cons.prems(3) unfolding batch_def set_eq b by auto
    then have "wp (handle_events K listenfd (map (\<lambda>(q, r). readable (ctrl_of s' q)) bs)) (\<lambda>_ s''. \<exists>h.
        trace s'' = trace s' @ h \<and> server_ok s'' (fold to_front (map fst bs) (to_front q ps)) \<and> all_answered s' bs h) s'"
      using a unfolding answered_def by (intro Cons.IH) blast+
    moreover have "map (\<lambda>(q, r). readable (ctrl_of s q)) bs = map (\<lambda>(q, r). readable (ctrl_of s' q)) bs"
      using Cons.prems(3) a by (auto simp: batch_def answered_def)
    ultimately show ?thesis
      using a all_answered_Cons [OF Cons.prems(1) Cons.prems(3) [unfolded b] a]
      by (simp only:) (elim wp_mono, auto simp: answered_def b)
  qed
  show ?case
    using event_answered [OF K Cons.prems(1,2) q] next_events by (auto simp: b elim!: wp_mono)
qed

text \<open>The calls that find a batch: the clock, then the wait.\<close>

definition brings :: "kernel \<Rightarrow> server \<Rightarrow> (bool \<times> bool \<times> bool \<times> epoll_data) list \<Rightarrow> bool" where
  "brings K s events \<longleftrightarrow> (\<forall>r t. let a = K (trace s @ [(SysGettimeofday, r)]) (SysEpollWait (epollfd s) MAXEVENTNUM t)
     in rv a \<noteq> - 1 \<and> evs a = events)"

lemma wp_main_iter:
  assumes "clock K now" "server_ok s ps" "ps \<noteq> []" "brings K s events" "events \<noteq> []" "length events \<le> MAXEVENTNUM"
    and Q: "\<And>t. wp (handle_events K listenfd events) Q (after K (SysEpollWait (epollfd s) MAXEVENTNUM t) (ticked K s))"
  shows "wp (main_iter K listenfd) Q s"
proof -
  have rep: "lru_rep (conns s) ps" using assms(2) by (simp add: server_ok_def lru_inv_def)
  then have l: "pLRU (conns s) = Some (last ps)" using assms(3) by (simp add: lru_rep_ends(2))
  obtain m where m: "lnodes (conns s) (last ps) = Some m" using deref_node [OF rep] assms(3) by fastforce
  have e: "rv (K (trace s @ [(SysGettimeofday, r)]) (SysEpollWait (epollfd s) MAXEVENTNUM t)) \<noteq> - 1"
    "evs (K (trace s @ [(SysGettimeofday, r)]) (SysEpollWait (epollfd s) MAXEVENTNUM t)) = events" for r t
    using assms(4) by (auto simp: brings_def Let_def)
  show ?thesis
    using assms(5,6) Q
    by (simp add: main_iter_def epoll_wait_timeout_def l m wp_tick [OF assms(1)] Epoll_wait_def e Let_def
        del: wp_get_time_sec)
qed

section \<open>Property\<close>

text \<open>C2: requests with fixed answers have come in on any number of connections, in pieces of any sizes, and
  one wait reports them. Then this iteration of the loop sends every client the answer to its own request
  and nothing to anybody else, consumes exactly these requests, and leaves the tables in agreement, with
  the list of connections in the order of the requests.\<close>

theorem iteration_answers_requests:
  assumes "clock K now" "writes_progress K" "server_ok s ps" "past now s ps"
    and "batch K listenfd s ps bs" "bs \<noteq> []" "length bs \<le> MAXEVENTNUM"
    and "brings K s (map (\<lambda>(q, r). readable (ctrl_of s q)) bs)"
  shows "wp (main_iter K listenfd) (\<lambda>_ s'. server_ok s' (fold to_front (map fst bs) ps)
     \<and> all_answered s bs (since s s')) s"
proof -
  have ne: "ps \<noteq> []" using assms(5,6) by (cases bs) (auto simp: batch_def)
  let ?s = "\<lambda>t. after K (SysEpollWait (epollfd s) MAXEVENTNUM t) (ticked K s)"
  have c: "ctrl_of (?s t) = ctrl_of s" for t by (simp add: ctrl_of_def fun_eq_iff)
  have "batch K listenfd (?s t) ps bs" for t
    using assms(5) by (auto simp: batch_def c asks_later)
  then have served: "wp (handle_events K listenfd (map (\<lambda>(q, r). readable (ctrl_of s q)) bs)) (\<lambda>_ s'. \<exists>h.
      trace s' = trace (?s t) @ h \<and> server_ok s' (fold to_front (map fst bs) ps) \<and> all_answered (?s t) bs h) (?s t)" for t
    using events_answered [OF assms(1,2), of "?s t" ps listenfd bs] assms(3,4) by (simp add: past_def c)
  show ?thesis
  proof (rule wp_main_iter [OF assms(1,3) ne assms(8)])
    show "wp (handle_events K listenfd (map (\<lambda>(q, r). readable (ctrl_of s q)) bs))
        (\<lambda>_ s'. server_ok s' (fold to_front (map fst bs) ps) \<and> all_answered s bs (since s s')) (?s t)" for t
      by (rule wp_mono [OF served]) (auto simp: all_answered_def c since_def)
  qed (use assms(6,7) in simp_all)
qed

text \<open>Two clients that ask at once, for the witness.\<close>

definition said :: "int \<Rightarrow> string" where
  "said fd = (if fd = 5 then request_line ''NOOP'' [] else request_line ''SYST'' [])"

definition two_ask :: kernel where
  "two_ask h c = (case c of
     SysGettimeofday \<Rightarrow> (answer 0)\<lparr>tv_sec := 200\<rparr>
   | SysEpollWait ep n t \<Rightarrow> (answer 2)\<lparr>evs := [readable 5, readable 6]\<rparr>
   | SysRead fd k \<Rightarrow> (answer 0)\<lparr>dat := take 1 (drop (length (taken fd h)) (said fd))\<rparr>
   | SysPeek fd k \<Rightarrow> (answer 0)\<lparr>dat := take 1 (drop (length (taken fd h)) (said fd))\<rparr>
   | _ \<Rightarrow> answer 1)"

lemma two_ask_ok: "clock two_ask 200" "writes_progress two_ask" "stream two_ask fd (said fd)"
  "brings two_ask s [readable 5, readable 6]"
proof -
  show "stream two_ask fd (said fd)" by (rule byte_stream) (simp_all add: two_ask_def)
qed (simp_all add: clock_def writes_progress_def brings_def two_ask_def)

lemma asks_first:
  assumes "stream K fd (request_line c a)" "wf_request c a" "length (request_line c a) < MAX_COMMAND"
    and "static_answer (map toupper c) \<noteq> None"
  shows "asks K [] fd (c, a)"
  using assms unfolding asks_def by (intro exI [of _ "request_line c a"] exI [of _ "[]"]) simp

theorem iteration_answers_requests_witness:
  "wp (main_iter two_ask 3) (\<lambda>_ s'. server_ok s' [1, 0]
     \<and> sent 5 (since two_server s') = reply_text 200 ''NOOP ok.''
     \<and> sent 6 (since two_server s') = reply_text 215 ''UNIX Type: L8'') two_server"
proof -
  let ?bs = "[(0, ''NOOP'', []), (1, ''SYST'', [])]"
  have u: "map toupper ''NOOP'' = ''NOOP''" "map toupper ''SYST'' = ''SYST''" by code_simp+
  have a: "static_answer ''NOOP'' = Some (reply_text 200 ''NOOP ok.'')"
    "static_answer ''SYST'' = Some (reply_text 215 ''UNIX Type: L8'')"
    by (simp_all add: static_answer_def static_answers_def ctrl_cmds_def telnet_abor_def)
  have c: "ctrl_of two_server 0 = 5" "ctrl_of two_server 1 = 6"
    using two_server_nodes by (simp_all add: ctrl_of_node)
  have w: "wf_request ''NOOP'' []" "wf_request ''SYST'' []"
    by (simp_all add: wf_request_def nul_def cr_def lf_def)
  have "asks two_ask [] 5 (''NOOP'', [])" "asks two_ask [] 6 (''SYST'', [])"
    using two_ask_ok(3) [of 5] two_ask_ok(3) [of 6] w
    by (intro asks_first; simp only: said_def u a; simp add: request_line_def MAX_COMMAND_def)+
  moreover have f: "fold to_front (map fst [(0, ''NOOP'', []), (Suc 0, ''SYST'', [])]) [Suc 0, 0] = [Suc 0, 0]" by (simp add: to_front_def)
  ultimately have "batch two_ask 3 two_server [1, 0] ?bs" using c by (simp add: batch_def)
  moreover have "past 200 two_server [1, 0]" by (simp add: past_def)
  ultimately have "wp (main_iter two_ask 3) (\<lambda>_ s'. server_ok s' (fold to_front (map fst ?bs) [1, 0])
     \<and> all_answered two_server ?bs (since two_server s')) two_server"
    using two_ask_ok(4) c
    iteration_answers_requests [OF two_ask_ok(1,2) two_server_ok, of 3 ?bs]
    by (simp add: MAXEVENTNUM_def)
  then show ?thesis
    by (rule wp_mono)
      (use c in \<open>auto simp: f all_answered_def answer_to_def u a simp del: list.map fold_simps\<close>)
qed

end
