(* ===== verification/Resume.thy ===== *)
theory Resume
  imports Dispatch
begin

text \<open>
  A transfer that a client resumes, from the bytes of its requests to the bytes of the file: \<open>REST\<close>
  and \<open>RETR\<close> or \<open>STOR\<close> are read off the control connection, the second starts a worker, and the worker
  sends the file, or stores what comes, from the position that the first named. No code of its own.
\<close>

section \<open>Requests and what they leave\<close>

lemma wp_request:
  assumes "line_stream K (ctrl_fd x) inp" "inp = taken (ctrl_fd x) (trace s) @ request_line c a @ later"
    and "wf_request c a" "length (request_line c a) < MAX_COMMAND" "sessions s p = Some x"
    and Q: "\<And>h e l. reads_only (ctrl_fd x) h \<Longrightarrow> taken (ctrl_fd x) h = request_line c a \<Longrightarrow>
      wp (dispatch K p (map toupper c)) (\<lambda>_. Q STATUS_NONE)
        (grow h e (s\<lparr>sessions := (sessions s)(p \<mapsto> filled x l c a)\<rparr>))"
  shows "wp (processCtrlRead K p) Q s"
proof -
  obtain h e l where r: "reads_only (ctrl_fd x) h" "taken (ctrl_fd x) h = request_line c a"
    "processCtrlRead K p s = bind (dispatch K p (map toupper c)) (\<lambda>_. ret STATUS_NONE)
       (grow h e (s\<lparr>sessions := (sessions s)(p \<mapsto> filled x l c a)\<rparr>))"
    using request_dispatched_run [OF line_stream_request [OF assms(1,2)], of s c a "[]" p] assms(3-5) by auto
  have "wp (bind (dispatch K p (map toupper c)) (\<lambda>_. ret STATUS_NONE)) Q
      (grow h e (s\<lparr>sessions := (sessions s)(p \<mapsto> filled x l c a)\<rparr>))"
    unfolding wp_bind by (rule wp_mono [OF Q [OF r(1,2)]]) simp
  then show ?thesis unfolding wp_def r(3) .
qed

lemma dispatch_transfer:
  "dispatch K p ''REST'' = do_rest K p" "dispatch K p ''RETR'' = do_retr K p" "dispatch K p ''STOR'' = do_stor K p"
  by (simp_all add: dispatch_def ctrl_cmds_def)

text \<open>Calls that move no data, and a conversation over \<open>c\<close>.\<close>

definition quiet :: "history \<Rightarrow> bool" where
  "quiet h \<longleftrightarrow> (\<forall>c. harmless c h)"

lemma quiet_simps [simp]: "quiet []" "quiet (h @ h') \<longleftrightarrow> quiet h \<and> quiet h'"
  by (auto simp: quiet_def)

lemma quiet_effect:
  assumes "quiet h"
  shows "sent fd h = []" "taken fd h = []"
  using assms harmless_effect [of "fd + 1" h fd] by (simp_all add: quiet_def)

definition chats :: "int \<Rightarrow> history \<Rightarrow> bool" where
  "chats c h \<longleftrightarrow> (\<forall>(cl, r) \<in> set h. harmless_call c cl \<or> (\<exists>n. cl = SysRead c n))"

lemma chats_simps [simp]:
  "chats c []" "chats c (h @ h') \<longleftrightarrow> chats c h \<and> chats c h'"
  "chats c ((cl, r) # h) \<longleftrightarrow> (harmless_call c cl \<or> (\<exists>n. cl = SysRead c n)) \<and> chats c h"
  by (auto simp: chats_def)

lemma chats_talk: "reads_only c h \<Longrightarrow> chats c h" "writes_only c h \<Longrightarrow> chats c h" "quiet h \<Longrightarrow> chats c h"
  by (force simp: reads_only_def writes_only_def chats_def quiet_def harmless_def)+

lemma chats_step:
  assumes "harmless_call c cl \<or> (\<exists>n. cl = SysRead c n)" "fd \<noteq> c"
  shows "file_step fd (cl, r) st = st" "send_step out i b (cl, r) st = st"
    "taken_by fd (cl, r) = []" "sent_by fd (cl, r) = []"
  using assms by (cases st; cases cl; simp)+

lemma chats_effect:
  assumes "chats c h" "fd \<noteq> c"
  shows "file_after fd h st = st" "taken fd h = []" "sent fd h = []"
  using assms(1) by (induction h arbitrary: st) (auto simp: chats_step [of c, OF _ assms(2)])

lemma chats_sent_from: "chats c h \<Longrightarrow> sent_from out i b h st = st"
  by (induction h arbitrary: st) (auto simp: chats_step [of c _ "c + 1"])

text \<open>\<open>REST n\<close> sets the position and is confirmed.\<close>

definition rest_text :: "nat \<Rightarrow> string" where
  "rest_text n = reply_text 350 (''Restart position accepted ('' @ dec_nat n @ '').'')"

lemma wp_do_rest:
  assumes "writes_progress K" "sessions s p = Some x" "arg x = dec_nat n @ nul # t" "n < 2 ^ 63"
    and Q: "\<And>h e. writes_only (ctrl_fd x) h \<Longrightarrow> sent (ctrl_fd x) h = rest_text n \<Longrightarrow>
      Q () (grow h e (s\<lparr>sessions := (sessions s)(p \<mapsto> x\<lparr>restart_pos := int n\<rparr>)\<rparr>))"
  shows "wp (do_rest K p) Q s"
proof -
  have di: "dec_int (int n) = dec_nat n" by (simp add: dec_int_def)
  have "int n < 2 ^ 63" using assms(4) by (metis of_nat_less_numeral_power_cancel_iff)
  then have "length (dec_nat n) \<le> 20" using length_dec_int [of "int n"] di by simp
  then show ?thesis using assms(2-4) dec_nat_value [OF assms(4)] Q
    by (auto simp: do_rest_def di rest_text_def reply_text_def intro!: wp_ftp_reply [OF assms(1)])
qed

lemma rest_request:
  assumes K: "writes_progress K" "line_stream K (ctrl_fd x) inp"
    and inp: "inp = taken (ctrl_fd x) (trace s) @ request_line ''REST'' (dec_nat n) @ later"
    and fits: "length (request_line ''REST'' (dec_nat n)) < MAX_COMMAND" and n: "n < 2 ^ 63"
    and x: "sessions s p = Some x"
    and Q: "\<And>h e l. sent (ctrl_fd x) h = rest_text n \<Longrightarrow> taken (ctrl_fd x) h = request_line ''REST'' (dec_nat n) \<Longrightarrow>
      chats (ctrl_fd x) h \<Longrightarrow>
      Q STATUS_NONE (grow h e (s\<lparr>sessions := (sessions s)(p \<mapsto> filled x l ''REST'' (dec_nat n)\<lparr>restart_pos := int n\<rparr>)\<rparr>))"
  shows "wp (processCtrlRead K p) Q s"
proof -
  have "nul \<notin> set (dec_nat n)" "cr \<notin> set (dec_nat n)" "lf \<notin> set (dec_nat n)"
    using dec_nat_isdigit isdigit_distinct(8-10) by metis+
  then have wf: "wf_request ''REST'' (dec_nat n)" by (simp add: wf_request_def nul_def cr_def lf_def)
  have up: "map toupper ''REST'' = ''REST''" by code_simp
  have "length (dec_nat n) < MAX_ARG"
    using fits by (simp add: request_line_def MAX_COMMAND_def MAX_ARG_def split: if_splits)
  then obtain t where z: "zeros (MAX_ARG - length (dec_nat n)) = nul # t"
    by (metis Suc_diff_Suc zeros_Suc)
  show ?thesis
  proof (rule wp_request [OF K(2) inp wf fits x], unfold up dispatch_transfer)
    fix h e l
    assume h: "reads_only (ctrl_fd x) h" "taken (ctrl_fd x) h = request_line ''REST'' (dec_nat n)"
    let ?y = "filled x l ''REST'' (dec_nat n)"
    have y: "ctrl_fd ?y = ctrl_fd x" "arg ?y = dec_nat n @ nul # t" by (simp_all add: filled_def z)
    show "wp (do_rest K p) (\<lambda>_. Q STATUS_NONE) (grow h e (s\<lparr>sessions := (sessions s)(p \<mapsto> ?y)\<rparr>))"
    proof (rule wp_do_rest [OF K(1) _ y(2) n], simp)
      fix h' e'
      assume "writes_only (ctrl_fd ?y) h'" "sent (ctrl_fd ?y) h' = rest_text n"
      then have "Q STATUS_NONE (grow (h @ h') e' (s\<lparr>sessions := (sessions s)(p \<mapsto> ?y\<lparr>restart_pos := int n\<rparr>)\<rparr>))"
        using h unfolding y(1)
        by (intro Q) (simp_all add: reads_only_sent writes_only_taken chats_talk)
      then show "Q STATUS_NONE (grow h' e' (grow h e (s\<lparr>sessions := (sessions s)(p \<mapsto> ?y)\<rparr>)
          \<lparr>sessions := (sessions (grow h e (s\<lparr>sessions := (sessions s)(p \<mapsto> ?y)\<rparr>)))(p \<mapsto> ?y\<lparr>restart_pos := int n\<rparr>)\<rparr>))"
        by simp
    qed
  qed
qed

lemma grow_threads: "(grow h e s)\<lparr>threads := v\<rparr> = grow h e (s\<lparr>threads := v\<rparr>)"
  by (cases s) (simp add: grow_def)

lemma after_quiet: "0 \<le> rv (K (trace s) c) \<Longrightarrow> after K c s = grow [(c, K (trace s) c)] (errno s) s"
  by (simp add: after_def grow_def Let_def)

text \<open>\<open>RETR f\<close> or \<open>STOR f\<close> on a session with a data connection starts a worker.\<close>

definition transfers :: "nat \<Rightarrow> (string \<times> thread) set" where
  "transfers p = {(''RETR'', ThreadRetr p), (''STOR'', UploadCommon p 0)}"

lemma transfer_request:
  assumes "(c, t) \<in> transfers p" and K: "line_stream K (ctrl_fd x) inp" "\<forall>h. rv (K h SysThread) = 0"
    and inp: "inp = taken (ctrl_fd x) (trace s) @ request_line c f @ later"
    and fits: "length (request_line c f) < MAX_COMMAND" and wf: "wf_request c f"
    and x: "sessions s p = Some x" "pasv_listen_fd x \<noteq> - 1" "data_fd x \<notin> {- 1, 0}"
    and Q: "\<And>h e l. sent (ctrl_fd x) h = [] \<Longrightarrow> taken (ctrl_fd x) h = request_line c f \<Longrightarrow> chats (ctrl_fd x) h \<Longrightarrow>
      Q STATUS_NONE (grow h e (s\<lparr>sessions := (sessions s)(p \<mapsto> filled x l c f), threads := threads s @ [t]\<rparr>))"
  shows "wp (processCtrlRead K p) Q s"
proof -
  have up: "map toupper ''RETR'' = ''RETR''" "map toupper ''STOR'' = ''STOR''" by code_simp+
  consider "c = ''RETR''" "t = ThreadRetr p" | "c = ''STOR''" "t = UploadCommon p 0"
    using assms(1) by (auto simp: transfers_def)
  then have disp: "dispatch K p (map toupper c) = bind (getPasvDataFd p) (\<lambda>fd. if fd = 0 then ret () else spawn K t)"
    by cases (simp_all only: up dispatch_transfer do_retr_def do_stor_def)
  show ?thesis
  proof (rule wp_request [OF K(1) inp wf fits x(1)], unfold disp)
    fix h e l
    assume h: "reads_only (ctrl_fd x) h" "taken (ctrl_fd x) h = request_line c f"
    let ?s = "grow h e (s\<lparr>sessions := (sessions s)(p \<mapsto> filled x l c f)\<rparr>)"
    have y: "pasv_listen_fd (filled x l c f) = pasv_listen_fd x" "data_fd (filled x l c f) = data_fd x"
      by (simp_all add: filled_def)
    have "Q STATUS_NONE (grow (h @ [(SysThread, K (trace ?s) SysThread)]) e (s\<lparr>sessions := (sessions s)(p \<mapsto> filled x l c f),
        threads := threads s @ [t]\<rparr>))"
      using h by (intro Q) (simp_all add: reads_only_sent chats_talk)
    then show "wp (bind (getPasvDataFd p) (\<lambda>fd. if fd = 0 then ret () else spawn K t)) (\<lambda>_. Q STATUS_NONE) ?s"
      using x K(2) by (simp add: getPasvDataFd_def spawn_def y(1,2) after_quiet grow_threads)
  qed
qed

lemma rest_fits: "n < 2 ^ 63 \<Longrightarrow> length (request_line ''REST'' (dec_nat n)) < MAX_COMMAND"
  using show_base_length [of 10 n 18] by (simp add: dec_nat_def request_line_def MAX_COMMAND_def)

text \<open>Two requests, wherever they stand in the stream of the control connection, and the worker they start.\<close>

definition rest_then :: "kernel \<Rightarrow> nat \<Rightarrow> (unit, server) prog" where
  "rest_then K p = seq (processCtrlRead K p) (seq (processCtrlRead K p) (bind (gets threads) (\<lambda>ts. run_thread K (last ts))))"

lemma wp_rest_then:
  assumes "writes_progress K" "\<forall>h. rv (K h SysThread) = 0" "line_stream K (ctrl_fd x) inp"
    and inp: "inp = taken (ctrl_fd x) (trace s) @ request_line ''REST'' (dec_nat n) @ request_line c f @ later"
    and fits: "length (request_line c f) < MAX_COMMAND"
    and c: "(c, t) \<in> transfers p" "wf_request c f" and x: "sessions s p = Some x" "n < 2 ^ 63"
    and "pasv_listen_fd x \<noteq> - 1" "data_fd x \<notin> {- 1, 0}"
    and worker: "\<And>h1 h2 e l1 l2. sent (ctrl_fd x) h1 = rest_text n \<Longrightarrow> sent (ctrl_fd x) h2 = [] \<Longrightarrow>
      chats (ctrl_fd x) (h1 @ h2) \<Longrightarrow> length f < 30 \<Longrightarrow> nul \<notin> set f \<Longrightarrow>
      wp (run_thread K t) (\<lambda>_. Q) (grow (h1 @ h2) e (s\<lparr>sessions := (sessions s)(p \<mapsto> filled
        (filled x l1 ''REST'' (dec_nat n)\<lparr>restart_pos := int n\<rparr>) l2 c f), threads := threads s @ [t]\<rparr>))"
  shows "wp (rest_then K p) (\<lambda>_. Q) s"
proof -
  let ?y = "\<lambda>l. filled x l ''REST'' (dec_nat n)\<lparr>restart_pos := int n\<rparr>"
  have y: "ctrl_fd (?y l) = ctrl_fd x" "data_fd (?y l) = data_fd x" "pasv_listen_fd (?y l) = pasv_listen_fd x" for l
    by (simp_all add: filled_def)
  have f: "length f < 30" "nul \<notin> set f"
    using fits c(2) by (auto simp: wf_request_def request_line_def MAX_COMMAND_def split: if_splits)
  show ?thesis unfolding rest_then_def wp_seq
  proof (rule rest_request [OF assms(1,3) inp rest_fits [OF x(2)] x(2,1)])
    fix h1 e1 l1
    assume h1: "sent (ctrl_fd x) h1 = rest_text n" "taken (ctrl_fd x) h1 = request_line ''REST'' (dec_nat n)"
      "chats (ctrl_fd x) h1"
    let ?s1 = "grow h1 e1 (s\<lparr>sessions := (sessions s)(p \<mapsto> ?y l1)\<rparr>)"
    show "wp (processCtrlRead K p) (\<lambda>_. wp (bind (gets threads) (\<lambda>ts. run_thread K (last ts))) (\<lambda>_. Q)) ?s1"
    proof (rule transfer_request [of c t p K "?y l1", unfolded y, OF c(1) assms(3,2) _ fits c(2)])
      show "inp = taken (ctrl_fd x) (trace ?s1) @ request_line c f @ later" using inp h1(2) by simp
      fix h2 e2 l2
      assume h2: "sent (ctrl_fd x) h2 = []" "chats (ctrl_fd x) h2"
      show "wp (bind (gets threads) (\<lambda>ts. run_thread K (last ts))) (\<lambda>_. Q)
        (grow h2 e2 (?s1\<lparr>sessions := (sessions ?s1)(p \<mapsto> filled (?y l1) l2 c f), threads := threads ?s1 @ [t]\<rparr>))"
        using worker [OF h1(1) h2(1) _ f] h1(3) h2(2) by (simp add: grow_threads)
    qed (use assms(10,11) in simp_all)
  qed
qed

text \<open>The file goes from byte \<open>n\<close> to its end over the data connection, and the position, 150 and 226 over
  the control connection.\<close>

definition resumes :: "session \<Rightarrow> int \<Rightarrow> statbuf \<Rightarrow> string \<Rightarrow> string \<Rightarrow> nat \<Rightarrow> history \<Rightarrow> bool" where
  "resumes x fd b f c n h \<longleftrightarrow> sent_from (data_fd x) fd c h ([], 0) = (drop n c, max n (length c))
     \<and> sent (ctrl_fd x) h = rest_text n @ reply_text 150 (opening_text x f (st_size b))
         @ reply_text 226 ''Transfer complete.''"

text \<open>The worker that the second request starts.\<close>

lemma ready_to_transfer:
  assumes "abor_received x = 0" "distinct [fd, data_fd x, ctrl_fd x]" "nul \<notin> set f" "length f < 30"
  shows "let z = filled (filled x l1 r a\<lparr>restart_pos := int n\<rparr>) l2 c f in
     can_transfer z fd \<and> cstr (arg z) = f \<and> ctrl_fd z = ctrl_fd x \<and> data_fd z = data_fd x
     \<and> restart_pos z = int n \<and> dirfd z = dirfd x \<and> opening_text z = opening_text x"
proof -
  obtain m where "MAX_ARG - length f = Suc m" using assms(4) by (cases "MAX_ARG - length f") (auto simp: MAX_ARG_def)
  then have "zeros (MAX_ARG - length f) = nul # zeros m" by (simp add: zeros_Suc)
  then show ?thesis using assms by (simp add: filled_def can_transfer_def opening_text_def fun_eq_iff)
qed

lemma resumed_worker:
  assumes "file_ready K (dirfd x) f fd b" "writes_progress K" "sendfile_progress K"
    and x: "abor_received x = 0" "distinct [fd, data_fd x, ctrl_fd x]" "st_size b = int (length c)" "n < 2 ^ 32 - 1"
    and f: "nul \<notin> set f" "length f < 30"
    and h: "sent (ctrl_fd x) h1 = rest_text n" "sent (ctrl_fd x) h2 = []" "chats (ctrl_fd x) (h1 @ h2)"
  shows "wp (run_thread K (ThreadRetr p)) (\<lambda>_ s'. \<exists>h. trace s' = trace s @ h \<and> resumes x fd b f c n h)
     (grow (h1 @ h2) e (s\<lparr>sessions := (sessions s)(p \<mapsto> filled
       (filled x l1 ''REST'' (dec_nat n)\<lparr>restart_pos := int n\<rparr>) l2 ''RETR'' f), threads := ts\<rparr>))"
proof -
  let ?z = "filled (filled x l1 ''REST'' (dec_nat n)\<lparr>restart_pos := int n\<rparr>) l2 ''RETR'' f"
  note z = ready_to_transfer [OF x(1,2) f, where ?l1.0 = l1 and r = "''REST''" and a = "dec_nat n" and n = n and ?l2.0 = l2 and c = "''RETR''", unfolded Let_def]
  then have "restart_pos ?z mod 2 ^ 32 \<noteq> 2 ^ 32 - 1" using x(4) by simp
  with z show ?thesis unfolding run_thread_def thread.case
    by (intro wp_mono [OF threadRetr_spec [OF _ assms(2,3) _ _ x(3), where x = ?z]])
      (use assms(1) h chats_sent_from [OF h(3)] in \<open>auto simp: resumes_def\<close>)
qed

lemma resumed_from:
  assumes "file_ready K (dirfd x) f fd b" "writes_progress K" "sendfile_progress K" "\<forall>h. rv (K h SysThread) = 0"
    and "line_stream K (ctrl_fd x) inp"
    and "inp = taken (ctrl_fd x) (trace s) @ request_line ''REST'' (dec_nat n) @ request_line ''RETR'' f @ later"
    and "length (request_line ''RETR'' f) < MAX_COMMAND"
    and "wf_request ''RETR'' f" "sessions s p = Some x"
    and "abor_received x = 0" "distinct [fd, data_fd x, ctrl_fd x]" "pasv_listen_fd x \<noteq> - 1" "data_fd x \<notin> {- 1, 0}"
    and "st_size b = int (length c)" "n < 2 ^ 32 - 1"
  shows "wp (rest_then K p) (\<lambda>_ s'. \<exists>h. trace s' = trace s @ h \<and> resumes x fd b f c n h) s"
  using assms(15)
  by (intro wp_rest_then [OF assms(2,4-7) _ assms(8,9) _ assms(12,13), where t = "ThreadRetr p"] resumed_worker [OF assms(1-3,10,11,14,15)])
    (simp_all add: transfers_def)

text \<open>An upload: the bytes of the data connection, over what the file held from byte \<open>n\<close> on.\<close>

definition stores :: "session \<Rightarrow> int \<Rightarrow> statbuf \<Rightarrow> string \<Rightarrow> string \<Rightarrow> nat \<Rightarrow> string \<Rightarrow> history \<Rightarrow> bool" where
  "stores x fd b f c n inp h \<longleftrightarrow>
     fst (file_after fd h (c, 0)) = (if n = 0 then inp else take n c @ inp @ drop (n + length inp) c)
     \<and> sent (ctrl_fd x) h = rest_text n @ reply_text 150 (opening_text x f (st_size b))
         @ reply_text 226 ''Transfer complete.''"

lemma storing_worker:
  assumes "file_ready K (dirfd x) f fd b" "writes_progress K" "stream_eof K (data_fd x) (taken (data_fd x) (trace s) @ inp)"
    and x: "abor_received x = 0" "distinct [fd, data_fd x, ctrl_fd x]" "n \<le> length c"
    and f: "nul \<notin> set f" "length f < 30"
    and h: "sent (ctrl_fd x) h1 = rest_text n" "sent (ctrl_fd x) h2 = []" "chats (ctrl_fd x) (h1 @ h2)"
  shows "wp (run_thread K (UploadCommon p 0)) (\<lambda>_ s'. \<exists>h. trace s' = trace s @ h \<and> stores x fd b f c n inp h)
     (grow (h1 @ h2) e (s\<lparr>sessions := (sessions s)(p \<mapsto> filled
       (filled x l1 ''REST'' (dec_nat n)\<lparr>restart_pos := int n\<rparr>) l2 ''STOR'' f), threads := ts\<rparr>))"
proof -
  let ?z = "filled (filled x l1 ''REST'' (dec_nat n)\<lparr>restart_pos := int n\<rparr>) l2 ''STOR'' f"
  note z = ready_to_transfer [OF x(1,2) f, where ?l1.0 = l1 and r = "''REST''" and a = "dec_nat n" and n = n and ?l2.0 = l2 and c = "''STOR''", unfolded Let_def]
  have "fd \<noteq> ctrl_fd x" "data_fd x \<noteq> ctrl_fd x" using x(2) by auto
  note q = chats_effect [OF h(3) this(1)] chats_effect [OF h(3) this(2)]
  show ?thesis unfolding run_thread_def thread.case
    by (rule wp_mono [OF upload_spec [OF _ assms(2), where x = ?z and inp = inp and c = c]])
      (use assms(1,3) x(3) h z q in \<open>auto simp: stores_def\<close>)
qed

lemma stored_from:
  assumes "file_ready K (dirfd x) f fd b" "writes_progress K" "stream_eof K (data_fd x) (taken (data_fd x) (trace s) @ dat1)" "\<forall>h. rv (K h SysThread) = 0"
    and "line_stream K (ctrl_fd x) inp"
    and "inp = taken (ctrl_fd x) (trace s) @ request_line ''REST'' (dec_nat n) @ request_line ''STOR'' f @ later"
    and "length (request_line ''STOR'' f) < MAX_COMMAND"
    and "wf_request ''STOR'' f" "sessions s p = Some x"
    and "abor_received x = 0" "distinct [fd, data_fd x, ctrl_fd x]" "pasv_listen_fd x \<noteq> - 1" "data_fd x \<notin> {- 1, 0}"
    and "n \<le> length c" "n < 2 ^ 63"
  shows "wp (rest_then K p) (\<lambda>_ s'. \<exists>h. trace s' = trace s @ h \<and> stores x fd b f c n dat1 h) s"
  by (intro wp_rest_then [OF assms(2,4-7) _ assms(8,9,15,12,13), where t = "UploadCommon p 0"] storing_worker [OF assms(1-3,10,11,14)])
    (simp_all add: transfers_def)

section \<open>A kernel that starts workers\<close>

definition thread_kernel :: "string \<Rightarrow> int \<Rightarrow> kernel" where
  "thread_kernel inp n h c = (case c of SysThread \<Rightarrow> answer 0 | _ \<Rightarrow> small_kernel inp n h c)"

lemma thread_kernel_ok:
  "0 \<le> n \<Longrightarrow> n < 2 ^ 63 \<Longrightarrow> file_ready (thread_kernel inp n) d a 9 (stb (small_kernel inp n [] (SysFd Fstat 9)))"
  "writes_progress (thread_kernel inp n)" "sendfile_progress (thread_kernel inp n)"
  using small_kernel_ok [where n = n and inp = inp]
  by (auto simp: thread_kernel_def file_ready_def writes_progress_def sendfile_progress_def)

end
