(* ===== verification/Handlers.thy ===== *)
theory Handlers
  imports Frame
begin

text \<open>
  What single commands do: login, changing directory, renaming, and the address of a data
  connection.
\<close>

section \<open>Login and directories\<close>

lemma replies_call [keeps_intro]:
  "moves calls (get_sess q)" "moves calls (sess_arg q)" "moves calls (sprintf m t)"
  "moves calls (send_ctrl K q b)" "moves calls (ftp_reply K q n t)"
  unfolding ftp_reply_def send_ctrl_def get_sess_def sess_arg_def sprintf_def by (rule keeps_intro)+

lemma ftp_reply_Go:
  "ftp_reply K p n t s = Some (Go u s') \<Longrightarrow> sessions s' = sessions s \<and> (\<exists>h. trace s' = trace s @ h)"
  using movesE [OF _ replies_call(5)] calls_server [of s s'] by fastforce

lemma sess_arg_Go [simp]: "sess_arg p s = Some (Go a t) \<longleftrightarrow>
    t = s \<and> (\<exists>x. sessions s p = Some x \<and> terminated (arg x) \<and> a = cstr (arg x))"
  using wp_sess_arg [of p "\<lambda>b s'. b = a \<and> s' = t" s] by (auto simp: wp_ex split: option.splits)

lemma upd_sess_Go [simp]: "upd_sess p f s = Some (Go u t) \<longleftrightarrow>
    (\<exists>x. sessions s p = Some x \<and> t = s\<lparr>sessions := (sessions s)(p \<mapsto> f x)\<rparr>)"
  using wp_upd_sess [of p f "\<lambda>_ s'. s' = t" s] by (auto simp: wp_ex split: option.splits)

lemma stop_Go [simp]: "stop e s \<noteq> Some (Go x t)"
  by (simp add: stop_def)

lemma sys_Go: "sys K c s = Some (Go r t) \<Longrightarrow> trace t = trace s @ [(c, r)] \<and> sessions t = sessions s" for s t :: server
  by (auto simp: sys_run)

lemma call_Go: "call K c s = Some (Go v t) \<Longrightarrow>
    \<exists>r. v = rv r \<and> trace t = trace s @ [(c, r)] \<and> sessions t = sessions s" for s t :: server
  by (auto simp: call_def ret_def elim!: bind_Go_cases dest!: sys_Go)

text \<open>C17: whatever the kernel answers, PASS gives a session another directory only after the
  encryption of exactly the password that was sent, with the stored password of the user as salt,
  came out as the stored password.\<close>

theorem login_checks_password:
  assumes "do_pass K p s = Some (Go () s')" "sessions s p = Some x" "sessions s' p = Some x'"
    and "dirfd x' \<noteq> dirfd x"
  shows "\<exists>pw sp r. {(SysGetpwuid (uid x), pw), (SysPath Getspnam (dat pw), sp),
       (SysCrypt (cstr (arg x)) (dat sp), r)} \<subseteq> set (since s s')
     \<and> 0 \<le> rv pw \<and> 0 \<le> rv sp \<and> 0 \<le> rv r \<and> dat r = dat sp"
  using assms
  by (auto simp: do_pass_def seq_def since_def not_less elim!: bind_Go_cases split: if_splits
      dest!: ftp_reply_Go sys_Go call_Go) blast+

text \<open>A user whose password is stored as \<open>x\<close>, encrypts to it, and lives in a directory that opens as 8.\<close>

definition login_kernel :: kernel where
  "login_kernel h c = (case c of SysPath Open d \<Rightarrow> answer 8 | _ \<Rightarrow> (answer 1)\<lparr>dat := ''x''\<rparr>)"

lemma login_kernel_progress: "writes_progress login_kernel"
  by (simp add: writes_progress_def login_kernel_def)

lemma ready_arg [simp]: "terminated (arg ready_session)" "cstr (arg ready_session) = ''a.txt''"
  by (simp_all add: ready_session_def terminated_def nul_def cstr_def)

theorem login_checks_password_witness:
  "\<exists>s'. do_pass login_kernel 0 (ready_server ready_session) = Some (Go () s')
     \<and> sessions s' 0 = Some (ready_session\<lparr>dirfd := 8\<rparr>)
     \<and> (\<exists>stored r. (SysCrypt ''a.txt'' stored, r) \<in> set (since (ready_server ready_session) s') \<and> dat r = stored)"
proof -
  have d: "dirfd ready_session \<noteq> 8" by (simp add: ready_session_def)
  have "wp (do_pass login_kernel 0) (\<lambda>_ s'. sessions s' 0 = Some (ready_session\<lparr>dirfd := 8\<rparr>))
      (ready_server ready_session)"
    by (auto simp: do_pass_def login_kernel_def [of _ "SysPath _ _"] login_kernel_def [of _ "SysCrypt _ _"]
        login_kernel_def [of _ "SysGetpwuid _"] intro!: wp_ftp_reply [OF login_kernel_progress])
  then obtain s' where s': "do_pass login_kernel 0 (ready_server ready_session) = Some (Go () s')"
    "sessions s' 0 = Some (ready_session\<lparr>dirfd := 8\<rparr>)" by (auto simp: wp_ex)
  from login_checks_password [OF s'(1) _ s'(2)] d s' show ?thesis by (auto, metis)
qed

text \<open>CWD works for a session that never logged in (its directory is \<open>-1\<close>): whatever the kernel
  opens for the path becomes the directory of the session, and the reply reports success.\<close>

lemma cwd_without_login:
  assumes "sessions s p = Some x" "dirfd x = - 1" "terminated (arg x)" "writes_progress K"
    and "\<And>h. rv (K h (SysOpenat (- 1) (cstr (arg x)) False)) = fd" "0 \<le> fd"
  shows "wp (do_cwd K p) (\<lambda>_ s'. sessions s' p = Some (x\<lparr>dirfd := fd\<rparr>)
     \<and> sent (ctrl_fd x) (since s s') = reply_text FTP_CWDOK ''Directory successfully changed.'') s"
  using assms(1-3,5,6)
  by (auto simp: do_cwd_def get_file_name_def since_def intro!: wp_ftp_reply [OF assms(4)])

text \<open>Closing a session closes its sockets; the directory that PASS or CWD opened stays open.\<close>

lemma directory_left_open:
  assumes "sessions s p = Some x" "in_table (ctrl_fd x) s" "dirfd x \<notin> {ctrl_fd x, data_fd x, pasv_listen_fd x}"
    and "case fd_in (sessinfo s ! nat (ctrl_fd x)) of None \<Rightarrow> True | Some q \<Rightarrow> fdts s q \<noteq> None"
  shows "wp (closeSess K p) (\<lambda>_ s'. sessions s' p = None \<and> SysFd Close (dirfd x) \<notin> fst ` set (since s s')) s"
proof (rule wp_closeSess [OF assms(1,2,4)])
  fix h :: history and e assume "map fst h = map (SysFd Close) (open_fds x)"
  then have "fst ` set h = SysFd Close ` set (open_fds x)" by (metis list.set_map)
  then show "sessions (grow h e (without p (ctrl_fd x) s)) p = None
      \<and> SysFd Close (dirfd x) \<notin> fst ` set (since s (grow h e (without p (ctrl_fd x) s)))"
    using assms(3) by (auto simp: since_def open_fds_def)
qed

section \<open>Renaming\<close>

text \<open>RNTO asks the kernel once to rename the file that RNFR named, and reports success and
  forgets the name whatever the kernel answers.\<close>

lemma rename_reported_successful:
  assumes "sessions s p = Some x" "rnfr_name x = Some f" "terminated (arg x)" "writes_progress K"
  shows "wp (do_rnto K p) (\<lambda>_ s'. sessions s' = (sessions s)(p \<mapsto> x\<lparr>rnfr_name := None\<rparr>)
     \<and> (\<exists>r h. since s s' = (SysRename f (cstr (arg x)), r) # h \<and> writes_only (ctrl_fd x) h
          \<and> sent (ctrl_fd x) h = reply_text FTP_RENAMEOK ''Rename successful.'')) s"
  using assms(1-3) by (auto simp: do_rnto_def since_def intro!: wp_ftp_reply [OF assms(4)])

section \<open>Transfers without a data connection\<close>

text \<open>LIST, RETR and STOR do nothing at all when the session has no data connection: no reply, no
  call, no change. NLST and APPE never do anything, with or without one.\<close>

lemma no_data_connection_no_reply:
  assumes "sessions s p = Some x"
    and "m \<in> {do_list K p, do_retr K p, do_stor K p} \<and> (pasv_listen_fd x = - 1 \<or> data_fd x = - 1)
      \<or> m \<in> {do_appe K p, do_nlst K p}"
  shows "m s = Some (Go () s)"
  using assms
  by (auto simp: do_list_def do_retr_def do_stor_def do_appe_def do_nlst_def get_transfer_fd_def
      getPasvDataFd_def ret_def bind_def)

lemma grow_threads_of [simp]: "threads (grow h e s) = threads s"
  by (cases s) (simp add: grow_def)

lemma dispatch_transfers:
  "dispatch K p ''LIST'' = do_list K p" "dispatch K p ''RETR'' = do_retr K p" "dispatch K p ''STOR'' = do_stor K p"
  "dispatch K p ''NLST'' = do_nlst K p" "dispatch K p ''APPE'' = do_appe K p"
  by (simp_all add: dispatch_def ctrl_cmds_def)

definition no_transfer :: "session \<Rightarrow> string \<Rightarrow> bool" where
  "no_transfer x name \<longleftrightarrow> name \<in> {''LIST'', ''RETR'', ''STOR''} \<and> (pasv_listen_fd x = - 1 \<or> data_fd x = - 1)
     \<or> name \<in> {''NLST'', ''APPE''}"

lemma dispatch_no_transfer:
  assumes "sessions s p = Some x" "no_transfer x name"
  shows "dispatch K p name s = Some (Go () s)"
proof -
  have "dispatch K p name \<in> {do_list K p, do_retr K p, do_stor K p} \<and> (pasv_listen_fd x = - 1 \<or> data_fd x = - 1)
      \<or> dispatch K p name \<in> {do_appe K p, do_nlst K p}"
    using assms(2) by (auto simp: no_transfer_def dispatch_transfers)
  with assms(1) show ?thesis by (rule no_data_connection_no_reply)
qed

text \<open>C39: a client that asks for a listing or a transfer without a passive data connection, after PORT
  for instance, gets no answer at all, and so does one that sends NLST or APPE in any case: the request is
  read, and the server does not write, start a worker or make any other call.\<close>

theorem transfer_without_answer:
  assumes "line_stream K (ctrl_fd x) inp" "inp = taken (ctrl_fd x) (trace s) @ request_line c a @ later"
    and "wf_request c a" "length (request_line c a) < MAX_COMMAND" "sessions s p = Some x"
    and "no_transfer x (map toupper c)"
  shows "wp (processCtrlRead K p) (\<lambda>r s'. r = STATUS_NONE \<and> reads_only (ctrl_fd x) (since s s')
     \<and> taken (ctrl_fd x) (since s s') = request_line c a \<and> threads s' = threads s
     \<and> (\<exists>l. sessions s' = (sessions s)(p \<mapsto> filled x l c a))) s"
proof -
  obtain h e l where r: "reads_only (ctrl_fd x) h" "taken (ctrl_fd x) h = request_line c a"
    "processCtrlRead K p s = bind (dispatch K p (map toupper c)) (\<lambda>_. ret STATUS_NONE)
       (grow h e (s\<lparr>sessions := (sessions s)(p \<mapsto> filled x l c a)\<rparr>))" (is "_ = bind ?m ?f ?s")
    using request_dispatched_run [OF line_stream_request [OF assms(1,2)], of s c a "[]" p] assms(3-5) by auto
  have "no_transfer (filled x l c a) (map toupper c)" using assms(6) by (simp add: no_transfer_def filled_def)
  then have "dispatch K p (map toupper c) ?s = Some (Go () ?s)" by (intro dispatch_no_transfer) simp_all
  with r show ?thesis by (auto simp: wp_ex bind_def ret_def since_def)
qed

theorem transfer_without_answer_witness:
  "wp (processCtrlRead (drip 5 (request_line ''retr'' ''a.txt'')) 0)
     (\<lambda>r s'. (\<forall>fd. sent fd (since (ready_server (ready_session\<lparr>data_fd := - 1\<rparr>)) s') = []) \<and> threads s' = [])
     (ready_server (ready_session\<lparr>data_fd := - 1\<rparr>))"
proof -
  let ?x = "ready_session\<lparr>data_fd := - 1\<rparr>"
  have c: "map toupper ''retr'' = ''RETR''" by code_simp
  have x: "ctrl_fd (ready_session\<lparr>data_fd := - 1\<rparr>) = 5" "threads (ready_server x) = []" for x
    by (simp_all add: ready_session_def ready_server_def init_server_def)
  have "line_stream (drip 5 (request_line ''retr'' ''a.txt'')) 5 (request_line ''retr'' ''a.txt'')"
    by (rule byte_line_stream) (simp_all add: drip_def)
  then have s: "line_stream (drip 5 (request_line ''retr'' ''a.txt'')) (ctrl_fd ?x) (request_line ''retr'' ''a.txt'')"
    by (simp only: x)
  have i: "request_line ''retr'' ''a.txt'' = taken (ctrl_fd ?x) (trace (ready_server ?x)) @ request_line ''retr'' ''a.txt'' @ []"
    by simp
  have w: "wf_request ''retr'' ''a.txt''" "length (request_line ''retr'' ''a.txt'') < MAX_COMMAND"
    by (simp_all add: wf_request_def nul_def cr_def lf_def MAX_COMMAND_def request_line_def)
  have "no_transfer ?x (map toupper ''retr'')"
    unfolding no_transfer_def c by (simp del: list.map)
  from transfer_without_answer [OF s i w ready_server_simps(1) this]
  show ?thesis by (rule wp_mono) (auto simp: x reads_only_sent)
qed

section \<open>Addresses\<close>

text \<open>Numbers with a separator between them.\<close>

fun joined :: "char \<Rightarrow> nat list \<Rightarrow> string" where
  "joined c [] = []"
| "joined c [n] = dec_nat n"
| "joined c (n # ns) = dec_nat n @ c # joined c ns"

lemma dec_nat_first: "\<exists>c s. dec_nat n = c # s \<and> isdigit c"
proof -
  have "dec_nat n \<noteq> []" by (cases n) (simp_all add: dec_nat_def show_base.simps)
  then show ?thesis using dec_nat_isdigit [of "hd (dec_nat n)" n] by (cases "dec_nat n") auto
qed

lemma scan_uint_dec:
  assumes "n < 2 ^ 32" "r = [] \<or> \<not> isdigit (hd r)"
  shows "scan_uint (dec_nat n @ r) = Some (of_nat n, r)"
proof -
  obtain c s where c: "dec_nat n = c # s" "isdigit c" using dec_nat_first by blast
  have d: "\<forall>x \<in> set (dec_nat n). isdigit x" using dec_nat_isdigit by blast
  have sp: "dropWhile isspace (dec_nat n @ r) = dec_nat n @ r"
    using c isdigit_not_space by simp
  have sg: "c \<noteq> CHR ''-''" "c \<noteq> CHR ''+''" using c(2) by (auto simp: isdigit_def)
  have tw: "takeWhile isdigit (s @ r) = s" "dropWhile isdigit (s @ r) = r"
    using d assms(2) c(1) by (cases r; simp)+
  have "base_val 10 0 (dec_nat n) = n" using show_base_val [of 10 n] by (simp add: dec_nat_def)
  then show ?thesis using assms(1) c sg
    unfolding scan_uint_def Let_def sp by (simp add: tw)
qed

lemma scan_uints_joined:
  "\<forall>n \<in> set ns. n < 2 ^ 32 \<Longrightarrow> \<not> isdigit c \<Longrightarrow> r = [] \<or> \<not> isdigit (hd r) \<Longrightarrow>
   scan_uints c (length ns) (joined c ns @ r) = map of_nat ns"
proof (induction c ns rule: joined.induct [case_names Nil One Many])
  case (One c n)
  then show ?case by (simp add: scan_uint_dec split: list.split)
next
  case (Many c n m ns)
  have "scan_uint (dec_nat n @ c # joined c (m # ns) @ r) = Some (of_nat n, c # joined c (m # ns) @ r)"
    using Many.prems by (intro scan_uint_dec) simp_all
  with Many show ?case by (simp del: joined.simps(3) add: joined.simps(3) [of c n m ns])
qed simp

lemma scan_joined:
  "length ns = k \<Longrightarrow> \<forall>n \<in> set ns. n < 2 ^ 32 \<Longrightarrow> \<not> isdigit c \<Longrightarrow> scan_uints c k (joined c ns) = map of_nat ns"
  using scan_uints_joined [of ns c "[]"] by simp

lemma u32_bytes_four: "\<exists>a b c d. u32_bytes ip = [a, b, c, d]"
  by (simp add: u32_bytes_def)

lemma byte_bound: "unat (b :: 8 word) < 256"
  using unsigned_less [of b] by simp

lemma unat_byte [simp]: "unat (ucast b :: u32) = unat b" for b :: "8 word"
  using byte_bound [of b] by (simp add: unsigned_ucast_eq take_bit_nat_eq_self)

lemma ucast_byte [simp]: "(ucast (ucast b :: u32) :: 8 word) = b" for b :: "8 word"
  by (rule bit_word_eqI) (simp add: bit_simps)

lemma ucast_of_nat_byte [simp]: "(ucast (of_nat k :: u32) :: 8 word) = of_nat k"
  by (rule bit_word_eqI) (auto simp: bit_simps)

lemma scan_inet_ntoa: "scan_uints (CHR ''.'') 4 (inet_ntoa ip) = map ucast (u32_bytes ip)"
proof -
  obtain a b c d where u: "u32_bytes ip = [a, b, c, d]" using u32_bytes_four by blast
  let ?ns = "[unat a, unat b, unat c, unat d]"
  have e: "inet_ntoa ip = joined (CHR ''.'') ?ns" by (simp add: inet_ntoa_def u)
  have "scan_uints (CHR ''.'') 4 (joined (CHR ''.'') ?ns) = map of_nat ?ns"
    by (rule scan_joined) (auto simp: isdigit_def intro: less_trans [OF byte_bound])
  then show ?thesis by (simp add: e u del: joined.simps)
qed

lemma span_dec_nat:
  assumes "r = [] \<or> \<not> isdigit (hd r)"
  shows "takeWhile isdigit (dec_nat n @ r) = dec_nat n" "dropWhile isdigit (dec_nat n @ r) = r"
  using assms dec_nat_isdigit [of _ n] by (cases r; simp)+

lemma quads_dec:
  assumes "n < 256"
  shows "quads (Suc (Suc k)) (dec_nat n @ CHR ''.'' # t) = map_option (Cons n) (quads (Suc k) t)"
    and "quads (Suc 0) (dec_nat n) = Some [n]"
proof -
  have d: "\<not> isdigit (CHR ''.'')" by (simp add: isdigit_def)
  have v: "dec_nat n \<noteq> []" "base_val 10 0 (dec_nat n) = n"
    using dec_nat_first [of n] show_base_val [of 10 n] by (auto simp: dec_nat_def)
  have all: "takeWhile isdigit (dec_nat n) = dec_nat n" "dropWhile isdigit (dec_nat n) = []"
    using dec_nat_isdigit by (auto simp: takeWhile_eq_all_conv)
  show "quads (Suc (Suc k)) (dec_nat n @ CHR ''.'' # t) = map_option (Cons n) (quads (Suc k) t)"
    using assms v d span_dec_nat [of "CHR ''.'' # t" n] by (simp add: Let_def)
  show "quads (Suc 0) (dec_nat n) = Some [n]"
    using assms v by (simp add: Let_def all)
qed

text \<open>\<open>inet_addr\<close> reads what \<open>inet_ntoa\<close> writes, so \<open>tcp_client\<close> binds the address that
  \<open>getlocalip\<close> found.\<close>

lemma inet_addr_inet_ntoa: "inet_addr (inet_ntoa ip) = ip"
proof -
  obtain a b c d where u: "u32_bytes ip = [a, b, c, d]" using u32_bytes_four by blast
  have "quads 4 (inet_ntoa ip) = Some [unat a, unat b, unat c, unat d]"
    using byte_bound by (simp add: inet_ntoa_def u numeral_eq_Suc quads_dec del: quads.simps)
  moreover have "read_u32 [a, b, c, d] = Inr ip" using read_u32_bytes [of ip] unfolding u .
  ultimately show ?thesis by (simp add: inet_addr_def del: read_u32.simps)
qed

text \<open>C18: the reply to PASV names the socket: the six numbers in it, given back as the argument of
  PORT, are read as exactly the address and the port that PASV printed.\<close>

theorem pasv_port_roundtrip:
  assumes "sessions s p = Some x" "terminated (arg x)" "prt < 65536" "writes_progress K"
    and "pasv_text (scan_uints (CHR ''.'') 4 (inet_ntoa ip)) prt = ''Entering Passive Mode ('' @ cstr (arg x) @ '').''"
  shows "wp (do_port K p) (\<lambda>_ s'. sessions s' = (sessions s)(p \<mapsto> x\<lparr>port_addr :=
       Some ([of_nat (prt div 256), of_nat (prt mod 256)], u32_bytes ip)\<rparr>)
     \<and> sent (ctrl_fd x) (since s s') =
         reply_text FTP_PORTOK ''PORT command successful. Consider using PASV.'') s"
proof -
  obtain a b c d where u: "u32_bytes ip = [a, b, c, d]" using u32_bytes_four by blast
  let ?ns = "[unat a, unat b, unat c, unat d, prt div 256, prt mod 256]"
  have a: "cstr (arg x) = joined (CHR '','') ?ns"
    using assms(5) by (simp add: scan_inet_ntoa u pasv_text_def)
  have "scan_uints (CHR '','') 6 (cstr (arg x)) = map of_nat ?ns"
    unfolding a using assms(3) by (intro scan_joined) (auto simp: isdigit_def intro: less_trans [OF byte_bound])
  then show ?thesis using assms(1,2)
    by (auto simp: do_port_def since_def u intro!: wp_ftp_reply [OF assms(4)])
qed

lemma localhost_bytes: "u32_bytes 16777343 = [127, 0, 0, 1]"
  by code_simp

lemma localhost_text:
  "pasv_text (scan_uints (CHR ''.'') 4 (inet_ntoa 16777343)) 1025 = ''Entering Passive Mode (127,0,0,1,4,1).''"
  by (simp add: scan_inet_ntoa localhost_bytes pasv_text_def dec_nat_def show_base.simps char_of_def bit_Suc_0_iff)

lemma localhost_arg: "terminated (''127,0,0,1,4,1'' @ [nul])" "cstr (''127,0,0,1,4,1'' @ [nul]) = ''127,0,0,1,4,1''"
  by (simp_all add: terminated_def nul_def cstr_def)

theorem pasv_port_roundtrip_witness:
  "wp (do_port login_kernel 0) (\<lambda>_ s'. \<exists>x. sessions s' 0 = Some x
     \<and> port_addr x = Some ([4, 1], [127, 0, 0, 1])) (ready_server (ready_session\<lparr>arg := ''127,0,0,1,4,1'' @ [nul]\<rparr>))"
proof (rule wp_mono [OF pasv_port_roundtrip [where x = "ready_session\<lparr>arg := ''127,0,0,1,4,1'' @ [nul]\<rparr>"
        and ip = 16777343 and prt = 1025]])
  show "pasv_text (scan_uints (CHR ''.'') 4 (inet_ntoa 16777343)) 1025
    = ''Entering Passive Mode ('' @ cstr (arg (ready_session\<lparr>arg := ''127,0,0,1,4,1'' @ [nul]\<rparr>)) @ '').''"
    unfolding localhost_text by (simp add: localhost_arg(2) [simplified])
qed (auto simp: login_kernel_progress localhost_bytes localhost_arg [simplified])

end
