(* ===== verification/Passive.thy ===== *)
theory Passive
  imports Resume Handlers EventLoop
begin

text \<open>
  A passive data connection from the request to the first byte: \<open>PASV\<close> opens a listening socket and
  registers it for the session, the client connects, the loop of \<open>main\<close> accepts, and the transfer that
  \<open>RETR\<close> starts runs over the accepted descriptor. No code of its own: the theorems put \<open>do_pasv\<close>,
  \<open>handle_event\<close>, \<open>processDataRead\<close>, \<open>processCtrlRead\<close> and a worker together.
\<close>

section \<open>Calls that move no data\<close>

lemma quiet_sys:
  assumes "\<forall>d. harmless_call d c" and Q: "\<And>h e. quiet h \<Longrightarrow> Q (K (trace s) c) (grow h e s)"
  shows "wp (sys K c) Q s"
  using assms unfolding wp_sys by (subst after_grow) (simp add: quiet_def)

lemma quiet_call:
  assumes "\<forall>d. harmless_call d c" and Q: "\<And>h e. quiet h \<Longrightarrow> Q (rv (K (trace s) c)) (grow h e s)"
  shows "wp (call K c) Q s"
  using assms unfolding wp_call by (subst after_grow) (simp add: quiet_def)

lemma quiet_fail_exit:
  assumes "\<forall>d. harmless_call d c" "\<not> rv (K (trace s) c) < 0" and Q: "\<And>h e. quiet h \<Longrightarrow> Q (rv (K (trace s) c)) (grow h e s)"
  shows "wp (fail_exit K c) Q s"
  unfolding fail_exit_def wp_bind using assms by (intro quiet_call) simp_all

section \<open>The passive socket\<close>

text \<open>The machine has the address \<open>ip\<close>; a socket is the descriptor \<open>l\<close>, on which it can listen at the
  port \<open>prt\<close>, and the client that connects there is the descriptor \<open>d\<close>.\<close>

definition passive_ready :: "kernel \<Rightarrow> int \<Rightarrow> u32 \<Rightarrow> nat \<Rightarrow> int \<Rightarrow> bool" where
  "passive_ready K l ip prt d \<longleftrightarrow> fd_ok l \<and> 0 < d \<and> prt < 65536 \<and> (\<forall>h.
     0 \<le> rv (K h SysGethostname) \<and> rv (K h SysSocket) = l
     \<and> (\<forall>a. 0 \<le> rv (K h (SysPath Gethostbyname a)) \<and> num (K h (SysPath Gethostbyname a)) = ip)
     \<and> rv (K h (SysFd Setsockopt l)) = 0 \<and> rv (K h (SysBind l ip 0)) = 0 \<and> rv (K h (SysFd Listen l)) = 0
     \<and> 0 \<le> rv (K h (SysFd Getsockname l)) \<and> port (K h (SysFd Getsockname l)) = prt
     \<and> rv (K h (SysFd Accept l)) = d)"

lemma passive_ready_simps:
  assumes "passive_ready K l ip prt d"
  shows "\<not> rv (K h SysGethostname) < 0" "rv (K h SysSocket) = l" "\<not> rv (K h (SysPath Gethostbyname a)) < 0"
    "num (K h (SysPath Gethostbyname a)) = ip" "rv (K h (SysFd Setsockopt l)) = 0" "rv (K h (SysBind l ip 0)) = 0"
    "rv (K h (SysFd Listen l)) = 0" "\<not> rv (K h (SysFd Getsockname l)) < 0"
    "port (K h (SysFd Getsockname l)) = prt" "\<not> l < 0" "\<not> l < 0" "rv (K h (SysFd Accept l)) = d" "0 \<le> l" "prt < 65536" "0 < d" "fd_ok l"
  using assms by (auto simp: passive_ready_def fd_ok_def not_less)

definition pasv_reply :: "u32 \<Rightarrow> nat \<Rightarrow> string" where
  "pasv_reply ip prt = reply_text 227 (pasv_text (map ucast (u32_bytes ip)) prt)"

lemma dec_byte_length: "length (dec_nat (unat (b :: 8 word))) \<le> 3"
  using show_base_length [of 10 "unat b" 2] byte_bound [of b] by (simp add: dec_nat_def)

lemma inet_ntoa_fits: "length (inet_ntoa ip) \<le> 15" "nul \<notin> set (inet_ntoa ip)"
proof -
  obtain a b c d where u: "u32_bytes ip = [a, b, c, d]" using u32_bytes_four by blast
  have "nul \<notin> set (dec_nat n)" for n using dec_nat_isdigit isdigit_distinct(10) by metis
  then show "nul \<notin> set (inet_ntoa ip)" by (simp add: inet_ntoa_def u nul_def)
  show "length (inet_ntoa ip) \<le> 15"
    using dec_byte_length [of a] dec_byte_length [of b] dec_byte_length [of c] dec_byte_length [of d]
    by (simp add: inet_ntoa_def u)
qed

lemma wp_getlocalip:
  assumes "passive_ready K l ip prt d"
    and Q: "\<And>buf h e. quiet h \<Longrightarrow> cstr buf = inet_ntoa ip \<Longrightarrow> Q (0, buf) (grow h e s)"
  shows "wp (getlocalip K (zeros 16)) Q s"
proof -
  let ?t = "inet_ntoa ip @ [nul]"
  have t: "cstr ?t = inet_ntoa ip" "terminated ?t" using inet_ntoa_fits(2) by (simp_all add: terminated_def)
  then have c: "strcpy (zeros 16) ?t = Inr (inet_ntoa ip @ nul # drop (Suc (length (inet_ntoa ip))) (zeros 16))"
    using strcpy_fits [of ?t "zeros 16"] inet_ntoa_fits(1) [of ip] by simp
  note k = passive_ready_simps [OF assms(1)]
  show ?thesis unfolding getlocalip_def wp_bind
    apply (rule quiet_sys, simp)
    apply (simp only: k if_False wp_bind)
    apply (rule quiet_sys, simp)
    apply (simp only: k c if_False wp_bind wp_lift wp_ret sum.case grow_grow)
    apply (rule Q, simp)
    apply (simp add: inet_ntoa_fits(2))
    done
qed

lemma wp_tcp_server:
  assumes "passive_ready K l ip prt d" and Q: "\<And>h e. quiet h \<Longrightarrow> Q l (grow h e s)"
  shows "wp (tcp_server K (Some a) 0) Q s"
proof -
  note k = passive_ready_simps [OF assms(1)]
  show ?thesis unfolding tcp_server_def
    by (simp add: k Q del: wp_sys | rule quiet_sys quiet_fail_exit)+
qed

lemma wp_getDataLisPort:
  assumes "passive_ready K l ip prt d" "sessions s p = Some x"
    and Q: "\<And>h e. quiet h \<Longrightarrow> Q prt (grow h e (s\<lparr>sessions := (sessions s)(p \<mapsto> x\<lparr>pasv_listen_fd := l\<rparr>)\<rparr>))"
  shows "wp (getDataLisPort K p) Q s"
  unfolding getDataLisPort_def
  by (simp add: passive_ready_simps [OF assms(1)] assms(2) Q del: wp_sys
      | rule quiet_sys wp_getlocalip [OF assms(1)] wp_tcp_server [OF assms(1)])+

lemma wp_addFdData:
  assumes "\<And>h e. quiet h \<Longrightarrow> Q () (grow h e s)"
  shows "wp (addFdData K ep fd q b) Q s"
  unfolding addFdData_def setnonblocking_def wp_seq wp_bind
  by (rule quiet_call, simp)+ (simp add: assms)

text \<open>The state in which \<open>l\<close> is the passive socket of session \<open>p\<close>.\<close>

definition with_passive :: "nat \<Rightarrow> session \<Rightarrow> int \<Rightarrow> server \<Rightarrow> server" where
  "with_passive p x l s = s\<lparr>sessions := (sessions s)(p \<mapsto> x\<lparr>pasv_listen_fd := l\<rparr>),
     fdts := (fdts s)(fdt_brk s \<mapsto> \<lparr>fd_type = FDTYPEDATA, fd_fd = l\<rparr>), fdt_brk := Suc (fdt_brk s),
     sessinfo := (sessinfo s)[nat l := \<lparr>fd_in = Some (fdt_brk s), ed_sess = Some p\<rparr>]\<rparr>"

lemma grow_fdt_brk [simp]:
  "(grow h e s)\<lparr>fdt_brk := n\<rparr> = grow h e (s\<lparr>fdt_brk := n\<rparr>)" "in_table fd (s\<lparr>fdt_brk := n\<rparr>) = in_table fd s"
  by (cases s; simp add: grow_def in_table_def)+

lemma with_passive_grow [simp]:
  "with_passive p x l (grow h e s) = grow h e (with_passive p x l s)"
  "with_passive p x l (s\<lparr>sessions := (sessions s)(p := y)\<rparr>) = with_passive p x l s"
  by (cases s; simp add: with_passive_def grow_def)+

lemma pasv_reply_fits: "length (pasv_text (map ucast (u32_bytes ip)) prt) < 1000" if "prt < 65536"
proof -
  obtain a b c d where u: "u32_bytes ip = [a, b, c, d]" using u32_bytes_four by blast
  have "length (dec_nat (prt div 256)) \<le> 3" "length (dec_nat (prt mod 256)) \<le> 3"
    using show_base_length [of 10 "prt div 256" 2] show_base_length [of 10 "prt mod 256" 2] that
    by (simp_all add: dec_nat_def)
  then show ?thesis
    using dec_byte_length [of a] dec_byte_length [of b] dec_byte_length [of c] dec_byte_length [of d]
    by (simp add: pasv_text_def u)
qed

lemma wp_do_pasv:
  assumes K: "passive_ready K l ip prt d" "writes_progress K" and x: "sessions s p = Some x"
    and l: "length (sessinfo s) = MAX_SESSIONS"
    and Q: "\<And>h e. sent (ctrl_fd x) h = pasv_reply ip prt \<Longrightarrow> taken (ctrl_fd x) h = [] \<Longrightarrow>
      chats (ctrl_fd x) h \<Longrightarrow> Q () (grow h e (with_passive p x l s))"
  shows "wp (do_pasv K p) Q s"
proof -
  note k = passive_ready_simps [OF K(1)]
  have t: "in_table l s" using K(1) l by (simp add: in_table_def passive_ready_def fd_ok_def)
  have len: "length (map ucast (u32_bytes ip) :: u32 list) = 4" by (simp add: u32_bytes_def)
  let ?t = "pasv_text (map ucast (u32_bytes ip)) prt"
  have f: "length ?t < 1000" by (rule pasv_reply_fits) (rule k)
  have r: "length (reply_text 227 ?t) < 1024" using f by (simp add: reply_text_def)
  have reply: "wp (ftp_reply K p FTP_PASVOK ?t) Q (grow h e (with_passive p x l s))" if "quiet h" for h e
    using r that
    by (auto simp: with_passive_def FTP_PASVOK_def writes_only_taken quiet_effect chats_talk
        intro!: wp_ftp_reply [OF K(2)] Q [unfolded with_passive_def pasv_reply_def])
  show ?thesis unfolding do_pasv_def wp_bind wp_seq
    apply (rule wp_getlocalip [OF K(1)])
    apply simp
    apply (rule wp_getDataLisPort [OF K(1)], simp add: x)
    apply (simp add: t in_table_def [symmetric])
    apply (rule wp_addFdData)
    apply (use reply t f in \<open>simp add: scan_inet_ntoa len with_passive_def\<close>)
    done
qed

lemma dispatch_pasv: "dispatch K p ''PASV'' = do_pasv K p"
  by (simp add: dispatch_def ctrl_cmds_def)

text \<open>The request, and the event of the client that connects.\<close>

lemma pasv_request:
  assumes K: "passive_ready K l ip prt d" "writes_progress K" "line_stream K (ctrl_fd x) inp"
    and inp: "inp = taken (ctrl_fd x) (trace s) @ request_line ''PASV'' [] @ later"
    and x: "sessions s p = Some x" "length (sessinfo s) = MAX_SESSIONS"
    and Q: "\<And>h e b. sent (ctrl_fd x) h = pasv_reply ip prt \<Longrightarrow> taken (ctrl_fd x) h = request_line ''PASV'' [] \<Longrightarrow>
      chats (ctrl_fd x) h \<Longrightarrow>
      Q STATUS_NONE (grow h e (with_passive p (filled x b ''PASV'' []) l s))"
  shows "wp (processCtrlRead K p) Q s"
proof -
  have up: "map toupper ''PASV'' = ''PASV''" by code_simp
  have wf: "wf_request ''PASV'' []" and fits: "length (request_line ''PASV'' []) < MAX_COMMAND"
    by (simp_all add: wf_request_def nul_def cr_def lf_def request_line_def MAX_COMMAND_def)
  show ?thesis
  proof (rule wp_request [OF K(3) inp wf fits x(1)], unfold up dispatch_pasv)
    fix h e b
    assume h: "reads_only (ctrl_fd x) h" "taken (ctrl_fd x) h = request_line ''PASV'' []"
    let ?y = "filled x b ''PASV'' []"
    have y: "ctrl_fd ?y = ctrl_fd x" by (simp add: filled_def)
    show "wp (do_pasv K p) (\<lambda>_. Q STATUS_NONE) (grow h e (s\<lparr>sessions := (sessions s)(p \<mapsto> ?y)\<rparr>))"
    proof (rule wp_do_pasv [OF K(1,2)], simp, simp add: x)
      fix h' e'
      assume h': "sent (ctrl_fd ?y) h' = pasv_reply ip prt" "taken (ctrl_fd ?y) h' = []"
        "chats (ctrl_fd ?y) h'"
      have "Q STATUS_NONE (grow (h @ h') e' (with_passive p ?y l s))"
        using h h' unfolding y by (intro Q) (simp_all add: reads_only_sent chats_talk)
      then show "Q STATUS_NONE (grow h' e' (with_passive p ?y l (grow h e (s\<lparr>sessions := (sessions s)(p \<mapsto> ?y)\<rparr>))))"
        by simp
    qed
  qed
qed

lemma with_passive_data:
  "(with_passive p x l s)\<lparr>sessions := (sessions s)(p \<mapsto> x\<lparr>pasv_listen_fd := l, data_fd := d\<rparr>)\<rparr>
   = with_passive p (x\<lparr>data_fd := d\<rparr>) l s"
  by (cases x) (simp add: with_passive_def)

lemma with_passive_simps [simp]:
  "sessions (with_passive p x l s) = (sessions s)(p \<mapsto> x\<lparr>pasv_listen_fd := l\<rparr>)"
  "trace (with_passive p x l s) = trace s" "conns (with_passive p x l s) = conns s"
  "threads (with_passive p x l s) = threads s"
  by (simp_all add: with_passive_def)

lemma accept_data:
  assumes K: "passive_ready K l ip prt d" and s: "sessions s p = Some x" "pasv_listen_fd x = l"
    and Q: "\<And>h e. quiet h \<Longrightarrow> Q 0 (grow h e (s\<lparr>sessions := (sessions s)(p \<mapsto> x\<lparr>data_fd := d\<rparr>)\<rparr>))"
  shows "wp (processDataRead K p) Q s"
proof -
  note k = passive_ready_simps [OF K]
  have "\<not> d < 0" "l \<noteq> - 1" using k(11) K by (auto simp: passive_ready_def)
  moreover have "wp (call K (SysFd Accept l)) (\<lambda>fd. wp (if fd < 0 then ret (- 1)
      else seq (upd_sess p (\<lambda>x. x\<lparr>data_fd := fd\<rparr>)) (ret 0)) Q) s"
    using \<open>\<not> d < 0\<close> s Q by (intro quiet_call) (simp_all add: k)
  ultimately show ?thesis by (simp add: processDataRead_def s)
qed

lemma data_event:
  assumes K: "passive_ready K l ip prt d" and l: "l \<noteq> listenfd" "map_fd_toNode (conns s) ! nat l = None"
    and s: "length (sessinfo s) = MAX_SESSIONS" "length (map_fd_toNode (conns s)) = MAX_SESSIONS"
    and Q: "\<And>h e. quiet h \<Longrightarrow> Q () (grow (h0 @ h) e (with_passive p (x\<lparr>data_fd := d\<rparr>) l s))"
  shows "wp (handle_event K listenfd (True, False, False, Data_ptr (nat l))) Q (grow h0 e0 (with_passive p x l s))"
proof -
  have i: "nat l < MAX_SESSIONS" "0 \<le> l" using K by (simp_all add: passive_ready_def fd_ok_def)
  have np: "bnd (fd_index l) (peek_at (map_fd_toNode (conns s))) = Inr None"
    using i l(2) s(2) by (simp add: fd_index_def peek_at_def)
  let ?t = "grow h0 e0 (with_passive p x l s)"
  have info: "peek_at (sessinfo (with_passive p x l s)) (nat l) = Inr \<lparr>fd_in = Some (fdt_brk s), ed_sess = Some p\<rparr>"
    "fdts (with_passive p x l s) (fdt_brk s) = Some \<lparr>fd_type = FDTYPEDATA, fd_fd = l\<rparr>"
    using i s(1) by (simp_all add: with_passive_def peek_at_def)
  have "wp (processDataRead K p) (\<lambda>r s'. Q () s' \<and> r = 0) ?t"
  proof (rule accept_data [OF K, where x = "x\<lparr>pasv_listen_fd := l\<rparr>"])
    fix h e assume "quiet h"
    with Q show "Q () (grow h e (?t\<lparr>sessions := (sessions ?t)(p \<mapsto> x\<lparr>pasv_listen_fd := l, data_fd := d\<rparr>)\<rparr>)) \<and> 0 = (0 :: int)"
      by (simp add: with_passive_data)
  qed simp_all
  with l(1) show ?thesis
    by (simp add: handle_event_def info get_fdt_def deref_def refresh_conn_def np processRead_def
        STATUS_WRITE_def STATUS_RM_def FDTYPECTRL_def FDTYPEDATA_def wp_mono)
qed

text \<open>Whatever follows runs on the session with its data connection.\<close>

definition passive_then :: "kernel \<Rightarrow> int \<Rightarrow> nat \<Rightarrow> int \<Rightarrow> (unit, server) prog \<Rightarrow> (unit, server) prog" where
  "passive_then K listenfd p l m =
     seq (processCtrlRead K p) (seq (handle_event K listenfd (True, False, False, Data_ptr (nat l))) m)"

definition no_passive_yet :: "int \<Rightarrow> int \<Rightarrow> server \<Rightarrow> bool" where
  "no_passive_yet l listenfd s \<longleftrightarrow> l \<noteq> listenfd \<and> map_fd_toNode (conns s) ! nat l = None
     \<and> length (sessinfo s) = MAX_SESSIONS \<and> length (map_fd_toNode (conns s)) = MAX_SESSIONS"

lemma wp_passive_then:
  assumes K: "passive_ready K l ip prt d" "writes_progress K"
      "line_stream K (ctrl_fd x) (taken (ctrl_fd x) (trace s) @ request_line ''PASV'' [] @ later)"
    and s: "sessions s p = Some x" "no_passive_yet l listenfd s"
    and m: "\<And>h t z. sent (ctrl_fd x) h = pasv_reply ip prt \<Longrightarrow> taken (ctrl_fd x) h = request_line ''PASV'' [] \<Longrightarrow>
      chats (ctrl_fd x) h \<Longrightarrow> trace t = trace s @ h \<Longrightarrow> sessions t p = Some z \<Longrightarrow> ctrl_fd z = ctrl_fd x \<Longrightarrow>
      data_fd z = d \<Longrightarrow> pasv_listen_fd z = l \<Longrightarrow> abor_received z = abor_received x \<Longrightarrow>
      dirfd z = dirfd x \<Longrightarrow> opening_text z = opening_text x \<Longrightarrow>
      wp m Q t"
  shows "wp (passive_then K listenfd p l m) Q s"
  unfolding passive_then_def wp_seq
proof (rule pasv_request [OF K refl s(1)])
  note t = s(2) [unfolded no_passive_yet_def]
  show "length (sessinfo s) = MAX_SESSIONS" using t by simp
  fix h e b
  assume h: "sent (ctrl_fd x) h = pasv_reply ip prt" "taken (ctrl_fd x) h = request_line ''PASV'' []" "chats (ctrl_fd x) h"
  let ?y = "filled x b ''PASV'' []"
  show "wp (handle_event K listenfd (True, False, False, Data_ptr (nat l))) (\<lambda>_. wp m Q) (grow h e (with_passive p ?y l s))"
  proof (rule data_event [OF K(1)])
    fix h' e' assume "quiet h'"
    then show "wp m Q (grow (h @ h') e' (with_passive p (?y\<lparr>data_fd := d\<rparr>) l s))"
      using h by (intro m [of "h @ h'" _ "?y\<lparr>data_fd := d, pasv_listen_fd := l\<rparr>"])
        (simp_all add: quiet_effect chats_talk filled_def opening_text_def fun_eq_iff)
  qed (use t in simp_all)
qed

section \<open>Properties\<close>

text \<open>C13: a client, with or without an earlier data connection, sends \<open>PASV\<close>, connects to the address in
  the reply, and sends \<open>REST n\<close> and \<open>RETR f\<close>: the event of its connection makes the accepted descriptor the
  data connection of its session, and the file \<open>f\<close> of the directory of the session goes from byte \<open>n\<close> to its
  end over this descriptor. The requests stand anywhere in what the client sends, after its login and
  before whatever it sends later; each fits the buffer of a command, and the client sends one at a time.\<close>

theorem passive_download:
  assumes "passive_ready K l ip prt d" "file_ready K (dirfd x) f fd b" "writes_progress K" "sendfile_progress K"
    and "\<forall>h. rv (K h SysThread) = 0"
    and "line_stream K (ctrl_fd x) (taken (ctrl_fd x) (trace s)
           @ request_line ''PASV'' [] @ request_line ''REST'' (dec_nat n) @ request_line ''RETR'' f @ later)"
    and "length (request_line ''RETR'' f) < MAX_COMMAND" "wf_request ''RETR'' f" "sessions s p = Some x"
    and "abor_received x = 0" "distinct [fd, d, ctrl_fd x]" "st_size b = int (length c)" "n < 2 ^ 32 - 1"
    and "no_passive_yet l listenfd s"
  shows "wp (passive_then K listenfd p l (rest_then K p))
     (\<lambda>_ s'. sent_from d fd c (since s s') ([], 0) = (drop n c, max n (length c))
       \<and> sent (ctrl_fd x) (since s s') = pasv_reply ip prt @ rest_text n
           @ reply_text 150 (opening_text x f (st_size b)) @ reply_text 226 ''Transfer complete.'') s"
proof (rule wp_passive_then [OF assms(1,3,6,9,14)])
  have d: "0 < d" "0 \<le> l" using assms(1) by (simp_all add: passive_ready_def fd_ok_def)
  fix h z and t :: server
  assume h: "sent (ctrl_fd x) h = pasv_reply ip prt" "taken (ctrl_fd x) h = request_line ''PASV'' []"
    "chats (ctrl_fd x) h" "trace t = trace s @ h" "sessions t p = Some z"
    and z: "ctrl_fd z = ctrl_fd x" "data_fd z = d" "pasv_listen_fd z = l" "abor_received z = abor_received x"
      "dirfd z = dirfd x" "opening_text z = opening_text x"
  have "wp (rest_then K p) (\<lambda>_ s'. \<exists>h. trace s' = trace t @ h \<and> resumes z fd b f c n h) t"
    using assms(2,6,10,11) d h(2,4) z
    by (intro resumed_from [OF _ assms(3-5) _ _ assms(7,8) h(5) _ _ _ _ assms(12,13), where later = later]) auto
  then show "wp (rest_then K p) (\<lambda>_ s'. sent_from d fd c (since s s') ([], 0) = (drop n c, max n (length c))
       \<and> sent (ctrl_fd x) (since s s') = pasv_reply ip prt @ rest_text n
           @ reply_text 150 (opening_text x f (st_size b)) @ reply_text 226 ''Transfer complete.'') t"
    by (rule wp_mono) (use h z chats_sent_from [OF h(3)] in \<open>auto simp: since_def resumes_def\<close>)
qed

text \<open>C14: the same with \<open>STOR f\<close> in place of \<open>RETR f\<close>: what comes over the accepted descriptor until its
  end is stored in the file \<open>f\<close> of the directory of the session, over what it held from byte \<open>n\<close> on, or in
  place of it when \<open>n\<close> is 0.\<close>

theorem passive_upload:
  assumes "passive_ready K l ip prt d" "file_ready K (dirfd x) f fd b" "writes_progress K"
    and "stream_eof K d (taken d (trace s) @ inp)" "\<forall>h. rv (K h SysThread) = 0"
    and "line_stream K (ctrl_fd x) (taken (ctrl_fd x) (trace s)
           @ request_line ''PASV'' [] @ request_line ''REST'' (dec_nat n) @ request_line ''STOR'' f @ later)"
    and "length (request_line ''STOR'' f) < MAX_COMMAND" "wf_request ''STOR'' f" "sessions s p = Some x"
    and "abor_received x = 0" "distinct [fd, d, ctrl_fd x]" "n \<le> length c" "n < 2 ^ 63"
    and "no_passive_yet l listenfd s"
  shows "wp (passive_then K listenfd p l (rest_then K p))
     (\<lambda>_ s'. fst (file_after fd (since s s') (c, 0)) = (if n = 0 then inp else take n c @ inp @ drop (n + length inp) c)
       \<and> sent (ctrl_fd x) (since s s') = pasv_reply ip prt @ rest_text n
           @ reply_text 150 (opening_text x f (st_size b)) @ reply_text 226 ''Transfer complete.'') s"
proof (rule wp_passive_then [OF assms(1,3,6,9,14)])
  have d: "0 < d" "0 \<le> l" "fd \<noteq> ctrl_fd x" "d \<noteq> ctrl_fd x"
    using assms(1,11) by (auto simp: passive_ready_def fd_ok_def)
  fix h z and t :: server
  assume h: "sent (ctrl_fd x) h = pasv_reply ip prt" "taken (ctrl_fd x) h = request_line ''PASV'' []"
    "chats (ctrl_fd x) h" "trace t = trace s @ h" "sessions t p = Some z"
    and z: "ctrl_fd z = ctrl_fd x" "data_fd z = d" "pasv_listen_fd z = l" "abor_received z = abor_received x"
      "dirfd z = dirfd x" "opening_text z = opening_text x"
  have "taken d (trace t) = taken d (trace s)" using h(4) chats_effect(2) [OF h(3) d(4)] by simp
  then have "wp (rest_then K p) (\<lambda>_ s'. \<exists>h. trace s' = trace t @ h \<and> stores z fd b f c n inp h) t"
    using assms(2,4,6,10,11) d h(2,4) z
    by (intro stored_from [OF _ assms(3) _ assms(5) _ _ assms(7,8) h(5) _ _ _ _ assms(12,13), where later = later]) auto
  then show "wp (rest_then K p) (\<lambda>_ s'. fst (file_after fd (since s s') (c, 0)) =
         (if n = 0 then inp else take n c @ inp @ drop (n + length inp) c)
       \<and> sent (ctrl_fd x) (since s s') = pasv_reply ip prt @ rest_text n
           @ reply_text 150 (opening_text x f (st_size b)) @ reply_text 226 ''Transfer complete.'') t"
    by (rule wp_mono) (use h z chats_effect [OF h(3) d(3)] in \<open>auto simp: since_def stores_def\<close>)
qed

section \<open>Witnesses\<close>

text \<open>A kernel that brings \<open>inp fd\<close> on the descriptor \<open>fd\<close>, byte by byte.\<close>

definition passive_kernel :: "(int \<Rightarrow> string) \<Rightarrow> int \<Rightarrow> kernel" where
  "passive_kernel inp n h c = (case c of
     SysSocket \<Rightarrow> answer 6 | SysGethostname \<Rightarrow> answer 0 | SysBind _ _ _ \<Rightarrow> answer 0
   | SysPath _ _ \<Rightarrow> (answer 0)\<lparr>num := 16777343\<rparr>
   | SysFd Accept _ \<Rightarrow> answer 7 | SysFd Getsockname _ \<Rightarrow> (answer 0)\<lparr>port := 1025\<rparr>
   | SysRead fd _ \<Rightarrow> thread_kernel (inp fd) n h c | SysPeek fd _ \<Rightarrow> thread_kernel (inp fd) n h c
   | _ \<Rightarrow> thread_kernel [] n h c)"

lemma passive_kernel_ok:
  "passive_ready (passive_kernel inp n) 6 16777343 1025 7"
  "0 \<le> n \<Longrightarrow> n < 2 ^ 63 \<Longrightarrow> file_ready (passive_kernel inp n) dd a 9 (stb (small_kernel [] n [] (SysFd Fstat 9)))"
  "writes_progress (passive_kernel inp n)" "sendfile_progress (passive_kernel inp n)"
  "line_stream (passive_kernel inp n) fd (inp fd)" "stream_eof (passive_kernel inp n) fd (inp fd)"
  using thread_kernel_ok [where n = n and inp = "[]"] small_kernel_ok(4) [of "inp fd" n fd]
    byte_line_stream [of "passive_kernel inp n" fd "inp fd"]
  by (auto simp: passive_kernel_def passive_ready_def fd_ok_def MAX_SESSIONS_def thread_kernel_def small_kernel_def
      file_ready_def writes_progress_def sendfile_progress_def stream_def stream_eof_def)

lemma passive_kernel_thread: "\<forall>h. rv (passive_kernel inp n h SysThread) = 0"
  by (simp add: passive_kernel_def thread_kernel_def)

lemma ready_no_passive: "no_passive_yet 6 3 (ready_server x)"
  by (simp add: no_passive_yet_def ready_server_def init_server_def init_lru_def MAX_SESSIONS_def)

text \<open>A server with one client, which has logged in and fetches \<open>lo\<close> of \<open>hello\<close> from its directory.\<close>

definition login :: string where
  "login = request_line ''USER'' ''guest'' @ request_line ''PASS'' ''guest''"

definition fetches :: "int \<Rightarrow> string" where
  "fetches fd = login @ request_line ''PASV'' [] @ request_line ''REST'' ''3'' @ request_line ''RETR'' ''report-2024.txt''
     @ request_line ''QUIT'' []"

definition brings_new :: "int \<Rightarrow> string" where
  "brings_new fd = (if fd = 5 then login @ request_line ''PASV'' [] @ request_line ''REST'' ''3''
     @ request_line ''STOR'' ''report-2024.txt'' @ request_line ''QUIT'' [] else ''new'')"

definition logged_in :: session where
  "logged_in = init_session\<lparr>ctrl_fd := 5, uid := 1000, dirfd := 4\<rparr>"

definition login_server :: server where
  "login_server = (ready_server logged_in)\<lparr>trace := [(SysRead 5 1024, (answer 0)\<lparr>dat := login\<rparr>)]\<rparr>"

lemma three: "dec_nat 3 = ''3''"
  by code_simp

lemma logged_in_simps [simp]:
  "ctrl_fd logged_in = 5" "abor_received logged_in = 0" "dirfd logged_in = 4"
  "sessions login_server 0 = Some logged_in" "taken fd (trace login_server) = (if fd = 5 then login else [])"
  by (simp_all add: logged_in_def init_session_def login_server_def login_def request_line_def)

lemma login_no_passive: "no_passive_yet 6 3 login_server"
  using ready_no_passive [of logged_in] by (simp add: no_passive_yet_def login_server_def)

theorem passive_download_witness:
  "wp (passive_then (passive_kernel fetches 5) 3 0 6 (rest_then (passive_kernel fetches 5) 0))
     (\<lambda>_ s'. sent_from 7 9 ''hello'' (since login_server s') ([], 0) = (''lo'', 5)) login_server"
proof -
  let ?b = "stb (small_kernel [] 5 [] (SysFd Fstat 9))"
  have b: "st_size ?b = int (length ''hello'')" by (simp add: small_kernel_def)
  have f: "file_ready (passive_kernel fetches 5) (dirfd logged_in) ''report-2024.txt'' 9 ?b" by (rule passive_kernel_ok) simp_all
  have w: "wf_request ''RETR'' ''report-2024.txt''" by (simp add: wf_request_def nul_def cr_def lf_def)
  have l: "length (request_line ''RETR'' ''report-2024.txt'') < MAX_COMMAND" by (simp add: request_line_def MAX_COMMAND_def)
  have s: "line_stream (passive_kernel fetches 5) (ctrl_fd logged_in) (taken (ctrl_fd logged_in) (trace login_server)
      @ request_line ''PASV'' [] @ request_line ''REST'' (dec_nat 3)
      @ request_line ''RETR'' ''report-2024.txt'' @ request_line ''QUIT'' [])"
    using passive_kernel_ok(5) [of fetches 5 5] by (simp add: fetches_def three)
  have "distinct [9 :: int, 7, ctrl_fd logged_in]" "(3 :: nat) < 2 ^ 32 - 1" by simp_all
  from passive_download [OF passive_kernel_ok(1) f passive_kernel_ok(3,4) passive_kernel_thread s l w logged_in_simps(4,2) this(1) b this(2)
      login_no_passive]
  show ?thesis by (rule wp_mono) simp
qed

theorem passive_upload_witness:
  "wp (passive_then (passive_kernel brings_new 0) 3 0 6 (rest_then (passive_kernel brings_new 0) 0))
     (\<lambda>_ s'. fst (file_after 9 (since login_server s') (''abcdefg'', 0)) = ''abcnewg'') login_server"
proof -
  let ?b = "stb (small_kernel [] 0 [] (SysFd Fstat 9))"
  have f: "file_ready (passive_kernel brings_new 0) (dirfd logged_in) ''report-2024.txt'' 9 ?b" by (rule passive_kernel_ok) simp_all
  have w: "wf_request ''STOR'' ''report-2024.txt''" by (simp add: wf_request_def nul_def cr_def lf_def)
  have l: "length (request_line ''STOR'' ''report-2024.txt'') < MAX_COMMAND" by (simp add: request_line_def MAX_COMMAND_def)
  have s: "line_stream (passive_kernel brings_new 0) (ctrl_fd logged_in) (taken (ctrl_fd logged_in) (trace login_server)
      @ request_line ''PASV'' [] @ request_line ''REST'' (dec_nat 3)
      @ request_line ''STOR'' ''report-2024.txt'' @ request_line ''QUIT'' [])"
    using passive_kernel_ok(5) [of brings_new 0 5] by (simp add: brings_new_def three)
  have e: "stream_eof (passive_kernel brings_new 0) 7 (taken 7 (trace login_server) @ ''new'')"
    using passive_kernel_ok(6) [of brings_new 0 7] by (simp add: brings_new_def)
  have "distinct [9 :: int, 7, ctrl_fd logged_in]" "3 \<le> length ''abcdefg''" "(3 :: nat) < 2 ^ 63" by simp_all
  from passive_upload [OF passive_kernel_ok(1) f passive_kernel_ok(3) e passive_kernel_thread s l w logged_in_simps(4,2) this
      login_no_passive]
  show ?thesis by (rule wp_mono) simp
qed

end
