(* ===== verification/Listing.thy ===== *)
theory Listing
  imports Frame
begin

text \<open>
  What LIST sends: against a kernel that lists a directory, the data connection gets one line for
  every entry whose name does not start with a dot, in the order of the directory.
\<close>

section \<open>Directories\<close>

text \<open>An entry: its name, its status, and where it points to when it is a symbolic link.\<close>

type_synonym entry = "string \<times> statbuf \<times> string"

text \<open>How many entries have been read from \<open>dir\<close> since a directory was opened.\<close>

fun entry_step :: "int \<Rightarrow> syscall \<times> sysret \<Rightarrow> nat \<Rightarrow> nat" where
  "entry_step dir (SysOpendir d, r) n = 0"
| "entry_step dir (c, r) n = (if c = SysFd Readdir dir then Suc n else n)"

definition entries_after :: "int \<Rightarrow> history \<Rightarrow> nat \<Rightarrow> nat" where
  "entries_after dir h = fold (entry_step dir) h"

abbreviation entries_read :: "int \<Rightarrow> history \<Rightarrow> nat" where
  "entries_read dir h \<equiv> entries_after dir h 0"

lemma entries_after_simps [simp]:
  "entries_after dir [] n = n" "entries_after dir (h @ h') n = entries_after dir h' (entries_after dir h n)"
  "entries_after dir (e # h) n = entries_after dir h (entry_step dir e n)"
  by (simp_all add: entries_after_def)

lemma writes_only_entries: "writes_only fd h \<Longrightarrow> entries_after dir h n = n"
  by (induction h) (auto simp: writes_only_def)

definition shows_entry :: "kernel \<Rightarrow> string \<Rightarrow> entry \<Rightarrow> bool" where
  "shows_entry K base e = (case e of (name, st, target) \<Rightarrow> \<forall>h.
     0 \<le> rv (K h (SysPath Lstat (base @ ''/'' @ name))) \<and> stb (K h (SysPath Lstat (base @ ''/'' @ name))) = st
     \<and> (islnk st \<longrightarrow> 0 \<le> rv (K h (SysReadlink name 1024)) \<and> length (dat (K h (SysReadlink name 1024))) < 1024
          \<and> cstr (dat (K h (SysReadlink name 1024))) = target))"

text \<open>
  A kernel for which the directory open as \<open>fd\<close> has the name \<open>base\<close> and, opened again as \<open>dir\<close>, the
  entries \<open>es\<close>; it is \<open>now\<close>, and \<open>lt\<close> on the calendar.
\<close>

definition shows_dir :: "kernel \<Rightarrow> int \<Rightarrow> string \<Rightarrow> int \<Rightarrow> entry list \<Rightarrow> int \<Rightarrow> tm \<Rightarrow> bool" where
  "shows_dir K fd base dir es now lt \<longleftrightarrow> 0 < fd \<and> 0 \<le> dir \<and> (\<forall>e \<in> set es. shows_entry K base e) \<and> (\<forall>h.
     rv (K h (SysReadlink (''/proc/self/fd/'' @ dec_int fd) 1023)) \<noteq> - 1
     \<and> cstr (take 1023 (dat (K h (SysReadlink (''/proc/self/fd/'' @ dec_int fd) 1023)))) = base
     \<and> rv (K h (SysOpendir (Some base))) = dir
     \<and> (if entries_read dir h < length es
        then 0 \<le> rv (K h (SysFd Readdir dir))
          \<and> cstr (dat (K h (SysFd Readdir dir))) = fst (es ! entries_read dir h)
        else rv (K h (SysFd Readdir dir)) < 0)
     \<and> 0 \<le> rv (K h SysGettimeofday) \<and> tv_sec (K h SysGettimeofday) = now
     \<and> 0 \<le> rv (K h (SysLocaltime now)) \<and> loctime (K h (SysLocaltime now)) = lt)"

section \<open>The text of a listing\<close>

definition date_text :: "int \<Rightarrow> tm \<Rightarrow> statbuf \<Rightarrow> string" where
  "date_text now lt st = take 63 (if now < st_mtime st \<or> 60 * 60 * 24 * 182 < now - st_mtime st
     then strftime_year lt else strftime_clock lt)"

definition hidden :: "string \<Rightarrow> bool" where
  "hidden name \<longleftrightarrow> name \<noteq> [] \<and> hd name = CHR ''.''"

definition entry_text :: "int \<Rightarrow> tm \<Rightarrow> string \<Rightarrow> entry \<Rightarrow> string" where
  "entry_text now lt pm e = (case e of (name, st, target) \<Rightarrow>
     detail_text pm st (date_text now lt st) name @ (if islnk st then '' -> '' @ target else []) @ [cr, lf])"

text \<open>The static array of permissions goes from one line to the next.\<close>

fun listing :: "int \<Rightarrow> tm \<Rightarrow> string \<Rightarrow> entry list \<Rightarrow> string" where
  "listing now lt pm [] = []"
| "listing now lt pm (e # es) =
     (if hidden (fst e) then listing now lt pm es
      else let pm' = statbuf_get_perms (st_mode (fst (snd e))) pm in entry_text now lt pm' e @ listing now lt pm' es)"

fun perms_after :: "string \<Rightarrow> entry list \<Rightarrow> string" where
  "perms_after pm [] = pm"
| "perms_after pm (e # es) = perms_after (if hidden (fst e) then pm else statbuf_get_perms (st_mode (fst (snd e))) pm) es"

fun fits :: "int \<Rightarrow> tm \<Rightarrow> string \<Rightarrow> string \<Rightarrow> entry list \<Rightarrow> bool" where
  "fits now lt base pm [] \<longleftrightarrow> True"
| "fits now lt base pm (e # es) \<longleftrightarrow> length base + length (fst e) < 1023
     \<and> (if hidden (fst e) then fits now lt base pm es
        else let pm' = statbuf_get_perms (st_mode (fst (snd e))) pm in
          length (entry_text now lt pm' e) < 1024 \<and> fits now lt base pm' es)"

section \<open>The loop\<close>

lemma grow_perms [simp]: "(grow h e s)\<lparr>perms := b\<rparr> = grow h e (s\<lparr>perms := b\<rparr>)"
  by (cases s) (simp add: grow_def)

lemma wp_list_loop: "wp (list_loop K p detail dir) Q s =
   wp (bind (sys K (SysFd Readdir dir)) (\<lambda>dt. if rv dt < 0 then ret ()
     else seq (list_entry K p detail (cstr (dat dt))) (list_loop K p detail dir))) Q s"
  by (subst (1) wp_def, subst list_loop.simps) (simp only: wp_def)

text \<open>A history that sends \<open>text\<close> on \<open>d\<close> and nothing elsewhere.\<close>

definition sends_only :: "int \<Rightarrow> string \<Rightarrow> history \<Rightarrow> bool" where
  "sends_only d text h \<longleftrightarrow> sent d h = text \<and> (\<forall>fd. fd \<noteq> d \<longrightarrow> sent fd h = [])"

text \<open>The state after \<open>text\<close> went out on \<open>d\<close> and \<open>n\<close> entries of \<open>dir\<close> were read.\<close>

definition listed :: "server \<Rightarrow> int \<Rightarrow> int \<Rightarrow> nat \<Rightarrow> string \<Rightarrow> string \<Rightarrow> server \<Rightarrow> bool" where
  "listed s d dir n text pm s' \<longleftrightarrow> sessions s' = sessions s \<and> perms s' = pm \<and> (\<exists>h. trace s' = trace s @ h
     \<and> (\<forall>k. entries_after dir h k = k + n) \<and> sends_only d text h)"

lemma shows_dirD:
  assumes "shows_dir K fd base dir es now lt"
  shows "rv (K h (SysReadlink (''/proc/self/fd/'' @ dec_int fd) 1023)) \<noteq> - 1"
    "cstr (take 1023 (dat (K h (SysReadlink (''/proc/self/fd/'' @ dec_int fd) 1023)))) = base"
    "rv (K h (SysOpendir (Some base))) = dir" "0 < fd" "0 \<le> dir"
    "\<not> rv (K h SysGettimeofday) < 0" "tv_sec (K h SysGettimeofday) = now"
    "\<not> rv (K h (SysLocaltime now)) < 0" "loctime (K h (SysLocaltime now)) = lt"
    "\<not> entries_read dir h < length es \<Longrightarrow> rv (K h (SysFd Readdir dir)) < 0"
    "entries_read dir h < length es \<Longrightarrow> \<not> rv (K h (SysFd Readdir dir)) < 0"
    "entries_read dir h < length es \<Longrightarrow> cstr (dat (K h (SysFd Readdir dir))) = fst (es ! entries_read dir h)"
  using assms by (simp_all add: shows_dir_def not_less)

lemma shows_dir_entry:
  assumes "shows_dir K fd base dir es now lt" "(name, st, target) \<in> set es"
  shows "\<not> rv (K h (SysPath Lstat (base @ CHR ''/'' # name))) < 0" "stb (K h (SysPath Lstat (base @ CHR ''/'' # name))) = st"
    "islnk st \<Longrightarrow> \<not> rv (K h (SysReadlink name 1024)) < 0"
    "islnk st \<Longrightarrow> length (dat (K h (SysReadlink name 1024))) \<noteq> 1024"
    "islnk st \<Longrightarrow> take 1024 (dat (K h (SysReadlink name 1024))) = dat (K h (SysReadlink name 1024))"
    "islnk st \<Longrightarrow> cstr (dat (K h (SysReadlink name 1024))) = target"
proof -
  have "shows_entry K base (name, st, target)" using assms by (simp add: shows_dir_def)
  then show "\<not> rv (K h (SysPath Lstat (base @ CHR ''/'' # name))) < 0"
    "stb (K h (SysPath Lstat (base @ CHR ''/'' # name))) = st"
    "islnk st \<Longrightarrow> \<not> rv (K h (SysReadlink name 1024)) < 0"
    "islnk st \<Longrightarrow> length (dat (K h (SysReadlink name 1024))) \<noteq> 1024"
    "islnk st \<Longrightarrow> take 1024 (dat (K h (SysReadlink name 1024))) = dat (K h (SysReadlink name 1024))"
    "islnk st \<Longrightarrow> cstr (dat (K h (SysReadlink name 1024))) = target"
    by (simp_all add: shows_entry_def not_less less_imp_le less_imp_neq)
qed

lemma wp_statbuf_get_date:
  assumes "shows_dir K fd base dir es now lt"
  shows "wp (statbuf_get_date K st) Q s
    = Q (date_text now lt st) (after K (SysLocaltime now) (after K SysGettimeofday s))"
  by (simp add: statbuf_get_date_def Let_def date_text_def shows_dirD [OF assms])

lemma wp_dir_name:
  assumes "shows_dir K fd base dir es now lt"
  shows "wp (get_file_name K fd) Q s
    = Q (Some base) (after K (SysReadlink (''/proc/self/fd/'' @ dec_int fd) 1023) s)"
  using shows_dirD(1,2) [OF assms, where h = "trace s"] shows_dirD(4) [OF assms] by (simp add: get_file_name_def)

lemma detail_line_spec:
  assumes K: "shows_dir K fd base dir es now lt" "(name, st, target) \<in> set es"
    and pm: "pm = statbuf_get_perms (st_mode st) (perms s)"
    and "length (entry_text now lt pm (name, st, target)) < 1024"
  shows "wp (detail_line K st name) (\<lambda>t s'. t = entry_text now lt pm (name, st, target) \<and> listed s d dir 0 [] pm s') s"
proof (cases "islnk st")
  case True
  with assms(4) show ?thesis
    by (simp add: detail_line_def wp_statbuf_get_date [OF K(1)] pm entry_text_def listed_def sends_only_def shows_dir_entry [OF K])
next
  case False
  with assms(4) show ?thesis
    by (simp add: detail_line_def wp_statbuf_get_date [OF K(1)] pm entry_text_def listed_def sends_only_def)
qed

lemma listed_trans:
  "listed s d dir n t pm s1 \<Longrightarrow> listed s1 d dir n' t' pm' s2 \<Longrightarrow> listed s d dir (n + n') (t @ t') pm' s2"
  by (auto simp: listed_def sends_only_def)

lemma listed_writen:
  assumes "writes_progress K"
  shows "wp (writen K d t) (\<lambda>_ s'. listed s d dir 0 t (perms s) s') s"
  by (rule wp_writen [OF assms]) (auto simp: listed_def sends_only_def writes_only_entries writes_only_sent)

lemma list_entry_spec:
  assumes K: "writes_progress K" "shows_dir K (dirfd x) base dir es now lt" "(name, st, target) \<in> set es"
    and x: "sessions s p = Some x" and l: "length base + length name < 1023"
    and pm: "pm = (if hidden name then perms s else statbuf_get_perms (st_mode st) (perms s))"
    and t: "\<not> hidden name \<Longrightarrow> length (entry_text now lt pm (name, st, target)) < 1024"
  shows "wp (list_entry K p 1 name) (\<lambda>_ s'. listed s (data_fd x) dir 0
     (if hidden name then [] else entry_text now lt pm (name, st, target)) pm s') s"
proof -
  note k = shows_dirD [OF K(2)] shows_dir_entry [OF K(2,3)]
  let ?c1 = "SysReadlink (''/proc/self/fd/'' @ dec_int (dirfd x)) 1023"
  let ?s = "after K (SysPath Lstat (base @ ''/'' @ name)) (after K ?c1 s)"
  have s: "listed s (data_fd x) dir 0 [] (perms s) ?s" by (simp add: listed_def sends_only_def)
  have "wp (bind (detail_line K st name) (\<lambda>buf. bind (get_sess p) (\<lambda>x. seq (writen K (data_fd x) buf) (ret ()))))
      (\<lambda>_ s'. listed s (data_fd x) dir 0 (entry_text now lt pm (name, st, target)) pm s') ?s" if v: "\<not> hidden name"
    unfolding wp_bind wp_seq wp_ret
  proof (rule wp_mono [OF detail_line_spec [OF K(2,3), where s = ?s and d = "data_fd x" and pm = pm]])
    show "pm = statbuf_get_perms (st_mode st) (perms ?s)" using pm v by simp
    show "length (entry_text now lt pm (name, st, target)) < 1024" using t v by simp
    fix u s1 assume u: "u = entry_text now lt pm (name, st, target) \<and> listed ?s (data_fd x) dir 0 [] pm s1"
    then have s1: "sessions s1 p = Some x" "perms s1 = pm" using x by (auto simp: listed_def)
    show "wp (get_sess p) (\<lambda>y. wp (writen K (data_fd y) u)
        (\<lambda>_ s'. listed s (data_fd x) dir 0 (entry_text now lt pm (name, st, target)) pm s')) s1"
      using s1 u listed_trans [OF s, of 0 "[]" pm s1]
      by (auto intro!: wp_mono [OF listed_writen [OF K(1), of "data_fd x" _ s1 dir]] dest: listed_trans)
  qed
  note tail = this
  show ?thesis
  proof (cases "hidden name")
    case True
    with s pm l show ?thesis by (simp add: list_entry_def wp_dir_name [OF K(2)] hidden_def show_str_def x k)
  next
    case False
    with tail l show ?thesis by (simp add: list_entry_def wp_dir_name [OF K(2)] hidden_def [symmetric] show_str_def x k)
  qed
qed

lemma list_loop_spec:
  assumes K: "writes_progress K" "shows_dir K (dirfd x) base dir es now lt"
  shows "i \<le> length es \<Longrightarrow> entries_read dir (trace s) = i \<Longrightarrow> sessions s p = Some x \<Longrightarrow>
    fits now lt base (perms s) (drop i es) \<Longrightarrow>
    wp (list_loop K p 1 dir) (\<lambda>_ s'. listed s (data_fd x) dir (Suc (length es - i))
      (listing now lt (perms s) (drop i es)) (perms_after (perms s) (drop i es)) s') s"
proof (induction "length es - i" arbitrary: i s)
  case 0
  then show ?case by (subst wp_list_loop) (simp add: listed_def sends_only_def shows_dirD [OF K(2)])
next
  case (Suc n)
  then have i: "i < length es" by simp
  obtain name st target where e: "es ! i = (name, st, target)" by (cases "es ! i")
  then have m: "(name, st, target) \<in> set es" using i by (metis nth_mem)
  have d: "drop i es = (name, st, target) # drop (Suc i) es" using i e by (metis Cons_nth_drop_Suc)
  let ?s = "after K (SysFd Readdir dir) s"
  let ?pm = "if hidden name then perms ?s else statbuf_get_perms (st_mode st) (perms ?s)"
  let ?t = "if hidden name then [] else entry_text now lt ?pm (name, st, target)"
  have s: "listed s (data_fd x) dir 1 [] (perms s) ?s" by (simp add: listed_def sends_only_def)
  have "wp (list_entry K p 1 name) (\<lambda>_. wp (list_loop K p 1 dir) (\<lambda>_ s'. listed s (data_fd x) dir (Suc (length es - i))
      (listing now lt (perms s) (drop i es)) (perms_after (perms s) (drop i es)) s')) ?s"
  proof (rule wp_mono [OF list_entry_spec [OF K m, of ?s p ?pm]])
    fix s2 assume s2: "listed ?s (data_fd x) dir 0 ?t ?pm s2"
    then have a: "entries_read dir (trace s2) = Suc i" "sessions s2 p = Some x" "perms s2 = ?pm"
      using Suc.prems by (auto simp: listed_def)
    have "wp (list_loop K p 1 dir) (\<lambda>_ s'. listed s2 (data_fd x) dir (Suc (length es - Suc i))
      (listing now lt (perms s2) (drop (Suc i) es)) (perms_after (perms s2) (drop (Suc i) es)) s') s2"
      using Suc.hyps(2) Suc.prems i a d by (intro Suc.hyps(1)) (auto simp: Let_def split: if_splits)
    then show "wp (list_loop K p 1 dir) (\<lambda>_ s'. listed s (data_fd x) dir (Suc (length es - i))
      (listing now lt (perms s) (drop i es)) (perms_after (perms s) (drop i es)) s') s2"
      using listed_trans [OF listed_trans [OF s s2]] i a(3) d
      by (elim wp_mono) (fastforce simp: Let_def Suc_diff_Suc split: if_splits)
  qed (use Suc.prems d in \<open>auto simp: Let_def split: if_splits\<close>)
  then show ?case using Suc.prems(2) i e
    by (subst wp_list_loop) (simp add: shows_dirD [OF K(2)])
qed

text \<open>The directory of the session, opened and read to its end.\<close>

lemma list_common_spec:
  assumes "writes_progress K" "shows_dir K (dirfd x) base dir es now lt" "sessions t p = Some x"
    and "fits now lt base (perms t) es"
  shows "wp (list_common K p 1) (\<lambda>_ t'. sessions t' = sessions t
     \<and> (\<exists>h. trace t' = trace t @ h \<and> sends_only (data_fd x) (listing now lt (perms t) es) h)) t"
proof -
  let ?c1 = "SysReadlink (''/proc/self/fd/'' @ dec_int (dirfd x)) 1023"
  let ?t = "after K (SysOpendir (Some base)) (after K ?c1 t)"
  let ?P = "\<lambda>_ t'. sessions t' = sessions t
     \<and> (\<exists>h. trace t' = trace t @ h \<and> sends_only (data_fd x) (listing now lt (perms t) es) h)"
  have "wp (list_loop K p 1 dir) (\<lambda>_. wp (seq (call K (SysFd Closedir dir)) (ret 1)) ?P) ?t"
  proof (rule wp_mono [OF list_loop_spec [OF assms(1,2), of 0 ?t p]])
    fix s2 assume "listed ?t (data_fd x) dir (Suc (length es - 0)) (listing now lt (perms ?t) (drop 0 es))
        (perms_after (perms ?t) (drop 0 es)) s2"
    then show "wp (seq (call K (SysFd Closedir dir)) (ret 1)) ?P s2"
      by (auto simp: listed_def sends_only_def)
  qed (simp_all add: assms)
  then show ?thesis
    using assms(3) shows_dirD(5) [OF assms(2)]
    by (simp add: list_common_def wp_dir_name [OF assms(2)] shows_dirD(3) [OF assms(2)])
qed

lemma reply_sends:
  assumes "writes_progress K" "sessions t p = Some x" "length (reply_text n text) < 1024"
  shows "wp (ftp_reply K p n text) (\<lambda>_ t'. sessions t' = sessions t \<and> perms t' = perms t
     \<and> (\<exists>h. trace t' = trace t @ h \<and> sends_only (ctrl_fd x) (reply_text n text) h)) t"
  using assms by (auto simp: sends_only_def writes_only_sent intro!: wp_ftp_reply)

lemma drop_sends_nothing:
  assumes "sessions t p = Some x"
  shows "wp (drop_data_fds K p) (\<lambda>_ t'. sessions t' = (sessions t)(p \<mapsto> x\<lparr>data_fd := - 1, pasv_listen_fd := - 1\<rparr>)
     \<and> (\<exists>h. trace t' = trace t @ h \<and> (\<forall>fd. sent fd h = []))) t"
  using assms by (auto simp: drop_data_fds_def removefd_def)

lemma reply_code_fits:
  "length (reply_text FTP_DATACONN ''Here comes the directory listing.'') < 1024"
  "length (reply_text FTP_TRANSFEROK ''Directory send OK.'') < 1024"
  by (simp_all add: reply_text_def)

text \<open>C12: LIST announces the listing with 150 on the control connection; then it sends one line for every
  entry of the directory of the session that is not hidden, in the order of the directory, on the data
  connection; then it gives the data connection up and reports the end with 226 on the control
  connection. Meanwhile nothing is sent on any other descriptor.\<close>

theorem list_sends_listing:
  assumes "writes_progress K" "shows_dir K (dirfd x) base dir es now lt" "sessions s p = Some x"
    and "fits now lt base (perms s) es" "pasv_listen_fd x \<noteq> - 1" "data_fd x \<notin> {- 1, 0}"
  shows "wp (do_list K p) (\<lambda>_ s'.
     sessions s' = (sessions s)(p \<mapsto> x\<lparr>data_fd := - 1, pasv_listen_fd := - 1\<rparr>)
     \<and> (\<exists>h1 h2 h3. since s s' = h1 @ h2 @ h3
        \<and> sends_only (ctrl_fd x) (reply_text FTP_DATACONN ''Here comes the directory listing.'') h1
        \<and> sends_only (data_fd x) (listing now lt (perms s) es) h2
        \<and> sends_only (ctrl_fd x) (reply_text FTP_TRANSFEROK ''Directory send OK.'') h3)) s" (is "wp _ ?Q s")
proof -
  let ?r1 = "reply_text FTP_DATACONN ''Here comes the directory listing.''"
  let ?rest = "seq (drop_data_fds K p) (ftp_reply K p FTP_TRANSFEROK ''Directory send OK.'')"
  have last: "wp ?rest ?Q t" if t: "sessions t = sessions s" "trace t = trace s @ h1 @ h2" "sends_only (ctrl_fd x) ?r1 h1"
    "sends_only (data_fd x) (listing now lt (perms s) es) h2" for t :: server and h1 h2
    unfolding wp_seq
  proof (rule wp_mono [OF drop_sends_nothing [of t p x]])
    let ?y = "x\<lparr>data_fd := - 1, pasv_listen_fd := - 1\<rparr>"
    fix u :: server assume u: "sessions u = (sessions t)(p \<mapsto> ?y) \<and> (\<exists>h. trace u = trace t @ h \<and> (\<forall>fd. sent fd h = []))"
    then obtain h where h: "trace u = trace s @ h1 @ h2 @ h" "\<forall>fd. sent fd h = []" using t(2) by auto
    show "wp (ftp_reply K p FTP_TRANSFEROK ''Directory send OK.'') ?Q u"
    proof (rule wp_mono [OF reply_sends [OF assms(1) _ reply_code_fits(2), where x = ?y]])
      fix v :: server assume v: "sessions v = sessions u \<and> perms v = perms u
        \<and> (\<exists>h. trace v = trace u @ h \<and> sends_only (ctrl_fd ?y) (reply_text FTP_TRANSFEROK ''Directory send OK.'') h)"
      then obtain h' where "trace v = trace u @ h'" "sends_only (ctrl_fd x) (reply_text FTP_TRANSFEROK ''Directory send OK.'') (h @ h')"
        using h(2) by (auto simp: sends_only_def)
      then show "?Q () v" using u v h(1) t
        by (intro conjI exI [of _ h1] exI [of _ h2] exI [of _ "h @ h'"]) (auto simp: since_def)
    qed (use u in auto)
  qed (use t assms(3) in simp)
  have "wp (list_common K p 1) (\<lambda>_. wp ?rest ?Q) t"
    if t: "sessions t = sessions s" "perms t = perms s" "trace t = trace s @ h1" "sends_only (ctrl_fd x) ?r1 h1" for t :: server and h1
    by (rule wp_mono [OF list_common_spec [OF assms(1,2), of t p]]) (use t assms(3,4) last in auto)
  then have "wp (ftp_reply K p FTP_DATACONN ''Here comes the directory listing.'')
      (\<lambda>_. wp (list_common K p 1) (\<lambda>_. wp ?rest ?Q)) s"
    by (intro wp_mono [OF reply_sends [OF assms(1,3) reply_code_fits(1)]]) auto
  then have "wp (seq (ftp_reply K p FTP_DATACONN ''Here comes the directory listing.'') (seq (list_common K p 1) ?rest)) ?Q s"
    unfolding wp_seq .
  moreover have "do_list K p s = seq (ftp_reply K p FTP_DATACONN ''Here comes the directory listing.'')
      (seq (list_common K p 1) ?rest) s"
    using assms(3,5,6) by (simp add: do_list_def getPasvDataFd_def bind_def gets_def ret_def)
  ultimately show ?thesis by (simp only: wp_def)
qed

text \<open>A directory with a hidden file and a plain one.\<close>

definition plain :: statbuf where
  "plain = \<lparr>st_mode = 0x81A4, st_size = 5, st_nlink = 1, st_uid = 0, st_gid = 0, st_mtime = 0\<rparr>"

definition small_dir :: "entry list" where
  "small_dir = [(''.h'', plain, []), (''f'', plain, [])]"

definition dir_kernel :: kernel where
  "dir_kernel h c = (case c of
     SysReadlink a n \<Rightarrow> (answer 1)\<lparr>dat := ''/x''\<rparr>
   | SysOpendir d \<Rightarrow> answer 4
   | SysPath f a \<Rightarrow> (answer 0)\<lparr>stb := plain\<rparr>
   | SysFd f d \<Rightarrow> (if entries_read 4 h < 2 then (answer 0)\<lparr>dat := fst (small_dir ! entries_read 4 h) @ [nul]\<rparr> else answer (- 1))
   | _ \<Rightarrow> answer 1)"

lemma dir_kernel_ok:
  "shows_dir dir_kernel 3 ''/x'' 4 small_dir 0 (loctime (answer 1))" "writes_progress dir_kernel"
proof -
  have "\<not> islnk plain" by (simp add: islnk_def plain_def)
  then show "shows_dir dir_kernel 3 ''/x'' 4 small_dir 0 (loctime (answer 1))"
    by (auto simp: shows_dir_def shows_entry_def dir_kernel_def small_dir_def cstr_def nul_def answer_def less_Suc_eq numeral_2_eq_2 nth_Cons')
qed (simp add: writes_progress_def dir_kernel_def)

lemma plain_perms: "statbuf_get_perms 33188 init_perms = ''-rw-r--r--''"
  by code_simp

lemma small_listing:
  "listing 0 (loctime (answer 1)) init_perms small_dir
   = ''-rw-r--r--   1 0        0               5 Jan  1 00:00 f'' @ [cr, lf]"
proof -
  have "\<not> islnk plain" by (simp add: islnk_def plain_def)
  moreover have "dec_int 0 = ''0''" "dec_int 1 = ''1''" "dec_nat 5 = ''5''" "dec_nat 1 = ''1''" "dec_nat 0 = ''0''" by code_simp+
  ultimately show ?thesis
  by (simp add: small_dir_def entry_text_def hidden_def detail_text_def date_text_def plain_def plain_perms to_int32_id
     strftime_clock_def answer_def pad_left_def pad_right_def pad_zero_def month_abbr_def numeral_eq_Suc)
qed

definition listing_session :: session where
  "listing_session = ready_session\<lparr>dirfd := 3\<rparr>"

lemma listing_session_simps:
  "dirfd listing_session = 3" "data_fd listing_session = 7" "ctrl_fd listing_session = 5" "pasv_listen_fd listing_session \<noteq> - 1"
  by (simp_all add: listing_session_def ready_session_def)

theorem list_sends_listing_witness:
  "wp (do_list dir_kernel 0) (\<lambda>_ s'. \<exists>h1 h2 h3. since (ready_server listing_session) s' = h1 @ h2 @ h3
     \<and> sent 5 h1 = reply_text 150 ''Here comes the directory listing.''
     \<and> sent 7 h2 = ''-rw-r--r--   1 0        0               5 Jan  1 00:00 f'' @ [cr, lf]
     \<and> sent 5 h3 = reply_text 226 ''Directory send OK.'') (ready_server listing_session)"
proof -
  note x = listing_session_simps
  have p: "perms (ready_server listing_session) = init_perms" by (simp add: ready_server_def)
  have f: "fits 0 (loctime (answer 1)) ''/x'' (perms (ready_server listing_session)) small_dir"
    using small_listing unfolding p by (auto simp: small_dir_def hidden_def plain_def plain_perms dest: arg_cong [where f = length])
  have d: "shows_dir dir_kernel (dirfd listing_session) ''/x'' 4 small_dir 0 (loctime (answer 1))"
    using dir_kernel_ok(1) x(1) by simp
  have "data_fd listing_session \<notin> {- 1, 0}" using x(2) by simp
  from list_sends_listing [OF dir_kernel_ok(2) d ready_server_simps(1) f x(4) this]
  show ?thesis by (rule wp_mono) (auto simp: sends_only_def x p small_listing)
qed

end
