(* ===== verification/ChildLoop.thy ===== *)
theory ChildLoop
  imports Frame
begin

text \<open>
  The service of one client by a process of its own, in \<^verbatim>\<open>ftpproto.cpp\<close>: \<open>handle_child\<close>, which
  reads requests in a loop, and the handlers of the signals that bound it: the idle alarm, the alarm
  of a data connection, and the urgent byte that announces \<open>ABOR\<close>. The server that \<open>main\<close> runs calls
  none of them; \<open>handle_child\<close> is what \<^verbatim>\<open>ftpproto.h\<close> offers beside it. The lemmas relate a round of the
  loop to \<open>processCtrlRead\<close>, so that what holds for a request of the server holds for one of the loop.
\<close>

section \<open>Alarms\<close>

definition SIGALRM :: int where "SIGALRM = 14"
definition SHUT_RD :: int where "SHUT_RD = 0"
definition SHUT_WR :: int where "SHUT_WR = 1"
definition SHUT_RDWR :: int where "SHUT_RDWR = 2"

definition FTP_IDLE_TIMEOUT :: int where [simp]: "FTP_IDLE_TIMEOUT = 421"
definition FTP_DATA_TIMEOUT :: int where [simp]: "FTP_DATA_TIMEOUT = 421"

text \<open>\<open>signal\<close>, \<open>alarm\<close> and \<open>shutdown\<close>, whose results nobody looks at.\<close>

definition signal_alarm :: "kernel \<Rightarrow> string \<Rightarrow> (unit, server) prog" where
  "signal_alarm K handler = seq (call K (SysUnix ''signal'' [SIGALRM] [handler])) (ret ())"

definition alarm :: "kernel \<Rightarrow> u32 \<Rightarrow> (unit, server) prog" where
  "alarm K seconds = seq (call K (SysUnix ''alarm'' [uint seconds] [])) (ret ())"

definition shutdown :: "kernel \<Rightarrow> int \<Rightarrow> int \<Rightarrow> (unit, server) prog" where
  "shutdown K fd how = seq (call K (SysUnix ''shutdown'' [fd, how] [])) (ret ())"

definition start_cmdio_alarm :: "kernel \<Rightarrow> (unit, server) prog" where
  "start_cmdio_alarm K =
     bind (gets tun) (\<lambda>t.
     onlyif (0 < tunable_idle_session_timeout t) (
       seq (signal_alarm K ''handle_alarm_timeout'') (alarm K (tunable_idle_session_timeout t))))"

definition start_data_alarm :: "kernel \<Rightarrow> (unit, server) prog" where
  "start_data_alarm K =
     bind (gets tun) (\<lambda>t.
     if 0 < tunable_data_connection_timeout t then
       seq (signal_alarm K ''handle_sigalrm'') (alarm K (tunable_data_connection_timeout t))
     else onlyif (0 < tunable_idle_session_timeout t) (alarm K 0))"

text \<open>The handlers work on the session of the global pointer \<open>p_sess\<close>.\<close>

definition the_session :: "(nat, server) prog" where
  "the_session = bind (gets p_sess) nonnull"

definition handle_sigalrm :: "kernel \<Rightarrow> (unit, server) prog" where
  "handle_sigalrm K =
     bind the_session (\<lambda>p.
     bind (get_sess p) (\<lambda>x.
     if data_process x = 0 then
       seq (ftp_reply K p FTP_DATA_TIMEOUT ''Data timeout. Reconnect. Sorry.'') (stop (Exit 1))
     else seq (upd_sess p (\<lambda>x. x\<lparr>data_process := 0\<rparr>)) (start_data_alarm K)))"

definition handle_alarm_timeout :: "kernel \<Rightarrow> (unit, server) prog" where
  "handle_alarm_timeout K =
     bind the_session (\<lambda>p.
     bind (get_sess p) (\<lambda>x.
     seq (shutdown K (ctrl_fd x) SHUT_RD) (
     seq (ftp_reply K p FTP_IDLE_TIMEOUT ''Timeout.'') (
     seq (shutdown K (ctrl_fd x) SHUT_WR) (stop (Exit 1))))))"

section \<open>Urgent data\<close>

text \<open>
  The handler of \<^verbatim>\<open>SIGURG\<close>, translated for completeness. The program never installs it: the two lines
  that would do so are commented out in \<^verbatim>\<open>init_connection\<close>; and the session it works on would be the one of
  \<open>main\<close>, to which \<^verbatim>\<open>ftpepoll.cpp\<close> sets \<open>p_sess\<close> and which has no data connection. No property rests on it.
\<close>

definition handle_sigurg :: "kernel \<Rightarrow> (unit, server) prog" where
  "handle_sigurg K =
     bind the_session (\<lambda>p.
     bind (get_sess p) (\<lambda>x.
     if data_fd x = - 1 then ret ()
     else bind (readline K (ctrl_fd x) (zeros MAX_COMMAND_LINE) MAX_COMMAND_LINE) (\<lambda>(n, buf).
       if n \<le> 0 then stop (Exit 1)
       else bind (lift (str_trim_crlf buf)) (\<lambda>buf.
       bind (lift (cstring buf)) (\<lambda>cmdline.
       if cmdline = ''ABOR'' \<or> cmdline = telnet_abor then
         seq (upd_sess p (\<lambda>x. x\<lparr>abor_received := 1\<rparr>)) (shutdown K (data_fd x) SHUT_RDWR)
       else ftp_reply K p FTP_BADCMD ''Unknown command.'')))))"

section \<open>The loop\<close>

text \<open>What a round does with the line it has read.\<close>

definition child_request :: "kernel \<Rightarrow> nat \<Rightarrow> (unit, server) prog" where
  "child_request K p =
     bind (get_sess p) (\<lambda>x.
     bind (lift (str_trim_crlf (cmdline x))) (\<lambda>line.
     seq (upd_sess p (\<lambda>x. x\<lparr>cmdline := line\<rparr>)) (
     bind (get_sess p) (\<lambda>x.
     bind (lift (str_split line (cmd x) (arg x) (CHR '' ''))) (\<lambda>(c, a).
     bind (lift (str_upper c)) (\<lambda>c.
     seq (upd_sess p (\<lambda>x. x\<lparr>cmd := c, arg := a\<rparr>)) (
     bind (lift (cstring c)) (\<lambda>name.
     dispatch K p name))))))))"

partial_function (option) child_loop :: "kernel \<Rightarrow> nat \<Rightarrow> (unit, server) prog" where
  "child_loop K p s =
     seq (upd_sess p (\<lambda>x. x\<lparr>cmdline := zeros MAX_COMMAND, cmd := zeros MAX_COMMAND, arg := zeros MAX_ARG\<rparr>)) (
     seq (start_cmdio_alarm K) (
     bind (get_sess p) (\<lambda>x.
     bind (readline K (ctrl_fd x) (cmdline x) MAX_COMMAND_LINE) (\<lambda>(n, buf).
     seq (upd_sess p (\<lambda>x. x\<lparr>cmdline := buf\<rparr>)) (
     if n = - 1 then stop (Exit 1)
     else if n = 0 then stop (Exit 0)
     else seq (child_request K p) (child_loop K p)))))) s"

definition handle_child :: "kernel \<Rightarrow> nat \<Rightarrow> (unit, server) prog" where
  "handle_child K p = seq (ftp_reply K p FTP_GREET ''(myftpd 0.1)'') (child_loop K p)"

section \<open>A round of the loop\<close>

text \<open>The calls that set the idle alarm: the handler is installed and the alarm set, when a timeout is
  configured, and nothing is done otherwise.\<close>

definition alarm_calls :: "tunables \<Rightarrow> syscall list" where
  "alarm_calls t = (if tunable_idle_session_timeout t = 0 then []
     else [SysUnix ''signal'' [SIGALRM] [''handle_alarm_timeout''],
       SysUnix ''alarm'' [uint (tunable_idle_session_timeout t)] []])"

definition sets_alarm :: "tunables \<Rightarrow> history \<Rightarrow> bool" where
  "sets_alarm t h \<longleftrightarrow> map fst h = alarm_calls t"

lemma sets_alarm_effect:
  assumes "sets_alarm t h"
  shows "sent fd h = []" "taken fd h = []"
proof -
  have "\<forall>e \<in> set h. \<exists>f a b. fst e = SysUnix f a b"
    using assms by (auto simp: sets_alarm_def alarm_calls_def split: if_splits)
  then show "sent fd h = []" "taken fd h = []" by (induction h) auto
qed

lemma start_cmdio_alarm_run:
  obtains h e where "sets_alarm (tun s) h"
    "\<And>v. start_cmdio_alarm K (s\<lparr>sessions := v\<rparr>) = Some (Go () (grow h e (s\<lparr>sessions := v\<rparr>)))"
proof -
  let ?t = "tunable_idle_session_timeout (tun s)"
  let ?a = "SysUnix ''signal'' [SIGALRM] [''handle_alarm_timeout'']" and ?b = "SysUnix ''alarm'' [uint ?t] []"
  let ?s = "after K ?b (after K ?a s)"
  show ?thesis
  proof (cases "0 < ?t")
    case True
    then show ?thesis
      by (intro that [of "[(?a, K (trace s) ?a), (?b, K (trace (after K ?a s)) ?b)]" "errno ?s"])
        (auto simp: start_cmdio_alarm_def signal_alarm_def alarm_def gets_def bind_def onlyif_def
          seq_def call_run ret_def grow_def after_def Let_def sets_alarm_def alarm_calls_def)
  next
    case False
    then show ?thesis
      by (intro that [of "[]" "errno s"])
        (simp_all add: start_cmdio_alarm_def gets_def bind_def onlyif_def ret_def grow_def
          sets_alarm_def alarm_calls_def word_gt_0)
  qed
qed

lemma bind_assoc: "bind (bind m f) g = bind m (\<lambda>x. bind (f x) g)"
  by (auto simp: bind_def fun_eq_iff split: option.splits outcome.splits)

lemma bind_split: "bind (case z of (a, b) \<Rightarrow> f a b) g = (case z of (a, b) \<Rightarrow> bind (f a b) g)"
  by (cases z) simp

text \<open>
  A round that reads a request does what \<open>processCtrlRead\<close> does, after the alarm is set, and goes on.
\<close>

lemma child_round_run:
  assumes x: "sessions s p = Some x"
    and K: "stream K (ctrl_fd x) inp" "inp = taken (ctrl_fd x) (trace s) @ request_line c a @ later"
    and wf: "wf_request c a" "length (request_line c a @ later) < MAX_COMMAND"
  obtains h e where "sets_alarm (tun s) h"
    "child_loop K p s = bind (processCtrlRead K p) (\<lambda>_. child_loop K p) (grow h e s)"
proof -
  let ?x = "x\<lparr>cmdline := zeros MAX_COMMAND, cmd := zeros MAX_COMMAND, arg := zeros MAX_ARG\<rparr>"
  let ?v = "(sessions s)(p \<mapsto> ?x)"
  obtain h e where h: "sets_alarm (tun s) h"
    "\<And>v. start_cmdio_alarm K (s\<lparr>sessions := v\<rparr>) = Some (Go () (grow h e (s\<lparr>sessions := v\<rparr>)))"
    using start_cmdio_alarm_run by blast
  let ?s = "grow h e (s\<lparr>sessions := ?v\<rparr>)"
  have "inp = taken (ctrl_fd x) (trace ?s) @ request_line c a @ later"
    using K(2) h(1) by (simp add: sets_alarm_effect)
  from read_request [OF K(1) this wf] obtain h' e' t where
    r: "readline K (ctrl_fd x) (zeros MAX_COMMAND) MAX_COMMAND_LINE ?s
      = Some (Go (int (length (request_line c a)), request_line c a @ t) (grow h' e' ?s))" by metis
  have pos: "request_line c a \<noteq> []" by (simp add: request_line_def)
  let ?b = "request_line c a @ t"
  let ?w = "(sessions s)(p \<mapsto> ?x\<lparr>cmdline := ?b\<rparr>)"
  have "child_loop K p s = seq (child_request K p) (child_loop K p)
      ((grow h' e' ?s)\<lparr>sessions := ?w\<rparr>)"
    using x r pos by (subst child_loop.simps) (simp add: h(2))
  moreover have "processCtrlRead K p (grow h e s) = bind (child_request K p) (\<lambda>_. ret STATUS_NONE)
      ((grow h' e' ?s)\<lparr>sessions := ?w\<rparr>)"
    using x r pos unfolding processCtrlRead_def child_request_def seq_def bind_assoc bind_split
    by simp
  ultimately have "child_loop K p s = bind (processCtrlRead K p) (\<lambda>_. child_loop K p) (grow h e s)"
    by (simp add: seq_def bind_def ret_def split: option.splits outcome.splits)
  with h(1) show ?thesis by (rule that)
qed

text \<open>The end of the stream, seen by the look at the connection that precedes each read.\<close>

definition peek_eof :: "kernel \<Rightarrow> int \<Rightarrow> string \<Rightarrow> bool" where
  "peek_eof K fd inp \<longleftrightarrow> (\<forall>h n. taken fd h = inp \<longrightarrow>
     0 \<le> rv (K h (SysPeek fd n)) \<and> dat (K h (SysPeek fd n)) = [])"

lemma child_round_eof:
  assumes x: "sessions s p = Some x" and K: "peek_eof K (ctrl_fd x) (taken (ctrl_fd x) (trace s))"
  obtains h s' where "child_loop K p s = Some (Stop (Exit 0) s')" "trace s' = trace s @ h"
    "sent (ctrl_fd x) h = []" "taken (ctrl_fd x) h = []"
proof -
  let ?x = "x\<lparr>cmdline := zeros MAX_COMMAND, cmd := zeros MAX_COMMAND, arg := zeros MAX_ARG\<rparr>"
  let ?c = "SysPeek (ctrl_fd x) MAX_COMMAND_LINE"
  obtain h e where h: "sets_alarm (tun s) h"
    "\<And>v. start_cmdio_alarm K (s\<lparr>sessions := v\<rparr>) = Some (Go () (grow h e (s\<lparr>sessions := v\<rparr>)))"
    using start_cmdio_alarm_run by blast
  let ?s = "grow h e (s\<lparr>sessions := (sessions s)(p \<mapsto> ?x)\<rparr>)"
  have "0 \<le> rv (K (trace ?s) ?c) \<and> dat (K (trace ?s) ?c) = []"
    using K h(1) by (simp add: peek_eof_def sets_alarm_effect)
  then have "wp (readline K (ctrl_fd x) (zeros MAX_COMMAND) MAX_COMMAND_LINE)
      (\<lambda>r s'. r = (0, zeros MAX_COMMAND) \<and> s' = after K ?c ?s) ?s"
    by (simp add: wp_readline_eof)
  then have "readline K (ctrl_fd x) (zeros MAX_COMMAND) MAX_COMMAND_LINE ?s
      = Some (Go (0, zeros MAX_COMMAND) (after K ?c ?s))" by (auto simp: wp_ex)
  then have "\<exists>s'. child_loop K p s = Some (Stop (Exit 0) s') \<and> trace s' = trace (after K ?c ?s)"
    using x by (subst child_loop.simps) (simp add: h(2) stop_def)
  then show ?thesis using h(1) that [where h = "h @ [(?c, K (trace ?s) ?c)]"]
    by (auto simp: sets_alarm_effect)
qed

text \<open>Requests with fixed answers, each of which fits the buffer of a command, and the answers.\<close>

definition requests :: "(string \<times> string) list \<Rightarrow> string" where
  "requests rs = concat (map (\<lambda>(c, a). request_line c a) rs)"

definition answers :: "(string \<times> string) list \<Rightarrow> string" where
  "answers rs = concat (map (\<lambda>(c, a). the (static_answer (map toupper c))) rs)"

definition static_requests :: "(string \<times> string) list \<Rightarrow> bool" where
  "static_requests rs \<longleftrightarrow> list_all (\<lambda>(c, a). wf_request c a
     \<and> length (request_line c a) < MAX_COMMAND \<and> static_answer (map toupper c) \<noteq> None) rs"

lemma child_loop_serves:
  assumes K: "line_stream K fd inp" "peek_eof K fd inp" "writes_progress K"
  shows "sessions s p = Some x \<Longrightarrow> ctrl_fd x = fd \<Longrightarrow> inp = taken fd (trace s) @ requests rs \<Longrightarrow>
    static_requests rs \<Longrightarrow>
    \<exists>h s'. child_loop K p s = Some (Stop (Exit 0) s') \<and> trace s' = trace s @ h
      \<and> sent fd h = answers rs \<and> taken fd h = requests rs"
proof (induction rs arbitrary: s x)
  case Nil
  then have "peek_eof K (ctrl_fd x) (taken (ctrl_fd x) (trace s))" using K(2) by (simp add: requests_def)
  from child_round_eof [OF Nil.prems(1) this] Nil.prems(2) show ?case
    by (metis answers_def requests_def concat.simps(1) list.map(1))
next
  case (Cons r rs)
  obtain c a where r: "r = (c, a)" by (cases r)
  obtain t where t: "wf_request c a" "static_answer (map toupper c) = Some t" "static_requests rs"
    and len: "length (request_line c a @ []) < MAX_COMMAND"
    using Cons.prems(4) r by (auto simp: static_requests_def)
  have rq: "requests (r # rs) = request_line c a @ requests rs" "answers (r # rs) = t @ answers rs"
    using r t(2) by (simp_all add: requests_def answers_def)
  let ?in = "taken (ctrl_fd x) (trace s) @ request_line c a"
  have inp: "inp = ?in @ requests rs" using Cons.prems(2,3) rq by simp
  have K': "stream K (ctrl_fd x) ?in"
    using line_stream_request [OF K(1)] inp Cons.prems(2) by simp
  have in1: "?in = taken (ctrl_fd x) (trace s) @ request_line c a @ []" by simp
  obtain h e where h: "sets_alarm (tun s) h"
    "child_loop K p s = bind (processCtrlRead K p) (\<lambda>_. child_loop K p) (grow h e s)"
    using child_round_run [OF Cons.prems(1) K' in1 t(1) len] .
  let ?s = "grow h e s"
  have "sessions ?s p = Some x" "?in = taken (ctrl_fd x) (trace ?s) @ request_line c a @ []"
    using Cons.prems(1) h(1) by (simp_all add: sets_alarm_effect)
  from static_request [OF K' this(2) t(1) len this(1) K(3) t(2)]
  obtain h1 l s1 where s1: "processCtrlRead K p ?s = Some (Go STATUS_NONE s1)" "trace s1 = trace ?s @ h1"
    "sent fd h1 = t" "taken fd h1 = request_line c a" "sessions s1 p = Some (filled x l c a)"
    using Cons.prems(2) by (auto simp: wp_ex)
  have "inp = taken fd (trace s1) @ requests rs" "ctrl_fd (filled x l c a) = fd"
    using inp s1 h(1) Cons.prems(2) by (simp_all add: sets_alarm_effect filled_def)
  from Cons.IH [OF s1(5) this(2,1) t(3)] obtain h2 s2 where
    "child_loop K p s1 = Some (Stop (Exit 0) s2)" "trace s2 = trace s1 @ h2"
    "sent fd h2 = answers rs" "taken fd h2 = requests rs" by blast
  then show ?case using h s1 rq
    by (intro exI [of _ "h @ h1 @ h2"] exI [of _ s2]) (simp add: sets_alarm_effect)
qed

section \<open>Properties\<close>

text \<open>C38: a request that fits the buffers goes through \<open>handle_child\<close> as through the server: the round
  first sets the idle alarm, which is the installation of its handler and \<open>alarm\<close> with the configured
  seconds, or no call at all when no timeout is configured; then it does what \<open>processCtrlRead\<close> does,
  whatever the command, and goes on with the next.\<close>

theorem child_round_is_request:
  assumes "sessions s p = Some x" "stream K (ctrl_fd x) inp"
    and "inp = taken (ctrl_fd x) (trace s) @ request_line c a @ later"
    and "wf_request c a" "length (request_line c a @ later) < MAX_COMMAND"
  shows "\<exists>h e. sets_alarm (tun s) h
     \<and> child_loop K p s = bind (processCtrlRead K p) (\<lambda>_. child_loop K p) (grow h e s)"
  using child_round_run [OF assms] by metis

theorem child_round_is_request_witness:
  "\<exists>h e. map fst h = [SysUnix ''signal'' [14] [''handle_alarm_timeout''], SysUnix ''alarm'' [300] []]
     \<and> child_loop (drip 5 (request_line ''cwd'' ''pub'')) 0 (ready_server ready_session)
     = bind (processCtrlRead (drip 5 (request_line ''cwd'' ''pub'')) 0)
         (\<lambda>_. child_loop (drip 5 (request_line ''cwd'' ''pub'')) 0) (grow h e (ready_server ready_session))"
proof -
  have "alarm_calls (tun (ready_server ready_session))
      = [SysUnix ''signal'' [14] [''handle_alarm_timeout''], SysUnix ''alarm'' [300] []]"
    by (simp add: alarm_calls_def ready_server_def init_server_def default_tunables_def SIGALRM_def)
  moreover have "stream (drip 5 (request_line ''cwd'' ''pub'')) (ctrl_fd ready_session) (request_line ''cwd'' ''pub'')"
    by (simp add: drip_stream)
  ultimately show ?thesis
    using child_round_is_request [of "ready_server ready_session" 0 ready_session "drip 5 (request_line ''cwd'' ''pub'')"
        "request_line ''cwd'' ''pub''" "''cwd''" "''pub''" "[]"]
    by (auto simp: sets_alarm_def wf_request_def nul_def cr_def lf_def MAX_COMMAND_def request_line_def)
qed

text \<open>C37: \<open>handle_child\<close> serves a client that sends any number of requests with fixed answers, one
  after the answer to the other, and hangs up: the client gets the greeting and the answers in the
  order of the requests, every request is consumed, and the process ends with status 0.\<close>

theorem handle_child_serves:
  assumes "line_stream K (ctrl_fd x) (taken (ctrl_fd x) (trace s) @ requests rs)"
    and "peek_eof K (ctrl_fd x) (taken (ctrl_fd x) (trace s) @ requests rs)" "writes_progress K"
    and "sessions s p = Some x" "static_requests rs"
  shows "\<exists>s'. handle_child K p s = Some (Stop (Exit 0) s')
     \<and> sent (ctrl_fd x) (since s s') = reply_text 220 ''(myftpd 0.1)'' @ answers rs
     \<and> taken (ctrl_fd x) (since s s') = requests rs"
proof -
  have "wp (ftp_reply K p FTP_GREET ''(myftpd 0.1)'') (\<lambda>_ s1. \<exists>h e. s1 = grow h e s
      \<and> writes_only (ctrl_fd x) h \<and> sent (ctrl_fd x) h = reply_text 220 ''(myftpd 0.1)'') s"
    using assms(3,4) by (auto intro!: wp_ftp_reply) blast
  then obtain h e where g: "ftp_reply K p FTP_GREET ''(myftpd 0.1)'' s = Some (Go () (grow h e s))"
    "writes_only (ctrl_fd x) h" "sent (ctrl_fd x) h = reply_text 220 ''(myftpd 0.1)''"
    by (auto simp: wp_ex)
  obtain h' s' where "child_loop K p (grow h e s) = Some (Stop (Exit 0) s')" "trace s' = trace (grow h e s) @ h'"
    "sent (ctrl_fd x) h' = answers rs" "taken (ctrl_fd x) h' = requests rs"
    using child_loop_serves [OF assms(1-3), of "grow h e s" p x rs] assms(4,5) g(2)
    by (auto simp: writes_only_taken)
  then show ?thesis using g by (auto simp: handle_child_def since_def writes_only_taken)
qed

text \<open>Eight requests, 51 bytes in all.\<close>

definition eight_requests :: "(string \<times> string) list" where
  "eight_requests = (''foo'', ''bar'') # replicate 7 (''noop'', [])"

theorem handle_child_serves_witness:
  "\<exists>s'. handle_child (small_kernel (requests eight_requests) 0) 0 (ready_server ready_session)
        = Some (Stop (Exit 0) s')
     \<and> sent 5 (since (ready_server ready_session) s') = reply_text 220 ''(myftpd 0.1)''
         @ reply_text 500 ''Unknown command.'' @ concat (replicate 7 (reply_text 200 ''NOOP ok.''))"
proof -
  let ?K = "small_kernel (requests eight_requests) 0"
  have m: "toupper (CHR ''n'') = CHR ''N''" "toupper (CHR ''o'') = CHR ''O''"
    "toupper (CHR ''p'') = CHR ''P''" "toupper (CHR ''f'') = CHR ''F''" by code_simp+
  have a: "static_answer ''NOOP'' = Some (reply_text 200 ''NOOP ok.'')"
    "static_answer ''FOO'' = Some (reply_text 500 ''Unknown command.'')"
    by (simp_all add: static_answer_def static_answers_def ctrl_cmds_def telnet_abor_def)
  have "static_requests eight_requests"
    "answers eight_requests = reply_text 500 ''Unknown command.'' @ concat (replicate 7 (reply_text 200 ''NOOP ok.''))"
    by (simp_all add: eight_requests_def static_requests_def list_all_iff answers_def m a wf_request_def nul_def cr_def lf_def
        MAX_COMMAND_def request_line_def)
  moreover have "line_stream ?K (ctrl_fd ready_session) (requests eight_requests)"
    by (rule byte_line_stream) (simp_all add: small_kernel_def)
  moreover have "peek_eof ?K (ctrl_fd ready_session) (requests eight_requests)"
    by (simp add: peek_eof_def small_kernel_def)
  ultimately show ?thesis
    using handle_child_serves [of ?K ready_session "ready_server ready_session" eight_requests 0] small_kernel_ok(2)
    by fastforce
qed

section \<open>After \<open>QUIT\<close>\<close>

text \<open>\<open>QUIT\<close> frees the session, which suits the server; the loop clears the buffers of the freed session.\<close>

theorem child_quit_uses_freed_session:
  assumes x: "sessions s p = Some x" and K: "stream K (ctrl_fd x) inp" "writes_progress K"
    and inp: "inp = taken (ctrl_fd x) (trace s) @ request_line c a @ later" and q: "map toupper c = ''QUIT''"
    and wf: "wf_request c a" "length (request_line c a @ later) < MAX_COMMAND"
    and t: "in_table (ctrl_fd x) s"
    and f: "case fd_in (sessinfo s ! nat (ctrl_fd x)) of None \<Rightarrow> True | Some q \<Rightarrow> fdts s q \<noteq> None"
  shows "ends (child_loop K p) UseAfterFree s"
proof -
  obtain h e where h: "sets_alarm (tun s) h"
    "child_loop K p s = bind (processCtrlRead K p) (\<lambda>_. child_loop K p) (grow h e s)"
    using child_round_run [OF x K(1) inp wf] .
  let ?s = "grow h e s"
  have "inp = taken (ctrl_fd x) (trace ?s) @ request_line c a @ later" "sessions ?s p = Some x"
    using inp x h(1) by (simp_all add: sets_alarm_effect)
  then obtain h' e' l where r: "processCtrlRead K p ?s = bind (dispatch K p ''QUIT'') (\<lambda>_. ret STATUS_NONE)
       (grow h' e' (?s\<lparr>sessions := (sessions ?s)(p \<mapsto> filled x l c a)\<rparr>))"
    using request_dispatched_run [OF K(1) _ wf] q by metis
  have "map_of ctrl_cmds ''QUIT'' = Some (Some do_quit)" by (simp add: ctrl_cmds_def)
  then have "dispatch K p ''QUIT'' = do_quit K p" by (simp add: dispatch_def)
  moreover have "ctrl_fd (filled x l c a) = ctrl_fd x" by (simp add: filled_def)
  ultimately have "wp (processCtrlRead K p) (\<lambda>_ s2. sessions s2 p = None) ?s"
    unfolding wp_def r using t f K(2)
    by (simp flip: wp_def add: do_quit_def) (auto intro!: wp_ftp_reply wp_closeSess [where x = "filled x l c a"] split: option.splits)
  then obtain n s2 where s2: "processCtrlRead K p ?s = Some (Go n s2)" "sessions s2 p = None"
    by (auto simp: wp_ex)
  have "ends (child_loop K p) UseAfterFree s2"
    using s2(2) by (subst ends_def, subst child_loop.simps)
      (simp add: seq_def upd_sess_def get_sess_def gets_def bind_def deref_def stop_def)
  then show ?thesis using h(2) s2(1) by (simp add: ends_def)
qed

section \<open>The alarms\<close>

text \<open>The idle alarm: no request is taken any more, the client is told, and the process ends.\<close>

theorem idle_alarm_ends_session:
  assumes "writes_progress K" "p_sess s = Some p" "sessions s p = Some x"
  shows "\<exists>s' h r1 r2. handle_alarm_timeout K s = Some (Stop (Exit 1) s') \<and> writes_only (ctrl_fd x) h
     \<and> sent (ctrl_fd x) h = reply_text 421 ''Timeout.''
     \<and> since s s' = (SysUnix ''shutdown'' [ctrl_fd x, SHUT_RD] [], r1) # h
         @ [(SysUnix ''shutdown'' [ctrl_fd x, SHUT_WR] [], r2)]"
proof -
  let ?c = "SysUnix ''shutdown'' [ctrl_fd x, SHUT_RD] []" and ?d = "SysUnix ''shutdown'' [ctrl_fd x, SHUT_WR] []"
  let ?s = "after K ?c s"
  have "wp (ftp_reply K p FTP_IDLE_TIMEOUT ''Timeout.'') (\<lambda>_ s1. \<exists>h e. s1 = grow h e ?s
      \<and> writes_only (ctrl_fd x) h \<and> sent (ctrl_fd x) h = reply_text 421 ''Timeout.'') ?s"
    using assms(1,3) by (auto intro!: wp_ftp_reply) blast
  then obtain h e where g: "ftp_reply K p FTP_IDLE_TIMEOUT ''Timeout.'' ?s = Some (Go () (grow h e ?s))"
    "writes_only (ctrl_fd x) h" "sent (ctrl_fd x) h = reply_text 421 ''Timeout.''"
    by (auto simp: wp_ex)
  have "handle_alarm_timeout K s = Some (Stop (Exit 1) (after K ?d (grow h e ?s)))"
    using assms(2,3) g(1)
    by (simp add: handle_alarm_timeout_def the_session_def shutdown_def nonnull_def gets_def bind_def
        seq_def get_sess_def deref_def call_run ret_def stop_def)
  with g(2,3) show ?thesis by (auto simp: since_def)
qed

text \<open>The alarm of a data connection: with progress since the last one it only clears the mark and is set
  again; a second one without progress in between ends the process.\<close>

lemma wp_the_session [simp]: "wp the_session Q s = (case p_sess s of None \<Rightarrow> False | Some p \<Rightarrow> Q p s)"
  by (simp add: the_session_def)

lemma data_alarm_progress:
  assumes "p_sess s = Some p" "sessions s p = Some x" "data_process x \<noteq> 0"
  shows "wp (handle_sigalrm K) (\<lambda>_ s'. sessions s' = (sessions s)(p \<mapsto> x\<lparr>data_process := 0\<rparr>)
     \<and> p_sess s' = p_sess s) s"
  using assms by (simp add: handle_sigalrm_def start_data_alarm_def signal_alarm_def alarm_def)

lemma data_alarm_stuck:
  assumes "writes_progress K" "p_sess s = Some p" "sessions s p = Some x" "data_process x = 0"
  shows "ends (handle_sigalrm K) (Exit 1) s"
proof -
  have "wp (ftp_reply K p FTP_DATA_TIMEOUT ''Data timeout. Reconnect. Sorry.'') (\<lambda>_ _. True) s"
    using assms(1,3) by (auto intro!: wp_ftp_reply)
  then have "ends (seq (ftp_reply K p FTP_DATA_TIMEOUT ''Data timeout. Reconnect. Sorry.'')
      (stop (Exit 1) :: (unit, server) prog)) (Exit 1) s"
    by (intro ends_seq, elim wp_mono) simp
  moreover have "handle_sigalrm K s = seq (ftp_reply K p FTP_DATA_TIMEOUT ''Data timeout. Reconnect. Sorry.'')
      (stop (Exit 1)) s"
    using assms(2-4) by (simp add: handle_sigalrm_def the_session_def nonnull_def gets_def bind_def
        get_sess_def deref_def ret_def)
  ultimately show ?thesis by (simp add: ends_def)
qed

theorem data_alarm_needs_progress:
  assumes "writes_progress K" "p_sess s = Some p" "sessions s p = Some x"
  shows "ends (seq (handle_sigalrm K) (handle_sigalrm K)) (Exit 1) s"
proof (cases "data_process x = 0")
  case True
  then have "ends (handle_sigalrm K) (Exit 1) s" using data_alarm_stuck assms by blast
  then show ?thesis by (auto simp: ends_def seq_def)
next
  case False
  show ?thesis
    by (rule ends_seq, rule wp_mono [OF data_alarm_progress [OF assms(2,3) False]])
      (auto intro!: data_alarm_stuck [OF assms(1)] simp: assms(2))
qed

end
