(* ===== verification/Csapp.thy ===== *)
theory Csapp
  imports SysUtil
begin

text \<open>
  \<^verbatim>\<open>csapp.cpp\<close>: wrappers that end the process when a call fails. A wrapper hands back the whole answer
  of its call: \<open>rv\<close> is what the C function returns, the rest is what the call stored through its
  pointers. The messages on \<open>stderr\<close> are left out; every error function ends the process with
  status 0, as the text of the server's own failures does.
\<close>

section \<open>Errors\<close>

definition unix_error :: "('a, 's) prog" where "unix_error = stop (Exit 0)"
definition posix_error :: "('a, 's) prog" where "posix_error = stop (Exit 0)"
definition dns_error :: "('a, 's) prog" where "dns_error = stop (Exit 0)"
definition app_error :: "('a, 's) prog" where "app_error = stop (Exit 0)"

text \<open>A call whose result is tested, and what stands for its failure.\<close>

type_synonym 'z wrapped = "(sysret, 'z kstate_scheme) prog"

definition checked :: "(int \<Rightarrow> bool) \<Rightarrow> 'z wrapped \<Rightarrow> kernel \<Rightarrow> syscall \<Rightarrow> 'z wrapped" where
  "checked bad err K c = bind (sys K c) (\<lambda>r. if bad (rv r) then err else ret r)"

definition negative :: "int \<Rightarrow> bool" where "negative r \<longleftrightarrow> r < 0"
definition minus_one :: "int \<Rightarrow> bool" where "minus_one r \<longleftrightarrow> r = - 1"
definition is_null :: "int \<Rightarrow> bool" where "is_null r \<longleftrightarrow> r = 0"
definition nonzero :: "int \<Rightarrow> bool" where "nonzero r \<longleftrightarrow> r \<noteq> 0"

section \<open>Process control\<close>

definition Fork :: "kernel \<Rightarrow> 'z wrapped" where
  "Fork K = checked negative unix_error K (SysUnix ''fork'' [] [])"

definition Execve :: "kernel \<Rightarrow> string \<Rightarrow> string list \<Rightarrow> string list \<Rightarrow> 'z wrapped" where
  "Execve K filename argv envp =
     checked negative unix_error K (SysUnix ''execve'' [] (filename # argv @ envp))"

definition Wait :: "kernel \<Rightarrow> 'z wrapped" where
  "Wait K = checked negative unix_error K (SysUnix ''wait'' [] [])"

definition Waitpid :: "kernel \<Rightarrow> int \<Rightarrow> int \<Rightarrow> 'z wrapped" where
  "Waitpid K pid options = checked negative unix_error K (SysUnix ''waitpid'' [pid, options] [])"

definition Kill :: "kernel \<Rightarrow> int \<Rightarrow> int \<Rightarrow> 'z wrapped" where
  "Kill K pid signum = checked negative unix_error K (SysUnix ''kill'' [pid, signum] [])"

definition Pause :: "kernel \<Rightarrow> (unit, 'z kstate_scheme) prog" where
  "Pause K = seq (sys K (SysUnix ''pause'' [] [])) (ret ())"

text \<open>The test in \<open>Sleep\<close> is on an \<open>unsigned\<close> and never holds.\<close>

definition Sleep :: "kernel \<Rightarrow> u32 \<Rightarrow> (u32, 'z kstate_scheme) prog" where
  "Sleep K secs =
     bind (call K (SysUnix ''sleep'' [uint secs] [])) (\<lambda>r.
     let rc = word_of_int r in if rc < 0 then unix_error else ret rc)"

definition Alarm :: "kernel \<Rightarrow> u32 \<Rightarrow> (u32, 'z kstate_scheme) prog" where
  "Alarm K seconds =
     bind (call K (SysUnix ''alarm'' [uint seconds] [])) (\<lambda>r. ret (word_of_int r))"

definition Setpgid :: "kernel \<Rightarrow> int \<Rightarrow> int \<Rightarrow> 'z wrapped" where
  "Setpgid K pid pgid = checked negative unix_error K (SysUnix ''setpgid'' [pid, pgid] [])"

definition Getpgrp :: "kernel \<Rightarrow> 'z wrapped" where
  "Getpgrp K = sys K (SysUnix ''getpgrp'' [] [])"

section \<open>Signals\<close>

text \<open>A handler and a set of signals are addresses. \<open>Signal\<close> hands back the answer of
  \<open>sigaction\<close>, which holds the old handler.\<close>

definition Signal :: "kernel \<Rightarrow> int \<Rightarrow> int \<Rightarrow> 'z wrapped" where
  "Signal K signum handler =
     seq (sys K (SysUnix ''sigemptyset'' [] []))
       (checked negative unix_error K (SysUnix ''sigaction'' [signum, handler] []))"

definition Sigprocmask :: "kernel \<Rightarrow> int \<Rightarrow> int \<Rightarrow> 'z wrapped" where
  "Sigprocmask K how set1 = checked negative unix_error K (SysUnix ''sigprocmask'' [how, set1] [])"

definition Sigemptyset :: "kernel \<Rightarrow> int \<Rightarrow> 'z wrapped" where
  "Sigemptyset K set1 = checked negative unix_error K (SysUnix ''sigemptyset'' [set1] [])"

definition Sigfillset :: "kernel \<Rightarrow> int \<Rightarrow> 'z wrapped" where
  "Sigfillset K set1 = checked negative unix_error K (SysUnix ''sigfillset'' [set1] [])"

definition Sigaddset :: "kernel \<Rightarrow> int \<Rightarrow> int \<Rightarrow> 'z wrapped" where
  "Sigaddset K set1 signum = checked negative unix_error K (SysUnix ''sigaddset'' [set1, signum] [])"

definition Sigdelset :: "kernel \<Rightarrow> int \<Rightarrow> int \<Rightarrow> 'z wrapped" where
  "Sigdelset K set1 signum = checked negative unix_error K (SysUnix ''sigdelset'' [set1, signum] [])"

definition Sigismember :: "kernel \<Rightarrow> int \<Rightarrow> int \<Rightarrow> 'z wrapped" where
  "Sigismember K set1 signum =
     checked negative unix_error K (SysUnix ''sigismember'' [set1, signum] [])"

section \<open>Files and descriptors\<close>

definition Open :: "kernel \<Rightarrow> string \<Rightarrow> int \<Rightarrow> int \<Rightarrow> 'z wrapped" where
  "Open K pathname flags mode =
     checked negative unix_error K (SysUnix ''open'' [flags, mode] [pathname])"

definition Read :: "kernel \<Rightarrow> int \<Rightarrow> int \<Rightarrow> 'z wrapped" where
  "Read K fd count = checked negative unix_error K (SysUnix ''read'' [fd, count] [])"

definition Write :: "kernel \<Rightarrow> int \<Rightarrow> string \<Rightarrow> int \<Rightarrow> 'z wrapped" where
  "Write K fd buf count = checked negative unix_error K (SysUnix ''write'' [fd, count] [buf])"

definition Lseek :: "kernel \<Rightarrow> int \<Rightarrow> int \<Rightarrow> int \<Rightarrow> 'z wrapped" where
  "Lseek K fildes offset whence =
     checked negative unix_error K (SysUnix ''lseek'' [fildes, offset, whence] [])"

definition Close :: "kernel \<Rightarrow> int \<Rightarrow> 'z wrapped" where
  "Close K fd = checked negative unix_error K (SysUnix ''close'' [fd] [])"

definition Select :: "kernel \<Rightarrow> int \<Rightarrow> int \<Rightarrow> int \<Rightarrow> int \<Rightarrow> int \<Rightarrow> 'z wrapped" where
  "Select K n readfds writefds exceptfds timeout =
     checked negative unix_error K (SysUnix ''select'' [n, readfds, writefds, exceptfds, timeout] [])"

definition Dup2 :: "kernel \<Rightarrow> int \<Rightarrow> int \<Rightarrow> 'z wrapped" where
  "Dup2 K fd1 fd2 = checked negative unix_error K (SysUnix ''dup2'' [fd1, fd2] [])"

definition Stat :: "kernel \<Rightarrow> string \<Rightarrow> 'z wrapped" where
  "Stat K filename = checked negative unix_error K (SysUnix ''stat'' [] [filename])"

definition Fstat :: "kernel \<Rightarrow> int \<Rightarrow> 'z wrapped" where
  "Fstat K fd = checked negative unix_error K (SysUnix ''fstat'' [fd] [])"

section \<open>Memory\<close>

text \<open>Addresses are integers and \<open>NULL\<close> is 0.\<close>

definition Mmap :: "kernel \<Rightarrow> int \<Rightarrow> int \<Rightarrow> int \<Rightarrow> int \<Rightarrow> int \<Rightarrow> int \<Rightarrow> 'z wrapped" where
  "Mmap K addr len prot flags fd offset =
     checked minus_one unix_error K (SysUnix ''mmap'' [addr, len, prot, flags, fd, offset] [])"

definition Munmap :: "kernel \<Rightarrow> int \<Rightarrow> int \<Rightarrow> 'z wrapped" where
  "Munmap K addr len = checked negative unix_error K (SysUnix ''munmap'' [addr, len] [])"

definition Malloc :: "kernel \<Rightarrow> int \<Rightarrow> 'z wrapped" where
  "Malloc K size1 = checked is_null unix_error K (SysUnix ''malloc'' [size1] [])"

definition Realloc :: "kernel \<Rightarrow> int \<Rightarrow> int \<Rightarrow> 'z wrapped" where
  "Realloc K ptr size1 = checked is_null unix_error K (SysUnix ''realloc'' [ptr, size1] [])"

definition Calloc :: "kernel \<Rightarrow> int \<Rightarrow> int \<Rightarrow> 'z wrapped" where
  "Calloc K nmemb size1 = checked is_null unix_error K (SysUnix ''calloc'' [nmemb, size1] [])"

definition Free :: "kernel \<Rightarrow> int \<Rightarrow> (unit, 'z kstate_scheme) prog" where
  "Free K ptr = seq (sys K (SysUnix ''free'' [ptr] [])) (ret ())"

section \<open>Standard input and output\<close>

text \<open>A stream is an address; \<open>EOF\<close> is \<open>-1\<close>.\<close>

definition Fclose :: "kernel \<Rightarrow> int \<Rightarrow> 'z wrapped" where
  "Fclose K fp = checked nonzero unix_error K (SysUnix ''fclose'' [fp] [])"

definition Fdopen :: "kernel \<Rightarrow> int \<Rightarrow> string \<Rightarrow> 'z wrapped" where
  "Fdopen K fd type1 = checked is_null unix_error K (SysUnix ''fdopen'' [fd] [type1])"

definition Fgets :: "kernel \<Rightarrow> int \<Rightarrow> int \<Rightarrow> 'z wrapped" where
  "Fgets K n stream =
     bind (sys K (SysUnix ''fgets'' [n, stream] [])) (\<lambda>r.
     if rv r = 0 then bind (call K (SysUnix ''ferror'' [stream] [])) (\<lambda>e.
       if e \<noteq> 0 then app_error else ret r)
     else ret r)"

definition Fopen :: "kernel \<Rightarrow> string \<Rightarrow> string \<Rightarrow> 'z wrapped" where
  "Fopen K filename mode = checked is_null unix_error K (SysUnix ''fopen'' [] [filename, mode])"

definition Fputs :: "kernel \<Rightarrow> string \<Rightarrow> int \<Rightarrow> 'z wrapped" where
  "Fputs K ptr stream = checked minus_one unix_error K (SysUnix ''fputs'' [stream] [ptr])"

definition Fread :: "kernel \<Rightarrow> int \<Rightarrow> int \<Rightarrow> int \<Rightarrow> 'z wrapped" where
  "Fread K size1 nmemb stream =
     bind (sys K (SysUnix ''fread'' [size1, nmemb, stream] [])) (\<lambda>r.
     if rv r < nmemb then bind (call K (SysUnix ''ferror'' [stream] [])) (\<lambda>e.
       if e \<noteq> 0 then unix_error else ret r)
     else ret r)"

definition Fwrite :: "kernel \<Rightarrow> string \<Rightarrow> int \<Rightarrow> int \<Rightarrow> int \<Rightarrow> (unit, 'z kstate_scheme) prog" where
  "Fwrite K ptr size1 nmemb stream =
     bind (call K (SysUnix ''fwrite'' [size1, nmemb, stream] [ptr])) (\<lambda>n.
     if n < nmemb then unix_error else ret ())"

section \<open>Sockets and names\<close>

definition Socket :: "kernel \<Rightarrow> int \<Rightarrow> int \<Rightarrow> int \<Rightarrow> 'z wrapped" where
  "Socket K domain type1 protocol =
     checked negative unix_error K (SysUnix ''socket'' [domain, type1, protocol] [])"

definition Setsockopt :: "kernel \<Rightarrow> int \<Rightarrow> int \<Rightarrow> int \<Rightarrow> int \<Rightarrow> int \<Rightarrow> 'z wrapped" where
  "Setsockopt K s level optname optval optlen =
     checked negative unix_error K (SysUnix ''setsockopt'' [s, level, optname, optval, optlen] [])"

definition Bind :: "kernel \<Rightarrow> int \<Rightarrow> int \<Rightarrow> int \<Rightarrow> 'z wrapped" where
  "Bind K sockfd my_addr addrlen =
     checked negative unix_error K (SysUnix ''bind'' [sockfd, my_addr, addrlen] [])"

definition Listen :: "kernel \<Rightarrow> int \<Rightarrow> int \<Rightarrow> 'z wrapped" where
  "Listen K s backlog = checked negative unix_error K (SysUnix ''listen'' [s, backlog] [])"

definition Connect :: "kernel \<Rightarrow> int \<Rightarrow> int \<Rightarrow> int \<Rightarrow> 'z wrapped" where
  "Connect K sockfd serv_addr addrlen =
     checked negative unix_error K (SysUnix ''connect'' [sockfd, serv_addr, addrlen] [])"

definition Gethostbyname :: "kernel \<Rightarrow> string \<Rightarrow> 'z wrapped" where
  "Gethostbyname K name = checked is_null dns_error K (SysUnix ''gethostbyname'' [] [name])"

definition Gethostbyaddr :: "kernel \<Rightarrow> string \<Rightarrow> int \<Rightarrow> int \<Rightarrow> 'z wrapped" where
  "Gethostbyaddr K addr len type1 =
     checked is_null dns_error K (SysUnix ''gethostbyaddr'' [len, type1] [addr])"

section \<open>Threads\<close>

definition Pthread_create :: "kernel \<Rightarrow> int \<Rightarrow> int \<Rightarrow> int \<Rightarrow> 'z wrapped" where
  "Pthread_create K attrp routine argp =
     checked nonzero posix_error K (SysUnix ''pthread_create'' [attrp, routine, argp] [])"

definition Pthread_cancel :: "kernel \<Rightarrow> int \<Rightarrow> 'z wrapped" where
  "Pthread_cancel K tid = checked nonzero posix_error K (SysUnix ''pthread_cancel'' [tid] [])"

definition Pthread_join :: "kernel \<Rightarrow> int \<Rightarrow> 'z wrapped" where
  "Pthread_join K tid = checked nonzero posix_error K (SysUnix ''pthread_join'' [tid] [])"

definition Pthread_detach :: "kernel \<Rightarrow> int \<Rightarrow> 'z wrapped" where
  "Pthread_detach K tid = checked nonzero posix_error K (SysUnix ''pthread_detach'' [tid] [])"

text \<open>The value goes to whoever joins the thread.\<close>

definition Pthread_exit :: "kernel \<Rightarrow> int \<Rightarrow> ('a, 'z kstate_scheme) prog" where
  "Pthread_exit K retval = seq (sys K (SysUnix ''pthread_exit'' [retval] [])) (stop Thread_exit)"

definition Pthread_self :: "kernel \<Rightarrow> 'z wrapped" where
  "Pthread_self K = sys K (SysUnix ''pthread_self'' [] [])"

definition Pthread_once :: "kernel \<Rightarrow> int \<Rightarrow> int \<Rightarrow> (unit, 'z kstate_scheme) prog" where
  "Pthread_once K once_control init_function =
     seq (sys K (SysUnix ''pthread_once'' [once_control, init_function] [])) (ret ())"

section \<open>Clients and servers\<close>

text \<open>The sockets of these functions are those of the server (\<open>tcp_server\<close>), so they
  use its calls; a port is cut to 16 bits by \<open>htons\<close>. No path closes the socket.\<close>

definition open_clientfd :: "kernel \<Rightarrow> string \<Rightarrow> int \<Rightarrow> (int, 'z kstate_scheme) prog" where
  "open_clientfd K hostname prt =
     bind (call K SysSocket) (\<lambda>clientfd.
     if clientfd < 0 then ret (- 1)
     else bind (sys K (SysPath path_call.Gethostbyname hostname)) (\<lambda>hp.
       if rv hp < 0 then ret (- 2)
       else bind (call K (SysConnect clientfd (num hp) (nat (prt mod 65536)))) (\<lambda>r.
         if r < 0 then ret (- 1) else ret clientfd)))"

definition open_listenfd :: "kernel \<Rightarrow> int \<Rightarrow> (int, 'z kstate_scheme) prog" where
  "open_listenfd K prt =
     bind (call K SysSocket) (\<lambda>listenfd.
     if listenfd < 0 then ret (- 1)
     else bind (call K (SysFd fd_call.Setsockopt listenfd)) (\<lambda>r.
       if r < 0 then ret (- 1)
       else bind (call K (SysBind listenfd 0 (nat (prt mod 65536)))) (\<lambda>r.
         if r < 0 then ret (- 1)
         else bind (call K (SysFd fd_call.Listen listenfd)) (\<lambda>r.
           if r < 0 then ret (- 1) else ret listenfd))))"

definition Open_clientfd :: "kernel \<Rightarrow> string \<Rightarrow> int \<Rightarrow> (int, 'z kstate_scheme) prog" where
  "Open_clientfd K hostname prt =
     bind (open_clientfd K hostname prt) (\<lambda>rc.
     if rc < 0 then (if rc = - 1 then unix_error else dns_error) else ret rc)"

definition Open_listenfd :: "kernel \<Rightarrow> int \<Rightarrow> (int, 'z kstate_scheme) prog" where
  "Open_listenfd K prt =
     bind (open_listenfd K prt) (\<lambda>rc. if rc < 0 then unix_error else ret rc)"

section \<open>What the helpers leave behind\<close>

definition listen_calls :: "int \<Rightarrow> int \<Rightarrow> syscall list" where
  "listen_calls fd prt =
     [SysSocket, SysFd fd_call.Setsockopt fd, SysBind fd 0 (nat (prt mod 65536)), SysFd fd_call.Listen fd]"

text \<open>The calls \<open>h\<close> are those of \<open>listen_calls\<close> up to the first failure, or all of them.\<close>

definition up_to_failure :: "int \<Rightarrow> int \<Rightarrow> history \<Rightarrow> bool" where
  "up_to_failure fd prt h \<longleftrightarrow> h \<noteq> [] \<and> map fst h = take (length h) (listen_calls fd prt)
     \<and> list_all (\<lambda>(c, r). 0 \<le> rv r) (butlast h) \<and> (length h < 4 \<longrightarrow> rv (snd (last h)) < 0)"

text \<open>\<open>open_listenfd\<close> makes its four calls in order, up to the first that fails, and always
  returns: the socket when none fails, and otherwise \<open>-1\<close> with the socket left open.\<close>

theorem open_listenfd_calls:
  "\<exists>r s' h fd. open_listenfd K prt s = Some (Go r s') \<and> trace s' = trace s @ h \<and> up_to_failure fd prt h
     \<and> fd = rv (snd (hd h)) \<and> r = (if rv (snd (last h)) < 0 then - 1 else fd)"
proof -
  define s1 where "s1 = after K SysSocket s"
  define fd where "fd = rv (K (trace s) SysSocket)"
  define s2 where "s2 = after K (SysFd fd_call.Setsockopt fd) s1"
  define s3 where "s3 = after K (SysBind fd 0 (nat (prt mod 65536))) s2"
  note d = open_listenfd_def call_run ret_def up_to_failure_def listen_calls_def
  note t = s1_def s2_def s3_def fd_def
  consider "fd < 0" | "0 \<le> fd" "rv (K (trace s1) (SysFd fd_call.Setsockopt fd)) < 0"
    | "0 \<le> fd" "0 \<le> rv (K (trace s1) (SysFd fd_call.Setsockopt fd))"
      "rv (K (trace s2) (SysBind fd 0 (nat (prt mod 65536)))) < 0"
    | "0 \<le> fd" "0 \<le> rv (K (trace s1) (SysFd fd_call.Setsockopt fd))"
      "0 \<le> rv (K (trace s2) (SysBind fd 0 (nat (prt mod 65536))))"
    by linarith
  then show ?thesis by cases (auto simp: d t)
qed

end
