(* ===== verification/RateLimit.thy ===== *)
theory RateLimit
  imports DataTransfer Complex_Main
begin

text \<open>
  \<^verbatim>\<open>nano_sleep\<close> of \<^verbatim>\<open>sysutil.cpp\<close> and the part of \<^verbatim>\<open>limit_rate\<close> (\<^verbatim>\<open>ftpproto.cpp\<close>) behind its first
  \<open>return\<close>, which the server never reaches. A \<open>double\<close> is a rational number, and the rounding of each
  operation is a parameter \<open>rnd\<close>; a cast to an integer cuts towards zero. The lemmas: a sleep that is
  interrupted goes on for what is left and ends; the limiter divides two rates as integers, so it
  lets up to twice the rate through that it is told to keep.
\<close>

section \<open>Definitions\<close>

definition trunc :: "rat \<Rightarrow> int" where
  "trunc x = (if 0 \<le> x then \<lfloor>x\<rfloor> else \<lceil>x\<rceil>)"

text \<open>A cast to a signed integer of \<open>w\<close> bits is undefined when the value does not fit.\<close>

definition cast_int :: "nat \<Rightarrow> rat \<Rightarrow> int res" where
  "cast_int w x = (if - (2 ^ (w - 1)) \<le> trunc x \<and> trunc x < 2 ^ (w - 1) then Inr (trunc x) else Inl IntOverflow)"

text \<open>The answer of \<open>nanosleep\<close> to a signal holds the seconds and nanoseconds that are left.\<close>

definition SysNanosleep :: "int \<Rightarrow> int \<Rightarrow> syscall" where
  "SysNanosleep sec nsec = SysUnix ''nanosleep'' [sec, nsec] []"

partial_function (option) nano_loop :: "kernel \<Rightarrow> int \<Rightarrow> int \<Rightarrow> (unit, 'z kstate_scheme) prog" where
  "nano_loop K sec nsec s =
     bind (sys K (SysNanosleep sec nsec)) (\<lambda>r.
     bind (gets errno) (\<lambda>e.
     if rv r = - 1 \<and> e = EINTR then nano_loop K (tv_sec r) (tv_usec r) else ret ())) s"

definition nano_sleep :: "(rat \<Rightarrow> rat) \<Rightarrow> kernel \<Rightarrow> rat \<Rightarrow> (unit, 'z kstate_scheme) prog" where
  "nano_sleep rnd K seconds =
     bind (lift (cast_int 64 seconds)) (\<lambda>secs.
     let frac = rnd (seconds - rnd (of_int secs)) in
     bind (lift (cast_int 64 (rnd (frac * 1000000000)))) (\<lambda>nsec.
     nano_loop K secs nsec))"

text \<open>The time since \<open>(sec0, usec0)\<close>, made positive; the bytes of a second in it, cut to an integer
  and read as \<open>unsigned\<close>; the pause that brings the rate \<open>r\<close> down to \<open>limit\<close>.\<close>

definition elapsed :: "(rat \<Rightarrow> rat) \<Rightarrow> int \<Rightarrow> int \<Rightarrow> int \<Rightarrow> int \<Rightarrow> rat" where
  "elapsed rnd sec usec sec0 usec0 =
     (let e = rnd (rnd (of_int sec) - rnd (of_int sec0));
          e = rnd (e + rnd (rnd (of_int (usec - usec0)) / 1000000))
      in if e \<le> 0 then rnd (1 / 100) else e)"

definition rate :: "(rat \<Rightarrow> rat) \<Rightarrow> int \<Rightarrow> rat \<Rightarrow> u32 res" where
  "rate rnd bytes_transfered e = bnd (cast_int 32 (rnd (of_int bytes_transfered / e))) (\<lambda>r. Inr (word_of_int r))"

definition pause_time :: "(rat \<Rightarrow> rat) \<Rightarrow> u32 \<Rightarrow> u32 \<Rightarrow> rat \<Rightarrow> rat res" where
  "pause_time rnd r limit e =
     (if limit = 0 then Inl DivByZero
      else let newr = of_nat (unat (r div limit)) in Inr (rnd (rnd (newr - 1) * e)))"

definition limit_rate_rest :: "(rat \<Rightarrow> rat) \<Rightarrow> kernel \<Rightarrow> nat \<Rightarrow> int \<Rightarrow> int \<Rightarrow> (unit, server) prog" where
  "limit_rate_rest rnd K p bytes_transfered is_upload =
     seq (upd_sess p (\<lambda>x. x\<lparr>data_process := 1\<rparr>)) (
     bind (get_time_sec K) (\<lambda>curr_sec.
     bind get_time_usec (\<lambda>curr_usec.
     bind (get_sess p) (\<lambda>x.
     let e = elapsed rnd curr_sec curr_usec (bw_transfer_start_sec x) (bw_transfer_start_usec x);
         limit = (if is_upload \<noteq> 0 then bw_upload_rate_max x else bw_download_rate_max x) in
     bind (lift (rate rnd bytes_transfered e)) (\<lambda>r.
     if r \<le> limit then
       upd_sess p (\<lambda>x. x\<lparr>bw_transfer_start_sec := curr_sec, bw_transfer_start_usec := curr_usec\<rparr>)
     else
       bind (lift (pause_time rnd r limit e)) (\<lambda>t.
       seq (nano_sleep rnd K t) (
       bind (get_time_sec K) (\<lambda>sec.
       seq (upd_sess p (\<lambda>x. x\<lparr>bw_transfer_start_sec := sec\<rparr>)) (
       bind get_time_usec (\<lambda>usec.
       upd_sess p (\<lambda>x. x\<lparr>bw_transfer_start_usec := usec\<rparr>)))))))))))"

section \<open>Sleeping\<close>

definition interrupted :: "sysret \<Rightarrow> bool" where
  "interrupted r \<longleftrightarrow> rv r = - 1 \<and> eno r = EINTR"

definition nanos :: "int \<Rightarrow> int \<Rightarrow> int" where
  "nanos sec nsec = 1000000000 * sec + nsec"

text \<open>What \<open>nanosleep\<close> documents: after a signal, less is left than was asked for.\<close>

definition sleeps :: "kernel \<Rightarrow> bool" where
  "sleeps K \<longleftrightarrow> (\<forall>h sec nsec. let r = K h (SysNanosleep sec nsec) in
     interrupted r \<longrightarrow> 0 \<le> nanos (tv_sec r) (tv_usec r) \<and> nanos (tv_sec r) (tv_usec r) < nanos sec nsec)"

text \<open>Calls of which each asks for what the one before left, down to one that is not interrupted.\<close>

fun resumed :: "int \<Rightarrow> int \<Rightarrow> history \<Rightarrow> bool" where
  "resumed sec nsec [] = False"
| "resumed sec nsec ((c, r) # h) \<longleftrightarrow> c = SysNanosleep sec nsec
     \<and> (if interrupted r then resumed (tv_sec r) (tv_usec r) h else h = [])"

lemma nano_loop_resumes:
  assumes "sleeps K"
  shows "wp (nano_loop K sec nsec) (\<lambda>_ s'. \<exists>h. moved s h s' \<and> resumed sec nsec h) s"
proof (induction "nat (nanos sec nsec)" arbitrary: sec nsec s rule: less_induct)
  case less
  let ?c = "SysNanosleep sec nsec"
  let ?r = "K (trace s) ?c"
  show ?case
  proof (cases "interrupted ?r")
    case True
    then have left: "0 \<le> nanos (tv_sec ?r) (tv_usec ?r)" "nanos (tv_sec ?r) (tv_usec ?r) < nanos sec nsec"
      using assms by (auto simp: sleeps_def Let_def)
    then have "nat (nanos (tv_sec ?r) (tv_usec ?r)) < nat (nanos sec nsec)" by linarith
    from less [OF this, of "after K ?c s"]
    have "wp (nano_loop K (tv_sec ?r) (tv_usec ?r)) (\<lambda>_ s'. \<exists>h. moved s h s' \<and> resumed sec nsec h) (after K ?c s)"
    proof (rule wp_mono)
      fix x :: unit and s'
      assume "\<exists>h. moved (after K ?c s) h s' \<and> resumed (tv_sec ?r) (tv_usec ?r) h"
      then obtain h where "moved (after K ?c s) h s'" "resumed (tv_sec ?r) (tv_usec ?r) h" by blast
      then show "\<exists>h. moved s h s' \<and> resumed sec nsec h"
        using True by (intro exI [of _ "(?c, ?r) # h"]) (simp add: moved_after_trans)
    qed
    with True show ?thesis
      unfolding wp_def [of "nano_loop K sec nsec"] nano_loop.simps [of K sec nsec] wp_def [symmetric]
      by (simp add: interrupted_def)
  next
    case False
    then show ?thesis
      unfolding wp_def [of "nano_loop K sec nsec"] nano_loop.simps [of K sec nsec] wp_def [symmetric]
      by (auto simp: interrupted_def intro!: exI [where x = "[(?c, ?r)]"] moved_after)
  qed
qed

text \<open>A rounding that keeps the order, and the integers that a \<open>double\<close> holds exactly.\<close>

definition rounds :: "(rat \<Rightarrow> rat) \<Rightarrow> bool" where
  "rounds rnd \<longleftrightarrow> mono rnd \<and> (\<forall>n. \<bar>n\<bar> \<le> 2 ^ 53 \<longrightarrow> rnd (of_int n) = of_int n)"

lemma rounds_int: "rounds rnd \<Longrightarrow> \<bar>n\<bar> \<le> 2 ^ 53 \<Longrightarrow> rnd (of_int n) = of_int n"
  by (simp add: rounds_def)

lemma rounds_0_1: "rounds rnd \<Longrightarrow> rnd 0 = 0" "rounds rnd \<Longrightarrow> rnd 1 = 1"
  using rounds_int [of rnd 0] rounds_int [of rnd 1] by simp_all

lemma rounds_le: "rounds rnd \<Longrightarrow> x \<le> of_int n \<Longrightarrow> \<bar>n\<bar> \<le> 2 ^ 53 \<Longrightarrow> rnd x \<le> of_int n"
  using rounds_int [of rnd n] monoD [of rnd x "of_int n"] by (simp add: rounds_def)

lemma rounds_ge: "rounds rnd \<Longrightarrow> of_int n \<le> x \<Longrightarrow> \<bar>n\<bar> \<le> 2 ^ 53 \<Longrightarrow> of_int n \<le> rnd x"
  using rounds_int [of rnd n] monoD [of rnd "of_int n" x] by (simp add: rounds_def)

lemma trunc_bounds: "of_int a \<le> x \<Longrightarrow> x \<le> of_int b \<Longrightarrow> 0 \<le> a \<Longrightarrow> a \<le> trunc x \<and> trunc x \<le> b"
proof -
  assume a: "of_int a \<le> x" "x \<le> of_int b" "0 \<le> a"
  then have "(0 :: rat) \<le> of_int a" by simp
  with a(1) have "0 \<le> x" by (rule order_trans [rotated])
  with a show ?thesis by (simp add: trunc_def le_floor_iff floor_le_iff)
qed

text \<open>The request is the whole seconds and at most \<open>10\<^sup>9\<close> nanoseconds, and it is slept to its end.\<close>

lemma nano_sleep_resumes:
  assumes K: "sleeps K" and r: "rounds rnd" and sec: "0 \<le> seconds" "seconds < 2 ^ 53"
  shows "wp (nano_sleep rnd K seconds) (\<lambda>_ s'. \<exists>nsec h. 0 \<le> nsec \<and> nsec \<le> 1000000000
     \<and> moved s h s' \<and> resumed \<lfloor>seconds\<rfloor> nsec h) s"
proof -
  have t: "trunc seconds = \<lfloor>seconds\<rfloor>" using sec by (simp add: trunc_def)
  have f: "0 \<le> \<lfloor>seconds\<rfloor>" "\<lfloor>seconds\<rfloor> < 2 ^ 53" using sec by (simp_all add: floor_less_iff)
  have e: "rnd (of_int \<lfloor>seconds\<rfloor>) = of_int \<lfloor>seconds\<rfloor>" using f by (intro rounds_int [OF r]) simp
  define frac where "frac = rnd (seconds - of_int \<lfloor>seconds\<rfloor>)"
  have "0 \<le> frac" "frac \<le> 1"
    using rounds_ge [OF r, of 0 "seconds - of_int \<lfloor>seconds\<rfloor>"] rounds_le [OF r, of "seconds - of_int \<lfloor>seconds\<rfloor>" 1]
      of_int_floor_le [of seconds] floor_correct [of seconds] by (simp_all add: frac_def)
  then have "of_int 0 \<le> rnd (frac * 1000000000)" "rnd (frac * 1000000000) \<le> of_int 1000000000"
    using rounds_ge [OF r, of 0 "frac * 1000000000"] rounds_le [OF r, of "frac * 1000000000" 1000000000] by simp_all
  from trunc_bounds [OF this] have n: "0 \<le> trunc (rnd (frac * 1000000000))" "trunc (rnd (frac * 1000000000)) \<le> 1000000000"
    by simp_all
  from n f show ?thesis
    by (auto simp: nano_sleep_def cast_int_def t e frac_def [symmetric] Let_def
        intro!: wp_mono [OF nano_loop_resumes [OF K]])
qed

section \<open>The limit\<close>

text \<open>A rate of less than twice the limit makes no pause.\<close>

lemma no_pause_below_twice:
  assumes "rounds rnd" "limit < r" "unat r < 2 * unat limit"
  shows "pause_time rnd r limit e = Inr 0"
proof -
  have "unat limit < unat r" using assms(2) by (simp add: word_less_nat_alt)
  then have "unat r div unat limit = 1" using assms(3) by (intro div_nat_eqI) auto
  then show ?thesis using assms
    by (auto simp: pause_time_def unat_div rounds_0_1)
qed

text \<open>Free of rounding, the pause leaves a rate between the limit and twice the limit; the comment of
  the source has it at the limit.\<close>

lemma paced_rate:
  assumes e: "0 < e" and n: "0 \<le> n" and l: "limit < r"
    and r: "rate id n e = Inr r" and p: "pause_time id r limit e = Inr t"
  shows "of_nat (unat limit) \<le> of_int n / (e + t) \<and> of_int n / (e + t) < 2 * of_nat (unat limit)"
proof -
  define x q where "x = of_int n / e" and "q = unat r div unat limit"
  have x: "0 \<le> x" using e n by (simp add: x_def)
  have "trunc x < 2 ^ 31" "r = word_of_int (trunc x)"
    using r by (simp_all add: rate_def cast_int_def x_def split: if_splits)
  then have "uint r = \<lfloor>x\<rfloor>"
    using x by (simp add: trunc_def uint_word_of_int_eq take_bit_int_eq_self)
  then have "of_nat (unat r) = (of_int \<lfloor>x\<rfloor> :: rat)" by (metis of_int_of_nat_eq uint_nat)
  then have R: "of_nat (unat r) \<le> x" "x < of_nat (unat r) + 1"
    using floor_correct [of x] by simp_all
  have l0: "0 < unat limit" "unat limit < unat r"
    using l p by (simp_all add: pause_time_def word_less_nat_alt unat_gt_0 split: if_splits)
  then have q: "0 < q" "q * unat limit \<le> unat r" "unat r + 1 \<le> (q + 1) * unat limit"
    using dividend_less_div_times [of "unat limit" "unat r"] by (simp_all add: q_def div_greater_zero_iff)
  have t: "e + t = of_nat q * e"
    using p by (simp add: pause_time_def unat_div q_def algebra_simps split: if_splits)
  have "of_nat q * of_nat (unat limit) \<le> x"
    using order_trans [OF _ R(1)] of_nat_mono [OF q(2), where 'a = rat] by simp
  then have low: "of_nat (unat limit) \<le> x / of_nat q" using q(1) by (simp add: pos_le_divide_eq mult.commute)
  have "x < (of_nat q + 1) * of_nat (unat limit)"
    using less_le_trans [OF R(2)] of_nat_mono [OF q(3), where 'a = rat] by (simp add: algebra_simps)
  moreover have "(q + 1) * unat limit \<le> q * (2 * unat limit)" using q(1) by (simp add: algebra_simps)
  from of_nat_mono [OF this, where 'a = rat]
  have "(of_nat q + 1) * of_nat (unat limit) \<le> (2 * of_nat (unat limit)) * (of_nat q :: rat)"
    by (simp add: algebra_simps)
  ultimately have "x / of_nat q < 2 * of_nat (unat limit)" using q(1) by (simp add: pos_divide_less_eq)
  with low show ?thesis by (simp add: t x_def mult.commute)
qed

lemma rate_limited_to_nothing: "0 < r \<Longrightarrow> pause_time rnd r 0 e = Inl DivByZero"
  by (simp add: pause_time_def)

end
