(* ===== verification/Spec2Isabelle.thy ===== *)
theory Spec2Isabelle
  imports Runs Service Passive Handlers Listing ChildLoop Csapp RateLimit
begin

text \<open>
  A verification library for the FTP server in \<^verbatim>\<open>src/\<close>: a single thread runs an epoll loop over the
  listening socket, the control connections and the passive data sockets, and hands each file transfer
  to a thread of its own.

  \<^bold>\<open>The program and its theories.\<close>

    \<^item> \<open>Prelude\<close>: undefined behaviour as values (\<open>fault\<close>, \<open>'a res\<close>), stores into arrays, \<open>unsigned\<close>
      integers and their bytes.
    \<^item> \<open>CString\<close>: \<^verbatim>\<open>str.cpp\<close> on buffers with bounds.
    \<^item> \<open>DList\<close>: doubly linked lists on a heap, shared by the two that the program has.
    \<^item> \<open>LruList\<close>: the list of connections by last request (\<open>linkMRU\<close>, \<open>unlinkNode\<close>, \<open>refreshTimeout\<close>,
      \<open>addtoNode\<close>, \<open>isTimeout\<close> of \<^verbatim>\<open>ftpepoll.cpp\<close>, the node of \<^verbatim>\<open>session.h\<close>). Locale \<open>recency\<close>.
    \<^item> \<open>HashTable\<close>: \<^verbatim>\<open>hash.cpp\<close>. Locale \<open>table\<close>.
    \<^item> \<open>IpCount\<close>: the connection counters of the addresses and the SIGCHLD handler (\<^verbatim>\<open>ftpepoll.cpp\<close>), proved
      inside \<open>table\<close>.
    \<^item> \<open>ParseConf\<close>: \<^verbatim>\<open>tunable.cpp\<close> and \<^verbatim>\<open>parseconf.cpp\<close>.
    \<^item> \<open>Kernel\<close>: the operating system as a parameter, and programs over it with their weakest
      preconditions.
    \<^item> \<open>SysUtil\<close>, \<open>LineReader\<close>: \<^verbatim>\<open>sysutil.cpp\<close>; the second theory is about \<open>readline\<close> alone.
    \<^item> \<open>Server\<close>: the state (\<^verbatim>\<open>session.h\<close>, the globals of \<^verbatim>\<open>ftpepoll.cpp\<close>), \<^verbatim>\<open>epoll_util.cpp\<close>, replies and
      \<open>closeSess\<close>.
    \<^item> \<open>FtpProto\<close>: every command handler of \<^verbatim>\<open>ftpproto.cpp\<close> and the codes of \<^verbatim>\<open>ftpcodes.h\<close>.
    \<^item> \<open>DataTransfer\<close>: \<open>threadRetr\<close> and \<open>upload_common\<close>, the bodies of the worker threads.
    \<^item> \<open>Dispatch\<close>: \<open>processRead\<close>, \<open>processCtrlRead\<close>, \<open>processDataRead\<close> and the table of commands.
    \<^item> \<open>EventLoop\<close>: \<open>main\<close>, \<open>epoll_wait_timeout\<close>, \<open>handleNewConn\<close>, \<open>isValid\<close>, and the step relation
      \<open>server_step\<close> of the whole server.
    \<^item> \<open>Csapp\<close>: \<^verbatim>\<open>csapp.cpp\<close>, wrappers that end the process when a call fails.
    \<^item> \<open>RateLimit\<close>: the rate limiter of \<^verbatim>\<open>ftpproto.cpp\<close>, which lies behind a \<open>return\<close>, and \<open>nano_sleep\<close> of
      \<^verbatim>\<open>sysutil.cpp\<close>, which only it uses; a \<open>double\<close> is a rational with its rounding as a parameter.
    \<^item> \<open>ChildLoop\<close>: \<open>handle_child\<close>, the service of a client by a process of its own, with the alarms and the
      handler of urgent data; \<^verbatim>\<open>ftpproto.h\<close> offers it and the epoll server does not call it.
    \<^item> \<open>Frame\<close>, \<open>Timeouts\<close>, \<open>Admission\<close>, \<open>Typing\<close>, \<open>Tables\<close>, \<open>Dangling\<close>, \<open>Runs\<close>, \<open>Service\<close>, \<open>Resume\<close>,
      \<open>Passive\<close>, \<open>Handlers\<close>, \<open>Listing\<close>: results across components; no code of their own.

  \<^bold>\<open>Interfaces.\<close> \<open>recency\<close> and \<open>table\<close> are the contracts of the list of connections and of the hash table.
  The others are about relations between the state before and after a program: \<open>moving\<close>, reflexive and
  transitive relations that the calls respect; \<open>session_base\<close>, \<open>session_rest\<close>, \<open>session_code\<close> and
  \<open>session_store\<close>, what a relation has to allow so that every handler and worker respects it: on a request,
  with the closing of a session as a parameter and PASV left out, with the passive socket as a parameter too,
  and with the stores of a session left free; \<open>server_relation\<close>, from an iteration and a worker to all runs.
  Each is interpreted on the model: \<open>session_store\<close> by the frame of a session and by \<open>sticky\<close> (a dangling
  node stays), \<open>session_code\<close> by the types of the state, \<open>session_rest\<close> by \<open>stays\<close> of \<open>Tables\<close>, which
  keeps the tables unless the request closes its own session; PASV is added there by hand, since its socket
  is new only while the control connection of the session is open.

  Every definition of the model carries the name of the function, the structure or the constant of the
  source. Where a loop or a branch of a long function is a definition of its own it is named after what it
  does (\<open>readline_loop\<close>, \<open>accept_loop\<close>, \<open>dispatch\<close>, \<open>finish_transfer\<close>).

  \<^bold>\<open>Memory.\<close> A \<open>struct\<close> is a record and a C array of \<open>char\<close> a list of fixed length. Pointers to nodes,
  sessions and descriptor records are optional naturals into a heap that is a partial map; \<open>free\<close> takes
  the entry out and an address is never handed out twice. A store or a scan that leaves its array, a use of
  a pointer after \<open>free\<close>, a null pointer or a division by zero is a \<open>fault\<close>, which ends the run; so are a
  call of \<open>exit\<close> and a fatal signal. \<open>malloc\<close> does not fail.

  \<^bold>\<open>The kernel.\<close> A \<open>kernel\<close> answers each call from the history of calls and answers before it, so any
  behaviour of the network, the files, the clock and the user database is some kernel, and a theorem over
  all kernels holds in any environment. What a theorem assumes of it is a named predicate: \<open>stream\<close> (bytes
  that arrive in pieces of any size), \<open>line_stream\<close> (the same from a client that waits for each answer),
  \<open>writes_progress\<close>, \<open>file_ready\<close> (one file of one directory), \<open>clock_runs\<close> and \<open>clock_answers\<close> (a clock
  that does not go back), \<open>clock\<close> (one that stands still, where the code waits for nothing), \<open>fresh_fds\<close> (a
  descriptor in use is not given out again). The history is kept in the state (\<open>trace\<close>); \<open>since s s'\<close> are the
  calls of one run and \<open>sent fd h\<close> the bytes that went out on a descriptor.

  \<^bold>\<open>Loops.\<close> No fuel is used. A loop over a list is structural; a loop that depends on the kernel
  is \<open>partial_function (option)\<close>, and \<open>None\<close> is a run that does not return. \<open>wp m Q s\<close> says that \<open>m\<close>
  returns, without a fault, in a state with \<open>Q\<close>; theorems that say \<open>wp\<close> therefore include termination.
  One theorem shows a loop that does not end (\<open>retr_shrunk_file_hangs\<close>).

  \<^bold>\<open>Threads.\<close> A worker is an entry of \<open>threads\<close> until it runs. \<open>server_step\<close> runs the main thread for one
  iteration or one waiting worker to its end, in any order. Interleavings inside an iteration are not
  modelled, and \<open>SIGCHLD\<close> does not arrive, since the server has no child processes.

  \<^bold>\<open>What is shown.\<close>

    \<^item> The list of connections never goes wrong on its own and stays sorted; a request moves its node to
      the front. The hash table implements a map, and the address counters count exactly.
    \<^item> The configuration reader inverts rendering; two inputs make it fault.
    \<^item> \<open>readline\<close> takes one line off a stream however it is cut; \<open>writen\<close> sends everything or reports failure.
    \<^item> A download and an upload move exactly the bytes they should, from the restart position; the requests
      PASV, REST and RETR or STOR of a client, with the event of its data connection between them, lead to
      such a transfer (\<open>passive_download\<close>, \<open>passive_upload\<close>).
    \<^item> A request is dispatched on its upper-case command, and no request and no worker changes the session of
      another client, the connection list, the counters or the tunables.
    \<^item> An iteration of the loop that finds requests of several clients answers each on its own connection and
      orders the list of connections by them (\<open>iteration_answers_requests\<close>).
    \<^item> LIST sends the directory, one line for each entry that is not hidden, between its two replies and on
      the data connection only.
    \<^item> A timeout closes exactly the connections that are idle for too long, with their control, data and
      passive sockets, and leaves consistent tables; the directory of a session stays open.
    \<^item> A connection is admitted or refused by the limits; over all reachable states the number of clients
      is bounded, an entry of \<open>sessinfo\<close> has the live record of its own descriptor, and a server that has
      passed the limit refuses every later client.
    \<^item> Login checks the password that was sent; PASV prints an address that PORT reads back.
    \<^item> In every run the tables that describe the clients (the list and its index by descriptor,
      \<open>sessinfo\<close>, the records of descriptors, the sessions) agree, or the list holds a node of a session that a
      request has closed (\<open>run_keeps_tables\<close>). The proof cuts a step into accepting one
      connection, one event, one timeout and one worker (\<open>part_step\<close>). It asks two things of the kernel: the
      clock does not go back, and neither \<open>socket\<close> nor \<open>accept\<close> gives the number of a control connection that
      has not been closed.
    \<^item> A round of \<open>handle_child\<close> is \<open>processCtrlRead\<close> behind the idle alarm, and the loop answers any
      number of requests, one after the other; both alarms end the process.
    \<^item> A group of theorems about behaviour that the code has and hardly means: overlong first segments,
      partial lines, sessions freed under the list or under a worker, times in the wrong unit, and others. Each says
      exactly under which input it happens.

  \<^bold>\<open>Not modelled.\<close> What is commented out (active data connections, old forms of the transfers); infinities
  and NaN in \<open>RateLimit\<close>; output to the terminal. A signal handler is a program of its own that runs between two others;
  the one for urgent data (\<open>handle_sigurg\<close>) is never installed and no property is about it. \<open>atoi\<close> of a
  number past the range of \<open>int\<close> is that of glibc.
  \<open>printf\<close> of a null string gives \<^verbatim>\<open>(null)\<close> as in glibc, and the time zone enters through the call \<open>SysLocaltime\<close>. A failure that the server reports through \<open>unix_error\<close> of
  \<^verbatim>\<open>csapp.cpp\<close> is the fault \<open>Exit 0\<close>, one through \<open>ERR_EXIT\<close> of \<^verbatim>\<open>common.h\<close> is \<open>Exit 1\<close>.
\<close>

end
